(* ===== verification/Prelude.thy ===== *)
theory Prelude
  imports Main "HOL-Library.Word"
begin

text \<open>
  Shared vocabulary of the development: the ways kernel code can stop (\<open>halt\<close>), the
  result type of fallible kernel code and its sequencing, machine integer types and the
  narrowing conversions of C, bit tests on flag words,
  and pointer chains (singly linked lists threaded through a table by an index field).
\<close>

unbundle bit_operations_syntax

named_theorems res_simps
named_theorems chain_simps

type_synonym u8 = "8 word"
type_synonym u16 = "16 word"
type_synonym u32 = "32 word"

subsection \<open>Ways to stop, and sequencing\<close>

text \<open>
  \<open>Panic msg\<close> is the kernel's \<open>panic(msg)\<close>, which does not return. \<open>Fault\<close> is a C
  access outside the object it is made through (a NULL or out-of-range pointer).
  \<open>Loop\<close> is a loop that does not end: a walk that has made more steps than there are
  nodes has met a node twice and would go round for ever.
\<close>

datatype halt = Panic string | Fault | Loop

type_synonym 'a res = "halt + 'a"

definition rbind :: "'a res \<Rightarrow> ('a \<Rightarrow> 'b res) \<Rightarrow> 'b res" where
  "rbind m f = (case m of Inl h \<Rightarrow> Inl h | Inr x \<Rightarrow> f x)"

lemma rbind_Inl [simp, res_simps]: "rbind (Inl h) f = Inl h"
  by (simp add: rbind_def)

lemma rbind_Inr [simp, res_simps]: "rbind (Inr x) f = f x"
  by (simp add: rbind_def)

lemma rbind_eq_Inr [res_simps]: "rbind m f = Inr y \<longleftrightarrow> (\<exists>x. m = Inr x \<and> f x = Inr y)"
  by (cases m) simp_all

lemma rbind_eq_Inl [res_simps]:
  "rbind m f = Inl h \<longleftrightarrow> m = Inl h \<or> (\<exists>x. m = Inr x \<and> f x = Inl h)"
  by (cases m) simp_all

lemma rbind_assoc: "rbind (rbind m f) g = rbind m (\<lambda>x. rbind (f x) g)"
  by (cases m) simp_all

lemma rbind_cong [fundef_cong]:
  "m = m' \<Longrightarrow> (\<And>x. m' = Inr x \<Longrightarrow> f x = f' x) \<Longrightarrow> rbind m f = rbind m' f'"
  by (cases m') simp_all

lemma rbind_Ex_InrI: "m = Inr x \<Longrightarrow> \<exists>y. f x = Inr y \<Longrightarrow> \<exists>y. rbind m f = Inr y"
  by simp

subsection \<open>Machine integers\<close>

text \<open>
  C's conversion of an \<open>int\<close> to the signed \<open>char\<close> and \<open>short\<close> of this machine
  (two's complement, modulo the width).
\<close>

definition schar :: "int \<Rightarrow> int" where
  "schar x = (x + 128) mod 256 - 128"

definition sshort :: "int \<Rightarrow> int" where
  "sshort x = (x + 32768) mod 65536 - 32768"

text \<open>The value of an \<open>int\<close> or \<open>long\<close> of 32 bits, for arithmetic that may exceed it.\<close>

definition s32 :: "int \<Rightarrow> int" where
  "s32 x = (x + 2147483648) mod 4294967296 - 2147483648"

lemma s32_id: "-2147483648 \<le> x \<Longrightarrow> x \<le> 2147483647 \<Longrightarrow> s32 x = x"
  by (simp add: s32_def)

lemma s32_range: "-2147483648 \<le> s32 x" "s32 x \<le> 2147483647"
proof -
  have "0 \<le> (x + 2147483648) mod 4294967296" "(x + 2147483648) mod 4294967296 < 4294967296" by simp_all
  then show "-2147483648 \<le> s32 x" "s32 x \<le> 2147483647" by (simp_all add: s32_def)
qed

lemma schar_id: "-128 \<le> x \<Longrightarrow> x \<le> 127 \<Longrightarrow> schar x = x"
  by (simp add: schar_def)

lemma schar_range: "-128 \<le> schar x" "schar x \<le> 127"
proof -
  have "0 \<le> (x + 128) mod 256" "(x + 128) mod 256 < 256" by simp_all
  then show "-128 \<le> schar x" "schar x \<le> 127" by (simp_all add: schar_def)
qed

lemma sshort_id: "-32768 \<le> x \<Longrightarrow> x \<le> 32767 \<Longrightarrow> sshort x = x"
  by (simp add: sshort_def)

text \<open>C's integer division and remainder: truncation towards zero.\<close>

definition cdiv :: "int \<Rightarrow> int \<Rightarrow> int" where
  "cdiv a b = sgn a * sgn b * (\<bar>a\<bar> div \<bar>b\<bar>)"

definition cmod :: "int \<Rightarrow> int \<Rightarrow> int" where
  "cmod a b = a - b * cdiv a b"

lemma cdiv_nonneg: "0 \<le> a \<Longrightarrow> 0 < b \<Longrightarrow> cdiv a b = a div b"
  by (cases "a = 0") (simp_all add: cdiv_def)

lemma cmod_nonneg: "0 \<le> a \<Longrightarrow> 0 < b \<Longrightarrow> cmod a b = a mod b"
  by (simp add: cmod_def cdiv_nonneg minus_mult_div_eq_mod)

text \<open>The test \<open>x & m\<close> of a flag word used as a condition.\<close>

definition tst :: "'a::len word \<Rightarrow> 'a word \<Rightarrow> bool" where
  "tst w m \<longleftrightarrow> w AND m \<noteq> 0"

lemma tst_0 [simp]: "\<not> tst 0 m" "\<not> tst w 0"
  by (simp_all add: tst_def)

lemma tst_bit_mask: "tst w m \<longleftrightarrow> (\<exists>n. bit w n \<and> bit m n)"
  by (auto simp: tst_def bit_eq_iff bit_simps dest: bit_imp_le_length)

lemma tst_push_bit: "tst w (push_bit n 1) \<longleftrightarrow> bit w n"
  by (auto simp: tst_bit_mask bit_simps dest: bit_imp_le_length)

lemma tst_or: "tst (a OR b) m \<longleftrightarrow> tst a m \<or> tst b m"
  by (auto simp: tst_def bit_eq_iff bit_simps)

lemma tst_bits_or: "tst (w OR v) m \<longleftrightarrow> tst w m" if "v AND m = 0" for w v m :: "'b::len word"
  using that by (simp add: tst_def bit.conj_disj_distrib2)

lemma tst_bits_and: "tst (w AND NOT v) m \<longleftrightarrow> tst w m" if "v AND m = 0" for w v m :: "'b::len word"
proof -
  have "(w AND NOT v) AND m = w AND m"
    using that by (intro bit_word_eqI) (auto simp: bit_eq_iff bit_simps)
  then show ?thesis by (simp add: tst_def)
qed

lemma unat_add_no_wrap:
  fixes a b :: u32
  assumes "unat a + unat b < 2 ^ 32"
  shows "unat (a + b) = unat a + unat b"
  using assms by (simp add: unat_word_ariths)

lemma unat_sub_le:
  fixes a b :: u32
  assumes "b \<le> a"
  shows "unat (a - b) = unat a - unat b"
  using assms by (simp add: unat_sub)

subsection \<open>Pointer chains\<close>

text \<open>
  \<open>chain nx p xs\<close>: starting at the pointer \<open>p\<close> and following the link field \<open>nx\<close>, the
  nodes met are exactly \<open>xs\<close>, and the last link is NULL.
\<close>

fun chain :: "(nat \<Rightarrow> nat option) \<Rightarrow> nat option \<Rightarrow> nat list \<Rightarrow> bool" where
  "chain nx p [] \<longleftrightarrow> p = None"
| "chain nx p (a # as) \<longleftrightarrow> p = Some a \<and> chain nx (nx a) as"

lemma chain_None [simp]: "chain nx None xs \<longleftrightarrow> xs = []"
  by (cases xs) simp_all

lemma chain_Some: "chain nx (Some a) xs \<longleftrightarrow> (\<exists>ys. xs = a # ys \<and> chain nx (nx a) ys)"
  by (cases xs) auto

lemma chain_unique: "chain nx p xs \<Longrightarrow> chain nx p ys \<Longrightarrow> xs = ys"
  by (induction xs arbitrary: p ys) (auto simp: chain_Some)

lemma chain_suffix: "chain nx p (xs @ a # ys) \<Longrightarrow> chain nx (Some a) (a # ys)"
  by (induction xs arbitrary: p) auto

lemma chain_distinct: "chain nx p xs \<Longrightarrow> distinct xs"
proof (induction xs arbitrary: p)
  case (Cons a xs)
  have "a \<notin> set xs"
  proof
    assume "a \<in> set xs"
    then obtain ys zs where xs: "xs = ys @ a # zs" by (meson split_list)
    with Cons.prems have "chain nx (Some a) (a # zs)" "chain nx (Some a) (a # xs)"
      by (auto dest: chain_suffix)
    then have "a # zs = a # xs" by (rule chain_unique)
    with xs show False by simp
  qed
  with Cons show ?case by auto
qed simp

lemma chain_cong: "(\<And>a. a \<in> set xs \<Longrightarrow> nx a = nx' a) \<Longrightarrow> chain nx p xs = chain nx' p xs"
  by (induction xs arbitrary: p) auto

lemma chain_upd [simp]: "a \<notin> set xs \<Longrightarrow> chain (nx(a := v)) p xs = chain nx p xs"
  by (rule chain_cong) auto

lemma chain_push: "chain nx p xs \<Longrightarrow> a \<notin> set xs \<Longrightarrow> chain (nx(a := p)) (Some a) (a # xs)"
  by simp

text \<open>Unlinking the node after \<open>b\<close>, and the node at the front.\<close>

lemma chain_unlink:
  assumes "chain nx p (xs @ b # a # ys)"
  shows "chain (nx(b := nx a)) p (xs @ b # ys)"
proof -
  have d: "distinct (xs @ b # a # ys)" using assms by (rule chain_distinct)
  show ?thesis using assms d by (induction xs arbitrary: p) auto
qed

lemma chain_unlink_first: "chain nx p (a # ys) \<Longrightarrow> chain nx (nx a) ys"
  by simp

lemma chain_link_last:
  assumes "chain nx p (xs @ [b])" and "chain nx q ys" and "set xs \<inter> set ys = {}" and "b \<notin> set ys"
  shows "chain (nx(b := q)) p (xs @ b # ys)"
proof -
  have "distinct (xs @ [b])" using assms(1) by (rule chain_distinct)
  then show ?thesis using assms by (induction xs arbitrary: p) auto
qed

lemma chain_length:
  assumes "chain nx p xs" and "\<forall>a \<in> set xs. a < n"
  shows "length xs \<le> n"
proof -
  have "length xs = card (set xs)" using chain_distinct [OF assms(1)] by (simp add: distinct_card)
  also have "\<dots> \<le> card {..<n}" using assms(2) by (intro card_mono) auto
  finally show ?thesis by simp
qed

text \<open>
  A place that holds a pointer: the head of a list (\<open>None\<close>) or the link field of a node
  (\<open>Some i\<close>), as the \<open>struct proc **\<close> variables of the kernel point to.
\<close>

definition deref :: "nat option \<Rightarrow> (nat \<Rightarrow> nat option) \<Rightarrow> nat option \<Rightarrow> nat option" where
  "deref h nx q = (case q of None \<Rightarrow> h | Some i \<Rightarrow> nx i)"

lemma deref_simps [simp]: "deref h nx None = h" "deref h nx (Some i) = nx i"
  by (simp_all add: deref_def)

definition last_opt :: "nat list \<Rightarrow> nat option" where
  "last_opt xs = (if xs = [] then None else Some (last xs))"

lemma last_opt_simps [simp]: "last_opt [] = None" "last_opt (xs @ [x]) = Some x"
  by (simp_all add: last_opt_def)

lemma chain_deref: "chain nx p (xs @ ys) \<Longrightarrow> chain nx (deref p nx (last_opt xs)) ys"
  by (cases xs rule: rev_cases) (auto dest: chain_suffix)

lemma chain_deref_hd: "chain nx p (xs @ a # ys) \<Longrightarrow> deref p nx (last_opt xs) = Some a"
  using chain_deref [of nx p xs "a # ys"] by simp

text \<open>Storing through such a place: the new head and the new link field.\<close>

definition set_head :: "nat option \<Rightarrow> nat option \<Rightarrow> nat option \<Rightarrow> nat option" where
  "set_head q v h = (case q of None \<Rightarrow> v | Some i \<Rightarrow> h)"

definition set_nx :: "nat option \<Rightarrow> nat option \<Rightarrow> (nat \<Rightarrow> nat option) \<Rightarrow> nat \<Rightarrow> nat option" where
  "set_nx q v nx = (case q of None \<Rightarrow> nx | Some i \<Rightarrow> nx(i := v))"

lemma set_place_simps [simp]:
  "set_head None v h = v" "set_head (Some i) v h = h" "set_nx None v nx = nx" "set_nx (Some i) v nx = nx(i := v)"
  by (simp_all add: set_head_def set_nx_def)

lemma chain_insert_after:
  assumes "chain nx h (xs @ ys)" and "a \<notin> set (xs @ ys)"
  shows "chain ((set_nx (last_opt xs) (Some a) nx)(a := deref h nx (last_opt xs)))
           (set_head (last_opt xs) (Some a) h) (xs @ a # ys)"
proof (cases xs rule: rev_cases)
  case Nil
  with assms show ?thesis by simp
next
  case (snoc zs b)
  have d: "distinct (zs @ b # ys)" using chain_distinct [OF assms(1)] snoc by simp
  have c: "chain nx h (zs @ b # ys)" using assms(1) snoc by simp
  have "chain (nx(b := Some a, a := nx b)) h (zs @ b # a # ys)"
    using c d assms(2) unfolding snoc by (induction zs arbitrary: h) auto
  with snoc show ?thesis by simp
qed

lemma chain_remove_after:
  assumes "chain nx h (xs @ a # ys)"
  shows "chain (set_nx (last_opt xs) (nx a) nx) (set_head (last_opt xs) (nx a) h) (xs @ ys)"
proof (cases xs rule: rev_cases)
  case Nil
  with assms show ?thesis by simp
next
  case (snoc zs b)
  with assms chain_unlink [of nx h zs b a ys] show ?thesis by simp
qed

text \<open>The nodes of a chain with at most \<open>n\<close> nodes, computed.\<close>

fun nodes :: "nat \<Rightarrow> (nat \<Rightarrow> nat option) \<Rightarrow> nat option \<Rightarrow> nat list" where
  "nodes 0 nx p = []"
| "nodes (Suc n) nx p = (case p of None \<Rightarrow> [] | Some a \<Rightarrow> a # nodes n nx (nx a))"

lemma nodes_chain: "chain nx p xs \<Longrightarrow> length xs \<le> n \<Longrightarrow> nodes n nx p = xs"
proof (induction xs arbitrary: n p)
  case Nil
  then show ?case by (cases n) simp_all
next
  case (Cons a xs)
  then show ?case by (cases n) simp_all
qed

text \<open>
  The loop \<open>for (p = head; p != NULL; p = p->next) body\<close> over a table of at most \<open>n - 1\<close>
  nodes, and the fold over the list of nodes that it amounts to.
\<close>

fun walk :: "nat \<Rightarrow> ('s \<Rightarrow> nat \<Rightarrow> nat option) \<Rightarrow> (nat \<Rightarrow> 's \<Rightarrow> 's res) \<Rightarrow> nat option \<Rightarrow> 's \<Rightarrow> 's res" where
  "walk 0 nx f p s = Inl Loop"
| "walk (Suc n) nx f p s =
     (case p of None \<Rightarrow> Inr s | Some i \<Rightarrow> rbind (f i s) (\<lambda>s'. walk n nx f (nx s' i) s'))"

fun rfold :: "(nat \<Rightarrow> 's \<Rightarrow> 's res) \<Rightarrow> nat list \<Rightarrow> 's \<Rightarrow> 's res" where
  "rfold f [] s = Inr s"
| "rfold f (i # is) s = rbind (f i s) (rfold f is)"

lemma walk_rfold:
  assumes "chain (nx s) p xs" and "length xs < n"
    and "\<And>i s s'. f i s = Inr s' \<Longrightarrow> nx s' = nx s"
  shows "walk n nx f p s = rfold f xs s"
  using assms(1,2)
proof (induction xs arbitrary: p s n)
  case Nil
  then show ?case by (cases n) simp_all
next
  case (Cons i xs)
  then obtain m where n: "n = Suc m" by (cases n) auto
  have p: "p = Some i" and c: "chain (nx s) (nx s i) xs" using Cons.prems by simp_all
  show ?case
  proof (cases "f i s")
    case (Inr s')
    have "nx s' = nx s" using assms(3) [OF Inr] .
    with Cons.IH [of s' "nx s i" m] Cons.prems n c p Inr show ?thesis by simp
  qed (simp add: n p)
qed

lemma rfold_total: "(\<And>i s. i \<in> set xs \<Longrightarrow> f i s = Inr (g i s)) \<Longrightarrow> rfold f xs s = Inr (fold g xs s)"
  by (induction xs arbitrary: s) simp_all

lemma rfold_inv:
  assumes "rfold f xs s = Inr s'" and "P s"
    and "\<And>i s s'. i \<in> set xs \<Longrightarrow> P s \<Longrightarrow> f i s = Inr s' \<Longrightarrow> P s'"
  shows "P s'"
  using assms by (induction xs arbitrary: s) (auto simp: rbind_eq_Inr)

text \<open>A loop whose body returns and keeps the links and a property returns and keeps the property.\<close>

lemma walk_inv:
  assumes "chain (nx s) p xs" and "length xs < n" and "P s"
    and "\<And>i s. i \<in> set xs \<Longrightarrow> P s \<Longrightarrow> \<exists>s'. f i s = Inr s' \<and> nx s' = nx s \<and> P s'"
  shows "\<exists>s'. walk n nx f p s = Inr s' \<and> P s'"
  using assms
proof (induction xs arbitrary: p s n)
  case Nil
  then show ?case by (cases n) simp_all
next
  case (Cons i xs)
  then obtain m where n: "n = Suc m" by (cases n) auto
  obtain s' where s': "f i s = Inr s'" "nx s' = nx s" "P s'" using Cons.prems(3,4) by auto
  have p: "p = Some i" and c: "chain (nx s') (nx s' i) xs" using Cons.prems(1) s'(2) by simp_all
  have "\<exists>s''. walk m nx f (nx s' i) s' = Inr s'' \<and> P s''"
    using Cons.prems(2,4) n by (intro Cons.IH [OF c _ s'(3)]) auto
  then show ?case by (simp add: n p s'(1))
qed

subsection \<open>Sequences of operations\<close>

text \<open>
  A sequence of operations, each with a result, and a specification that says which results
  an abstract state allows and what it becomes.
\<close>

fun runs :: "('o \<Rightarrow> 's \<Rightarrow> ('r \<times> 's) res) \<Rightarrow> 'o list \<Rightarrow> 's \<Rightarrow> ('r list \<times> 's) res" where
  "runs f [] s = Inr ([], s)"
| "runs f (x # xs) s = rbind (f x s) (\<lambda>(r, s). rbind (runs f xs s) (\<lambda>(rs, s). Inr (r # rs, s)))"

fun follows :: "('o \<Rightarrow> 'r \<Rightarrow> 'a \<Rightarrow> 'a option) \<Rightarrow> 'o list \<Rightarrow> 'r list \<Rightarrow> 'a \<Rightarrow> 'a option" where
  "follows P [] [] a = Some a"
| "follows P (x # xs) (r # rs) a = Option.bind (P x r a) (follows P xs rs)"
| "follows P _ _ a = None"

locale simulation =
  fixes step :: "'o \<Rightarrow> 's \<Rightarrow> ('r \<times> 's) res"
    and spec :: "'o \<Rightarrow> 'r \<Rightarrow> 'a \<Rightarrow> 'a option"
    and ok :: "'o \<Rightarrow> bool"
    and rel :: "'s \<Rightarrow> 'a \<Rightarrow> bool"
  assumes sim: "rel s a \<Longrightarrow> ok x \<Longrightarrow> \<exists>r s' a'. step x s = Inr (r, s') \<and> spec x r a = Some a' \<and> rel s' a'"
begin

lemma run:
  assumes "rel s a" and "list_all ok xs"
  shows "\<exists>rs s' a'. runs step xs s = Inr (rs, s') \<and> follows spec xs rs a = Some a' \<and> rel s' a'"
  using assms
proof (induction xs arbitrary: s a)
  case (Cons x xs)
  then obtain r s1 a1 where 1: "step x s = Inr (r, s1)" "spec x r a = Some a1" "rel s1 a1" using sim by fastforce
  from Cons.IH [OF 1(3)] Cons.prems(2) obtain rs s' a' where
    "runs step xs s1 = Inr (rs, s')" "follows spec xs rs a1 = Some a'" "rel s' a'" by auto
  then show ?case using 1 by (intro exI [of _ "r # rs"] exI [of _ s'] exI [of _ a']) simp
qed simp

end

end
