(* ===== verification/Rmap.thy ===== *)
theory Rmap
  imports Prelude
begin

text \<open>
  Resource maps (\<open>sys/kernel/subr_rmap.c\<close>, \<open>sys/include/map.h\<close>): the first-fit
  allocator of swap space. A map is an array of segments sorted by address and ended by a
  segment of size 0. The definitions follow the C code slot by slot, with array indices
  for the pointers into \<open>m_map\<close>; an index outside the array is a \<open>Fault\<close>. The lemmas
  relate each operation to the list of live segments and to the set of free units.
\<close>

subsection \<open>Data\<close>

record mapent =
  m_size :: u32
  m_addr :: u32

text \<open>\<open>m_limit\<close> is the index that the C pointer \<open>m_limit\<close> has in \<open>m_map\<close>.\<close>

record rmap =
  m_map :: "mapent list"
  m_limit :: nat
  m_name :: string

subsection \<open>malloc\<close>

text \<open>The search loop of \<open>malloc\<close>: the index of the first segment that fits.\<close>

function malloc_find :: "mapent list \<Rightarrow> u32 \<Rightarrow> nat \<Rightarrow> nat option res" where
  "malloc_find a sz bp =
     (if \<not> bp < length a then Inl Fault
      else if m_size (a ! bp) = 0 then Inr None
      else if sz \<le> m_size (a ! bp) then Inr (Some bp)
      else malloc_find a sz (Suc bp))"
  by pat_completeness auto
termination
  by (relation "measure (\<lambda>(a, sz, bp). length a - bp)") auto

text \<open>The loop \<open>for (ep = bp;; ++ep) { *ep = *++bp; if (!bp->m_size) break; }\<close>.\<close>

function malloc_shift :: "mapent list \<Rightarrow> nat \<Rightarrow> nat \<Rightarrow> mapent list res" where
  "malloc_shift a ep bp =
     (if \<not> Suc bp < length a then Inl Fault
      else let a' = a[ep := a ! Suc bp]
           in if m_size (a' ! Suc bp) = 0 then Inr a' else malloc_shift a' (Suc ep) (Suc bp))"
  by pat_completeness auto
termination
  by (relation "measure (\<lambda>(a, ep, bp). length a - bp)") auto

definition malloc :: "rmap \<Rightarrow> u32 \<Rightarrow> (u32 \<times> rmap) res" where
  "malloc mp sz =
     (if sz = 0 then Inl (Panic ''malloc: size = 0'')
      else rbind (malloc_find (m_map mp) sz 0) (\<lambda>found.
        case found of
          None \<Rightarrow> Inr (0, mp)
        | Some bp \<Rightarrow>
            let e = m_map mp ! bp;
                addr = m_addr e;
                left = m_size e - sz
            in if left \<noteq> 0
               then Inr (addr, mp\<lparr>m_map := (m_map mp)[bp := \<lparr>m_size = left, m_addr = m_addr e + sz\<rparr>]\<rparr>)
               else rbind (malloc_shift ((m_map mp)[bp := e\<lparr>m_size := left\<rparr>]) bp bp) (\<lambda>a.
                      Inr (addr, mp\<lparr>m_map := a\<rparr>))))"

subsection \<open>mfree\<close>

text \<open>\<open>while (bp->m_size && bp->m_addr <= addr) ++bp;\<close>\<close>

function mfree_skip :: "mapent list \<Rightarrow> u32 \<Rightarrow> nat \<Rightarrow> nat res" where
  "mfree_skip a addr bp =
     (if \<not> bp < length a then Inl Fault
      else if m_size (a ! bp) \<noteq> 0 \<and> m_addr (a ! bp) \<le> addr then mfree_skip a addr (Suc bp)
      else Inr bp)"
  by pat_completeness auto
termination
  by (relation "measure (\<lambda>(a, addr, bp). length a - bp)") auto

text \<open>\<open>do { *++ep = *++bp; } while (bp->m_size);\<close>\<close>

function mfree_close :: "mapent list \<Rightarrow> nat \<Rightarrow> nat \<Rightarrow> mapent list res" where
  "mfree_close a ep bp =
     (if \<not> Suc bp < length a then Inl Fault
      else let a' = a[Suc ep := a ! Suc bp]
           in if m_size (a' ! Suc bp) \<noteq> 0 then mfree_close a' (Suc ep) (Suc bp) else Inr a')"
  by pat_completeness auto
termination
  by (relation "measure (\<lambda>(a, ep, bp). length a - bp)") auto

text \<open>\<open>for (start = bp; bp->m_size; ++bp);\<close>: the index of the terminator.\<close>

function mfree_end :: "mapent list \<Rightarrow> nat \<Rightarrow> nat res" where
  "mfree_end a bp =
     (if \<not> bp < length a then Inl Fault
      else if m_size (a ! bp) \<noteq> 0 then mfree_end a (Suc bp) else Inr bp)"
  by pat_completeness auto
termination
  by (relation "measure (\<lambda>(a, bp). length a - bp)") auto

text \<open>
  \<open>for (ep = bp - 1; ep >= start; *bp-- = *ep--);\<close> with \<open>k = ep + 1 - start\<close> moves
  left to do; the first move writes the slot \<open>start + k\<close>.
\<close>

fun mfree_open :: "mapent list \<Rightarrow> nat \<Rightarrow> nat \<Rightarrow> mapent list res" where
  "mfree_open a start 0 = Inr a"
| "mfree_open a start (Suc k) =
     (if \<not> start + Suc k < length a then Inl Fault
      else mfree_open (a[start + Suc k := a ! (start + k)]) start k)"

definition mfree :: "rmap \<Rightarrow> u32 \<Rightarrow> u32 \<Rightarrow> rmap res" where
  "mfree mp sz addr =
     (if sz = 0 then Inr mp
      else if addr = 0 then Inl (Panic ''mfree: addr = 0'')
      else rbind (mfree_skip (m_map mp) addr 0) (\<lambda>bp.
        let a = m_map mp; ep = bp - 1; e = a ! ep; b = a ! bp
        in if bp \<noteq> 0 \<and> m_addr e + m_size e \<ge> addr
           then let a1 = a[ep := e\<lparr>m_size := m_size e + sz\<rparr>]
                in if m_size b \<noteq> 0 \<and> addr + sz \<ge> m_addr b
                   then rbind (mfree_close (a1[ep := (a1 ! ep)\<lparr>m_size := m_size (a1 ! ep) + m_size b\<rparr>])
                                 ep bp) (\<lambda>a2. Inr (mp\<lparr>m_map := a2\<rparr>))
                   else Inr (mp\<lparr>m_map := a1\<rparr>)
           else if m_size b \<noteq> 0 \<and> addr + sz \<ge> m_addr b
           then Inr (mp\<lparr>m_map := a[bp := \<lparr>m_size = m_size b + sz, m_addr = addr\<rparr>]\<rparr>)
           else rbind (mfree_end a bp) (\<lambda>n.
             if Suc n > m_limit mp then Inr mp
             else rbind (mfree_open a bp (Suc n - bp)) (\<lambda>a1.
               Inr (mp\<lparr>m_map := a1[bp := \<lparr>m_size = sz, m_addr = addr\<rparr>]\<rparr>)))))"

subsection \<open>The loops on the list of live segments\<close>

declare malloc_find.simps [simp del] malloc_shift.simps [simp del] mfree_skip.simps [simp del]
declare mfree_close.simps [simp del] mfree_end.simps [simp del]

abbreviation nonempty :: "mapent list \<Rightarrow> bool" where
  "nonempty es \<equiv> \<forall>e \<in> set es. m_size e \<noteq> 0"

lemma nth_prefix: "(ps @ x # xs) ! length ps = x"
  by simp

lemma nth_prefix_Suc: "(ps @ x # y # xs) ! Suc (length ps) = y"
  by (simp add: nth_append)

lemma malloc_find_live:
  assumes "nonempty es" and "m_size z = 0"
  shows "malloc_find (ps @ es @ z # gs) sz (length ps) =
           Inr (if \<exists>e \<in> set es. sz \<le> m_size e
                then Some (length ps + length (takeWhile (\<lambda>e. \<not> sz \<le> m_size e) es)) else None)"
  using assms(1)
proof (induction es arbitrary: ps)
  case Nil
  then show ?case using assms(2) by (simp add: malloc_find.simps)
next
  case (Cons e es)
  from Cons.IH [of "ps @ [e]"] Cons.prems show ?case
    by (subst malloc_find.simps) auto
qed

lemma malloc_shift_live:
  assumes "nonempty es" and "m_size z = 0"
  shows "malloc_shift (ps @ x # es @ z # gs) (length ps) (length ps) = Inr (ps @ es @ z # z # gs)"
  using assms(1)
proof (induction es arbitrary: ps x)
  case Nil
  then show ?case using assms(2)
    by (subst malloc_shift.simps) (simp add: nth_append)
next
  case (Cons e es)
  from Cons.IH [of "ps @ [e]" e] Cons.prems show ?case
    by (subst malloc_shift.simps) (simp add: nth_append)
qed

lemma mfree_close_shift: "mfree_close a ep bp = malloc_shift a (Suc ep) bp"
proof (induction a ep bp rule: mfree_close.induct)
  case (1 a ep bp)
  then show ?case
    by (subst mfree_close.simps, subst malloc_shift.simps) (simp add: Let_def)
qed

lemma mfree_skip_live:
  assumes "nonempty es" and "m_size z = 0"
  shows "mfree_skip (ps @ es @ z # gs) addr (length ps) =
           Inr (length ps + length (takeWhile (\<lambda>e. m_addr e \<le> addr) es))"
  using assms(1)
proof (induction es arbitrary: ps)
  case Nil
  then show ?case using assms(2) by (simp add: mfree_skip.simps)
next
  case (Cons e es)
  from Cons.IH [of "ps @ [e]"] Cons.prems show ?case
    by (subst mfree_skip.simps) auto
qed

lemma mfree_end_live:
  assumes "nonempty es" and "m_size z = 0"
  shows "mfree_end (ps @ es @ z # gs) (length ps) = Inr (length ps + length es)"
  using assms(1)
proof (induction es arbitrary: ps)
  case Nil
  then show ?case using assms(2) by (simp add: mfree_end.simps)
next
  case (Cons e es)
  from Cons.IH [of "ps @ [e]"] Cons.prems show ?case
    by (subst mfree_end.simps) auto
qed

lemma mfree_open_live:
  "mfree_open (ps @ xs @ g # gs) (length ps) (length xs) = Inr (ps @ hd (xs @ [g]) # xs @ gs)"
proof (induction xs arbitrary: g gs rule: rev_induct)
  case Nil
  then show ?case by simp
next
  case (snoc y ys)
  have "mfree_open (ps @ (ys @ [y]) @ g # gs) (length ps) (length (ys @ [y])) =
        mfree_open (ps @ ys @ y # y # gs) (length ps) (length ys)"
    by (simp add: nth_append list_update_append)
  with snoc.IH [of y "y # gs"] show ?case by (cases ys) simp_all
qed

lemma mfree_open_full: "mfree_open (ps @ xs) (length ps) (length xs) = Inl Fault" if "xs \<noteq> []"
  using that by (cases "length xs") simp_all

subsection \<open>Reference operations on the list of live segments\<close>

text \<open>First fit, and release with coalescing, on the list of segments alone.\<close>

fun alloc_first :: "u32 \<Rightarrow> mapent list \<Rightarrow> (u32 \<times> mapent list) option" where
  "alloc_first sz [] = None"
| "alloc_first sz (e # es) =
     (if sz \<le> m_size e
      then Some (m_addr e, if m_size e = sz then es
                           else \<lparr>m_size = m_size e - sz, m_addr = m_addr e + sz\<rparr> # es)
      else map_option (\<lambda>(addr, es'). (addr, e # es')) (alloc_first sz es))"

definition join :: "u32 \<Rightarrow> u32 \<Rightarrow> mapent list \<Rightarrow> mapent list \<Rightarrow> mapent list" where
  "join sz addr P S =
     (let l = last P; r = hd S;
          abutl = (P \<noteq> [] \<and> m_addr l + m_size l \<ge> addr);
          abutr = (S \<noteq> [] \<and> addr + sz \<ge> m_addr r)
      in if abutl \<and> abutr then butlast P @ l\<lparr>m_size := m_size l + sz + m_size r\<rparr> # tl S
         else if abutl then butlast P @ l\<lparr>m_size := m_size l + sz\<rparr> # S
         else if abutr then P @ \<lparr>m_size = m_size r + sz, m_addr = addr\<rparr> # tl S
         else P @ \<lparr>m_size = sz, m_addr = addr\<rparr> # S)"

definition release :: "u32 \<Rightarrow> u32 \<Rightarrow> mapent list \<Rightarrow> mapent list" where
  "release sz addr es =
     join sz addr (takeWhile (\<lambda>e. m_addr e \<le> addr) es) (dropWhile (\<lambda>e. m_addr e \<le> addr) es)"

text \<open>The shape of a map: live segments, the terminator, unused slots.\<close>

definition mshape :: "rmap \<Rightarrow> mapent list \<Rightarrow> mapent list \<Rightarrow> bool" where
  "mshape mp es gs \<longleftrightarrow> nonempty es \<and> m_map mp = es @ \<lparr>m_size = 0, m_addr = 0\<rparr> # gs"

lemma alloc_first_split:
  "alloc_first sz es =
     (if \<exists>e \<in> set es. sz \<le> m_size e
      then let P = takeWhile (\<lambda>e. \<not> sz \<le> m_size e) es; S = dropWhile (\<lambda>e. \<not> sz \<le> m_size e) es; e = hd S
           in Some (m_addr e, P @ (if m_size e = sz then tl S
                      else \<lparr>m_size = m_size e - sz, m_addr = m_addr e + sz\<rparr> # tl S))
      else None)"
  by (induction es) (auto simp: Let_def)

lemma find_first_split:
  assumes "\<exists>e \<in> set es. sz \<le> m_size e"
  obtains P e S where "es = P @ e # S" "sz \<le> m_size e"
    "takeWhile (\<lambda>e. \<not> sz \<le> m_size e) es = P" "dropWhile (\<lambda>e. \<not> sz \<le> m_size e) es = e # S"
proof -
  let ?q = "\<lambda>e. \<not> sz \<le> m_size e"
  from assms have "dropWhile ?q es \<noteq> []" by (auto simp: dropWhile_eq_Nil_conv)
  then obtain e S where eS: "dropWhile ?q es = e # S" by (cases "dropWhile ?q es") auto
  moreover from eS have "sz \<le> m_size e" using hd_dropWhile [of ?q es] by simp
  ultimately show thesis using takeWhile_dropWhile_id [of ?q es] by (intro that) auto
qed

lemma malloc_refines:
  assumes "mshape mp es gs" and "sz \<noteq> 0"
  shows "\<exists>gs'. malloc mp sz =
           Inr (case alloc_first sz es of None \<Rightarrow> (0, mp)
                | Some (addr, es') \<Rightarrow> (addr, mp\<lparr>m_map := es' @ \<lparr>m_size = 0, m_addr = 0\<rparr> # gs'\<rparr>))
         \<and> (\<forall>addr es'. alloc_first sz es = Some (addr, es') \<longrightarrow>
               nonempty es' \<and> length es' + length gs' = length es + length gs)"
proof (cases "\<exists>e \<in> set es. sz \<le> m_size e")
  case False
  with assms malloc_find_live [of es "\<lparr>m_size = 0, m_addr = 0\<rparr>" "[]" gs sz] show ?thesis
    by (auto simp: malloc_def alloc_first_split mshape_def)
next
  case True
  let ?z = "\<lparr>m_size = 0, m_addr = 0\<rparr>"
  from True obtain P e S where es: "es = P @ e # S" "sz \<le> m_size e"
    and PS: "takeWhile (\<lambda>e. \<not> sz \<le> m_size e) es = P" "dropWhile (\<lambda>e. \<not> sz \<le> m_size e) es = e # S"
    by (rule find_first_split)
  from assms have ne: "nonempty es" and mm: "m_map mp = es @ ?z # gs" by (simp_all add: mshape_def)
  have fnd: "malloc_find (m_map mp) sz 0 = Inr (Some (length P))"
    using malloc_find_live [OF ne, of ?z "[]" gs sz] True by (simp add: mm PS)
  have af: "alloc_first sz es = Some (m_addr e, P @ (if m_size e = sz then S
              else \<lparr>m_size = m_size e - sz, m_addr = m_addr e + sz\<rparr> # S))"
    using True PS by (simp add: alloc_first_split Let_def)
  have nth: "m_map mp ! length P = e" by (simp add: mm es nth_append)
  show ?thesis
  proof (cases "m_size e = sz")
    case True
    have "malloc_shift (P @ e\<lparr>m_size := 0\<rparr> # S @ ?z # gs) (length P) (length P) =
            Inr (P @ S @ ?z # ?z # gs)"
      using ne by (intro malloc_shift_live) (auto simp: es)
    with True fnd af nth assms(2) ne show ?thesis
      by (intro exI [of _ "?z # gs"]) (auto simp: malloc_def mm es list_update_append Let_def)
  next
    case False
    then have "m_size e - sz \<noteq> 0" by simp
    with False fnd af nth assms(2) ne show ?thesis
      by (intro exI [of _ gs]) (auto simp: malloc_def mm es list_update_append Let_def)
  qed
qed

text \<open>
  \<open>mfree\<close> in terms of \<open>release\<close>: when no new slot is needed, or a slot is left, the
  live segments become \<open>release sz addr es\<close>; above the limit nothing changes; and a limit
  beyond the array lets the terminator be written out of bounds.
\<close>

lemma mfree_join:
  fixes P S gs :: "mapent list"
  assumes skip: "mfree_skip (m_map mp) addr 0 = Inr (length P)"
    and mm: "m_map mp = P @ S @ \<lparr>m_size = 0, m_addr = 0\<rparr> # gs"
    and ne: "nonempty S" and nz: "sz \<noteq> 0" "addr \<noteq> 0"
  shows "mfree mp sz addr =
    (if length (join sz addr P S) \<le> length P + length S
     then Inr (mp\<lparr>m_map := join sz addr P S @ \<lparr>m_size = 0, m_addr = 0\<rparr> #
              replicate (length P + length S - length (join sz addr P S)) \<lparr>m_size = 0, m_addr = 0\<rparr> @ gs\<rparr>)
     else if m_limit mp \<le> length P + length S then Inr mp
     else if gs = [] then Inl Fault
     else Inr (mp\<lparr>m_map := join sz addr P S @ \<lparr>m_size = 0, m_addr = 0\<rparr> # tl gs\<rparr>))"
proof -
  let ?z = "\<lparr>m_size = 0, m_addr = 0\<rparr>"
  have bp: "m_map mp ! length P = hd (S @ [?z])" using mm by (cases S) simp_all
  have ep: "P \<noteq> [] \<Longrightarrow> m_map mp ! (length P - Suc 0) = last P"
    using mm by (cases P rule: rev_cases) (simp_all add: nth_append)
  have upd: "P \<noteq> [] \<Longrightarrow> (m_map mp)[length P - Suc 0 := x] = butlast P @ x # S @ ?z # gs" for x
    using mm by (cases P rule: rev_cases) (simp_all add: list_update_append)
  have updb: "S \<noteq> [] \<Longrightarrow> (m_map mp)[length P := x] = P @ x # tl S @ ?z # gs" for x
    using mm by (cases S) simp_all
  have at: "P \<noteq> [] \<Longrightarrow> (butlast P @ x # ys) ! (length P - Suc 0) = x"
    "P \<noteq> [] \<Longrightarrow> (butlast P @ x # ys)[length P - Suc 0 := y] = butlast P @ y # ys" for x y and ys :: "mapent list"
    by (cases P rule: rev_cases; simp)+
  have fin: "mfree_end (m_map mp) (length P) = Inr (length P + length S)"
    using ne mfree_end_live [of S ?z P gs] by (simp add: mm)
  have close: "mfree_close (butlast P @ x # S @ ?z # gs) (length P - Suc 0) (length P) =
      Inr (butlast P @ x # tl S @ ?z # ?z # gs)" if "P \<noteq> []" "S \<noteq> []" for x
    using that ne malloc_shift_live [of "tl S" ?z "butlast P @ [x]" "hd S" gs]
    by (cases S; cases P rule: rev_cases) (simp_all add: mfree_close_shift)
  have opn: "mfree_open (m_map mp) (length P) (Suc (length S)) =
      (if gs = [] then Inl Fault else Inr (P @ hd (S @ [?z]) # S @ ?z # tl gs))"
    using mfree_open_live [of P "S @ [?z]" "hd gs" "tl gs"] mfree_open_full [of "S @ [?z]" P]
    by (cases gs) (cases S, simp_all add: mm)+
  let ?l = "P \<noteq> [] \<and> m_addr (last P) + m_size (last P) \<ge> addr"
  let ?r = "S \<noteq> [] \<and> addr + sz \<ge> m_addr (hd S)"
  have r: "(m_size (hd (S @ [?z])) \<noteq> 0 \<and> addr + sz \<ge> m_addr (hd (S @ [?z]))) = ?r"
    using ne by (cases S) auto
  have main: "mfree mp sz addr =
     (if ?l then (if ?r then rbind (mfree_close (butlast P @ (last P)\<lparr>m_size := m_size (last P) + sz + m_size (hd S)\<rparr>
                       # S @ ?z # gs) (length P - Suc 0) (length P)) (\<lambda>a2. Inr (mp\<lparr>m_map := a2\<rparr>))
                  else Inr (mp\<lparr>m_map := butlast P @ (last P)\<lparr>m_size := m_size (last P) + sz\<rparr> # S @ ?z # gs\<rparr>))
      else if ?r then Inr (mp\<lparr>m_map := P @ \<lparr>m_size = m_size (hd S) + sz, m_addr = addr\<rparr> # tl S @ ?z # gs\<rparr>)
      else if m_limit mp \<le> length P + length S then Inr mp
      else rbind (mfree_open (m_map mp) (length P) (Suc (length S))) (\<lambda>a1.
             Inr (mp\<lparr>m_map := a1[length P := \<lparr>m_size = sz, m_addr = addr\<rparr>]\<rparr>)))"
    unfolding mfree_def skip rbind_Inr Let_def bp r fin
    by (cases ?l; cases ?r) (auto simp: nz ep upd updb at fin simp del: mfree_open.simps)
  then show ?thesis
    using close opn by (cases S; cases P rule: rev_cases) (auto simp: join_def Let_def list_update_append)
qed

lemma length_join: "length (join sz addr P S) \<le> Suc (length P + length S)"
  by (cases S) (auto simp: join_def Let_def)

lemma length_release: "length (release sz addr es) \<le> Suc (length es)"
proof -
  have "length (takeWhile (\<lambda>e. m_addr e \<le> addr) es) + length (dropWhile (\<lambda>e. m_addr e \<le> addr) es) = length es"
    by (metis length_append takeWhile_dropWhile_id)
  with length_join [of sz addr "takeWhile (\<lambda>e. m_addr e \<le> addr) es"
      "dropWhile (\<lambda>e. m_addr e \<le> addr) es"]
  show ?thesis by (simp add: release_def)
qed

lemma mfree_refines:
  assumes "mshape mp es gs" and "sz \<noteq> 0" and "addr \<noteq> 0"
  shows "mfree mp sz addr =
    (if length (release sz addr es) \<le> length es
     then Inr (mp\<lparr>m_map := release sz addr es @ \<lparr>m_size = 0, m_addr = 0\<rparr> #
              replicate (length es - length (release sz addr es)) \<lparr>m_size = 0, m_addr = 0\<rparr> @ gs\<rparr>)
     else if m_limit mp \<le> length es then Inr mp
     else if gs = [] then Inl Fault
     else Inr (mp\<lparr>m_map := release sz addr es @ \<lparr>m_size = 0, m_addr = 0\<rparr> # tl gs\<rparr>))"
proof -
  let ?P = "takeWhile (\<lambda>e. m_addr e \<le> addr) es" and ?S = "dropWhile (\<lambda>e. m_addr e \<le> addr) es"
  have ne: "nonempty es" and mm: "m_map mp = es @ \<lparr>m_size = 0, m_addr = 0\<rparr> # gs"
    using assms(1) by (simp_all add: mshape_def)
  have skip: "mfree_skip (m_map mp) addr 0 = Inr (length ?P)"
    using mfree_skip_live [OF ne, of "\<lparr>m_size = 0, m_addr = 0\<rparr>" "[]" gs addr] by (simp add: mm)
  have "nonempty ?S" using ne by (auto dest: set_dropWhileD)
  moreover have "length ?P + length ?S = length es"
    by (metis length_append takeWhile_dropWhile_id)
  ultimately show ?thesis
    using mfree_join [OF skip _ _ assms(2,3), of ?S gs] by (simp add: mm release_def)
qed

subsection \<open>Free units, and the well-formedness of a map\<close>

abbreviation lo :: "mapent \<Rightarrow> nat" where "lo e \<equiv> unat (m_addr e)"
abbreviation hi :: "mapent \<Rightarrow> nat" where "hi e \<equiv> unat (m_addr e) + unat (m_size e)"

text \<open>The units of the resource that a list of segments describes.\<close>

definition units :: "mapent list \<Rightarrow> nat set" where
  "units es = (\<Union>e \<in> set es. {lo e..<hi e})"

text \<open>
  Segments have an address and a size that are not 0, stay below \<open>2 ^ 32\<close>, and are in
  address order with at least one unit that is not free between two neighbours.
\<close>

definition segs_ok :: "mapent list \<Rightarrow> bool" where
  "segs_ok es \<longleftrightarrow> (\<forall>e \<in> set es. m_size e \<noteq> 0 \<and> m_addr e \<noteq> 0 \<and> hi e < 2 ^ 32)
     \<and> sorted_wrt (\<lambda>e f. hi e < lo f) es"

definition live :: "rmap \<Rightarrow> mapent list" where
  "live mp = takeWhile (\<lambda>e. m_size e \<noteq> 0) (m_map mp)"

definition rmap_ok :: "rmap \<Rightarrow> bool" where
  "rmap_ok mp \<longleftrightarrow> length (live mp) < length (m_map mp)
     \<and> m_map mp ! length (live mp) = \<lparr>m_size = 0, m_addr = 0\<rparr> \<and> segs_ok (live mp)"

definition avail :: "rmap \<Rightarrow> nat set" where
  "avail mp = units (live mp)"

abbreviation extent :: "u32 \<Rightarrow> u32 \<Rightarrow> nat set" where
  "extent addr sz \<equiv> {unat addr..<unat addr + unat sz}"

lemma mshape_live: "mshape mp es gs \<Longrightarrow> live mp = es"
  by (simp add: mshape_def live_def takeWhile_append)

lemma rmap_ok_mshape: "mshape mp es gs \<Longrightarrow> segs_ok es \<Longrightarrow> rmap_ok mp"
  by (simp add: rmap_ok_def mshape_live) (simp add: mshape_def)

lemma rmap_ok_shape:
  assumes "rmap_ok mp"
  shows "mshape mp (live mp) (drop (Suc (length (live mp))) (m_map mp))"
proof -
  have "m_map mp = take (length (live mp)) (m_map mp) @ m_map mp ! length (live mp)
          # drop (Suc (length (live mp))) (m_map mp)"
    using assms by (intro id_take_nth_drop) (simp add: rmap_ok_def)
  moreover have "take (length (live mp)) (m_map mp) = live mp"
    unfolding live_def by (rule takeWhile_eq_take [symmetric])
  moreover have "nonempty (live mp)" by (auto simp: live_def dest: set_takeWhileD)
  ultimately show ?thesis using assms by (simp add: mshape_def rmap_ok_def)
qed

lemma units_simps [simp]:
  "units [] = {}" "units (e # es) = {lo e..<hi e} \<union> units es" "units (es @ fs) = units es \<union> units fs"
  by (auto simp: units_def)

lemma segs_ok_Nil [simp]: "segs_ok []"
  by (simp add: segs_ok_def)

lemma segs_ok_Cons:
  "segs_ok (e # es) \<longleftrightarrow>
     m_size e \<noteq> 0 \<and> m_addr e \<noteq> 0 \<and> hi e < 2 ^ 32 \<and> (\<forall>f \<in> set es. hi e < lo f) \<and> segs_ok es"
  by (auto simp: segs_ok_def)

lemma segs_ok_append:
  "segs_ok (es @ fs) \<longleftrightarrow> segs_ok es \<and> segs_ok fs \<and> (\<forall>e \<in> set es. \<forall>f \<in> set fs. hi e < lo f)"
  by (auto simp: segs_ok_def sorted_wrt_append)

lemma unit_pos: "m_size e \<noteq> 0 \<Longrightarrow> 0 < unat (m_size e)"
  by (simp add: unat_gt_0)

lemma alloc_first_SomeE:
  assumes "alloc_first sz es = Some (addr, es')"
  obtains P e S where "es = P @ e # S" "sz \<le> m_size e" "addr = m_addr e"
    "es' = P @ (if m_size e = sz then S else \<lparr>m_size = m_size e - sz, m_addr = m_addr e + sz\<rparr> # S)"
  using assms
proof (induction es arbitrary: es' thesis)
  case Nil
  then show ?case by simp
next
  case (Cons f es)
  show ?case
  proof (cases "sz \<le> m_size f")
    case True
    with Cons.prems(2) Cons.prems(1) [of "[]" f es] show ?thesis by auto
  next
    case False
    with Cons.prems(2) obtain es'' where "alloc_first sz es = Some (addr, es'')" and "es' = f # es''"
      by auto
    with Cons.IH [of es''] Cons.prems(1) show ?thesis by (metis append_Cons)
  qed
qed

lemma seg_unit_disjoint: "segs_ok (P @ e # S) \<Longrightarrow> units P \<inter> {lo e..<hi e} = {} \<and> units S \<inter> {lo e..<hi e} = {}"
  by (fastforce simp: segs_ok_append segs_ok_Cons units_def)

lemma alloc_first_units:
  assumes "segs_ok es" and "alloc_first sz es = Some (addr, es')" and "sz \<noteq> 0"
  shows "segs_ok es'" and "{unat addr..<unat addr + unat sz} \<subseteq> units es"
    and "units es' = units es - {unat addr..<unat addr + unat sz}"
    and "unat addr + unat sz < 2 ^ 32" and "addr \<noteq> 0"
proof -
  from assms(2) obtain P e S where es: "es = P @ e # S" and fit: "sz \<le> m_size e" and addr: "addr = m_addr e"
    and es': "es' = P @ (if m_size e = sz then S else \<lparr>m_size = m_size e - sz, m_addr = m_addr e + sz\<rparr> # S)"
    by (rule alloc_first_SomeE)
  from assms(1) es have e: "m_addr e \<noteq> 0" "hi e < 2 ^ 32" by (auto simp: segs_ok_append segs_ok_Cons)
  from fit have le: "unat sz \<le> unat (m_size e)" by (simp add: word_le_nat_alt)
  from e le have ad: "unat (m_addr e + sz) = unat (m_addr e) + unat sz"
    by (intro unat_add_no_wrap) simp
  have sb: "unat (m_size e - sz) = unat (m_size e) - unat sz" using fit by (rule unat_sub_le)
  have ad0: "m_addr e + sz \<noteq> 0" using ad e(1) by (metis add_is_0 unat_eq_zero)
  note dis = seg_unit_disjoint [OF assms(1) [unfolded es]]
  show "segs_ok es'"
    using assms(1) le ad sb ad0 by (fastforce simp: es es' segs_ok_append segs_ok_Cons)
  show "{unat addr..<unat addr + unat sz} \<subseteq> units es" using le by (auto simp: es addr)
  show "units es' = units es - {unat addr..<unat addr + unat sz}"
    using dis le ad sb by (auto simp: es es' addr)
  show "unat addr + unat sz < 2 ^ 32" using e le by (simp add: addr)
  show "addr \<noteq> 0" using e by (simp add: addr)
qed

lemma alloc_first_None: "alloc_first sz es = None \<longleftrightarrow> (\<forall>e \<in> set es. m_size e < sz)"
  by (induction es) auto

text \<open>Releasing a range that is not free: the segments around it, and coalescing.\<close>

lemma join_units:
  fixes P S :: "mapent list"
  assumes ok: "segs_ok (P @ S)" and nz: "sz \<noteq> 0" "addr \<noteq> 0" and wrap: "unat addr + unat sz < 2 ^ 32"
    and P: "\<forall>e \<in> set P. hi e \<le> unat addr" and S: "\<forall>f \<in> set S. unat addr + unat sz \<le> lo f"
  shows "segs_ok (join sz addr P S) \<and>
         units (join sz addr P S) = units (P @ S) \<union> {unat addr..<unat addr + unat sz}"
proof -
  have ad: "unat (addr + sz) = unat addr + unat sz" using wrap by (rule unat_add_no_wrap)
  have sz0: "0 < unat sz" using nz by (simp add: unat_gt_0)
  have szw: "unat (m_size e + sz) = unat (m_size e) + unat sz" if "hi e \<le> unat addr" for e
    using that wrap by (intro unat_add_no_wrap) simp
  have hiw: "unat (m_addr e + m_size e) = hi e" if "hi e \<le> unat addr" for e
    using that wrap by (intro unat_add_no_wrap) simp
  have nonz: "x \<noteq> 0" if "unat (x :: u32) = a + b" "0 < a" for x a b using that by auto
  show ?thesis
  proof (cases "P \<noteq> [] \<and> m_addr (last P) + m_size (last P) \<ge> addr")
    case l: True
    then obtain Q e where Pe: "P = Q @ [e]" by (cases P rule: rev_cases) auto
    with P l have eh: "hi e = unat addr" by (force simp: word_le_nat_alt hiw)
    then have ew: "unat (m_size e + sz) = unat (m_size e) + unat sz" by (intro szw) simp
    show ?thesis
    proof (cases "S \<noteq> [] \<and> addr + sz \<ge> m_addr (hd S)")
      case r: True
      then obtain f T where Sf: "S = f # T" by (cases S) auto
      with S r have fl: "lo f = unat addr + unat sz" by (force simp: word_le_nat_alt ad)
      have fw: "unat (m_size e + sz + m_size f) = unat (m_size e) + unat sz + unat (m_size f)"
        using ok eh ew fl by (subst unat_add_no_wrap) (auto simp: Pe Sf segs_ok_append segs_ok_Cons)
      then have f0: "m_size e + sz + m_size f \<noteq> 0" using sz0 by (intro nonz [of _ "unat sz"]) auto
      have "join sz addr P S = Q @ e\<lparr>m_size := m_size e + sz + m_size f\<rparr> # T"
        using l r by (simp add: join_def Pe Sf Let_def)
      with ok eh fl fw f0 show ?thesis
        by (auto simp: Pe Sf segs_ok_append segs_ok_Cons)
    next
      case r: False
      have S': "\<forall>f \<in> set S. unat addr + unat sz < lo f"
        using S r ok ad by (cases S) (force simp: Pe word_le_nat_alt segs_ok_append segs_ok_Cons)+
      have f0: "m_size e + sz \<noteq> 0" using ew sz0 by (intro nonz [of _ "unat sz"]) auto
      have "join sz addr P S = Q @ e\<lparr>m_size := m_size e + sz\<rparr> # S"
        using l r by (auto simp: join_def Pe Let_def)
      with ok eh ew f0 S' wrap show ?thesis
        by (auto simp: Pe segs_ok_append segs_ok_Cons)
    qed
  next
    case l: False
    have P': "\<forall>e \<in> set P. hi e < unat addr"
    proof (cases P rule: rev_cases)
      case (snoc Q e)
      then have e: "hi e < unat addr" using P l by (force simp: word_le_nat_alt hiw)
      then show ?thesis using ok snoc by (fastforce simp: segs_ok_append segs_ok_Cons)
    qed simp
    show ?thesis
    proof (cases "S \<noteq> [] \<and> addr + sz \<ge> m_addr (hd S)")
      case r: True
      then obtain f T where Sf: "S = f # T" by (cases S) auto
      with S r have fl: "lo f = unat addr + unat sz" by (force simp: word_le_nat_alt ad)
      have fw: "unat (m_size f + sz) = unat (m_size f) + unat sz"
        using ok fl by (intro unat_add_no_wrap) (auto simp: Sf segs_ok_append segs_ok_Cons)
      then have f0: "m_size f + sz \<noteq> 0" using sz0 by (intro nonz [of _ "unat sz"]) auto
      have "join sz addr P S = P @ \<lparr>m_size = m_size f + sz, m_addr = addr\<rparr> # T"
        using l r by (auto simp: join_def Sf Let_def)
      with ok P' fl fw f0 nz show ?thesis
        by (auto simp: Sf segs_ok_append segs_ok_Cons)
    next
      case r: False
      have S': "\<forall>f \<in> set S. unat addr + unat sz < lo f"
        using S r ok ad by (cases S) (force simp: word_le_nat_alt segs_ok_append segs_ok_Cons)+
      have "join sz addr P S = P @ \<lparr>m_size = sz, m_addr = addr\<rparr> # S"
        using l r by (auto simp: join_def Let_def)
      with ok P' S' nz wrap show ?thesis
        by (fastforce simp: segs_ok_append segs_ok_Cons)
    qed
  qed
qed

lemma release_units:
  assumes ok: "segs_ok es" and nz: "sz \<noteq> 0" "addr \<noteq> 0" and wrap: "unat addr + unat sz < 2 ^ 32"
    and dis: "{unat addr..<unat addr + unat sz} \<inter> units es = {}"
  shows "segs_ok (release sz addr es)"
    and "units (release sz addr es) = units es \<union> {unat addr..<unat addr + unat sz}"
proof -
  let ?P = "takeWhile (\<lambda>e. m_addr e \<le> addr) es" and ?S = "dropWhile (\<lambda>e. m_addr e \<le> addr) es"
  have sz0: "0 < unat sz" using nz by (simp add: unat_gt_0)
  have "hi e \<le> unat addr" if "e \<in> set ?P" for e
  proof -
    from that have "e \<in> set es" "lo e \<le> unat addr"
      by (auto simp: word_le_nat_alt dest: set_takeWhileD)
    then have "unat addr \<in> units es" if "unat addr < hi e" using that by (auto simp: units_def)
    moreover have "unat addr \<in> extent addr sz" using sz0 by simp
    ultimately show ?thesis using dis by (meson disjoint_iff not_le)
  qed
  moreover have "unat addr + unat sz \<le> lo f" if "f \<in> set ?S" for f
  proof -
    from that obtain g T where gT: "?S = g # T" by (cases ?S) auto
    then have "\<not> m_addr g \<le> addr" using hd_dropWhile [of "\<lambda>e. m_addr e \<le> addr" es] by simp
    moreover have "segs_ok (?P @ ?S)" using ok by simp
    then have "segs_ok (g # T)" by (simp only: gT segs_ok_append)
    ultimately have "unat addr < lo f"
      using that gT by (auto simp: word_le_nat_alt segs_ok_Cons)
    moreover from that have "f \<in> set es" by (rule set_dropWhileD)
    moreover from this ok have "0 < unat (m_size f)" by (auto simp: segs_ok_def unat_gt_0)
    ultimately have "lo f \<in> units es" "lo f < unat addr + unat sz \<Longrightarrow> lo f \<in> extent addr sz"
      by (auto simp: units_def)
    with dis show ?thesis by (meson disjoint_iff not_le)
  qed
  ultimately show "segs_ok (release sz addr es)"
    and "units (release sz addr es) = units es \<union> {unat addr..<unat addr + unat sz}"
    using join_units [of ?P ?S sz addr] ok nz wrap by (simp_all add: release_def)
qed

subsection \<open>What the operations do to the free units\<close>

text \<open>
  \<open>malloc\<close> on a well-formed map always returns. It returns 0 and changes nothing exactly
  when no segment is large enough; otherwise the units of the range it returns were free
  and are the only ones taken.
\<close>

lemma malloc_spec:
  assumes ok: "rmap_ok mp" and nz: "sz \<noteq> 0"
  shows "(\<forall>e \<in> set (live mp). m_size e < sz) \<and> malloc mp sz = Inr (0, mp) \<or>
         (\<exists>addr mp'. malloc mp sz = Inr (addr, mp') \<and> rmap_ok mp' \<and> addr \<noteq> 0
            \<and> unat addr + unat sz < 2 ^ 32 \<and> extent addr sz \<subseteq> avail mp
            \<and> avail mp' = avail mp - extent addr sz
            \<and> length (m_map mp') = length (m_map mp) \<and> m_limit mp' = m_limit mp)"
proof -
  let ?gs = "drop (Suc (length (live mp))) (m_map mp)"
  note sh = rmap_ok_shape [OF ok]
  have so: "segs_ok (live mp)" using ok by (simp add: rmap_ok_def)
  from malloc_refines [OF sh nz] obtain gs' where
    m: "malloc mp sz = Inr (case alloc_first sz (live mp) of None \<Rightarrow> (0, mp)
         | Some (addr, es') \<Rightarrow> (addr, mp\<lparr>m_map := es' @ \<lparr>m_size = 0, m_addr = 0\<rparr> # gs'\<rparr>))"
    and g: "\<And>addr es'. alloc_first sz (live mp) = Some (addr, es') \<Longrightarrow>
         nonempty es' \<and> length es' + length gs' = length (live mp) + length ?gs"
    by blast
  show ?thesis
  proof (cases "alloc_first sz (live mp)")
    case None
    with m show ?thesis by (auto simp: alloc_first_None)
  next
    case (Some r)
    then obtain addr es' where af: "alloc_first sz (live mp) = Some (addr, es')" by (cases r) auto
    let ?mp' = "mp\<lparr>m_map := es' @ \<lparr>m_size = 0, m_addr = 0\<rparr> # gs'\<rparr>"
    note u = alloc_first_units [OF so af nz]
    have sh': "mshape ?mp' es' gs'" using g [OF af] by (simp add: mshape_def)
    have "length (m_map ?mp') = length (m_map mp)"
      using g [OF af] ok by (auto simp: rmap_ok_def)
    with m af u sh' rmap_ok_mshape [OF sh' u(1)] show ?thesis
      by (auto simp: avail_def mshape_live)
  qed
qed

text \<open>
  \<open>mfree\<close> of a range of which no unit is free: the range becomes free, or, when a slot
  is needed and the limit is reached, the map stays as it is and the range is lost. When
  the limit lies beyond the array the terminator may be written outside it.
\<close>

lemma mfree_spec:
  assumes ok: "rmap_ok mp" and nz: "sz \<noteq> 0" "addr \<noteq> 0" and wrap: "unat addr + unat sz < 2 ^ 32"
    and dis: "extent addr sz \<inter> avail mp = {}"
  shows "(\<exists>mp'. mfree mp sz addr = Inr mp' \<and> rmap_ok mp' \<and> avail mp' = avail mp \<union> extent addr sz
            \<and> length (m_map mp') = length (m_map mp) \<and> m_limit mp' = m_limit mp) \<or>
         (m_limit mp \<le> length (live mp) \<and> mfree mp sz addr = Inr mp) \<or>
         (length (live mp) < m_limit mp \<and> Suc (length (live mp)) = length (m_map mp)
            \<and> mfree mp sz addr = Inl Fault)"
proof -
  let ?z = "\<lparr>m_size = 0, m_addr = 0\<rparr>" and ?gs = "drop (Suc (length (live mp))) (m_map mp)"
  note sh = rmap_ok_shape [OF ok]
  have so: "segs_ok (live mp)" using ok by (simp add: rmap_ok_def)
  note u = release_units [OF so nz wrap dis [unfolded avail_def]]
  have ne: "nonempty (release sz addr (live mp))" using u(1) by (simp add: segs_ok_def)
  have fin: ?thesis
    if "mfree mp sz addr = Inr (mp\<lparr>m_map := release sz addr (live mp) @ ?z # g\<rparr>)"
      and "Suc (length (release sz addr (live mp)) + length g) = length (m_map mp)" for g
  proof -
    let ?mp' = "mp\<lparr>m_map := release sz addr (live mp) @ ?z # g\<rparr>"
    have sh': "mshape ?mp' (release sz addr (live mp)) g" using ne by (simp add: mshape_def)
    have "rmap_ok ?mp'" using rmap_ok_mshape [OF sh' u(1)] .
    moreover have "avail ?mp' = avail mp \<union> extent addr sz"
      using u(2) by (simp add: avail_def mshape_live [OF sh'])
    ultimately show ?thesis using that by (intro disjI1 exI [of _ ?mp']) simp
  qed
  have len: "Suc (length (live mp) + length ?gs) = length (m_map mp)" using ok by (auto simp: rmap_ok_def)
  note r = mfree_refines [OF sh nz]
  consider "length (release sz addr (live mp)) \<le> length (live mp)"
    | "length (live mp) < length (release sz addr (live mp))" "m_limit mp \<le> length (live mp)"
    | "length (live mp) < length (release sz addr (live mp))" "length (live mp) < m_limit mp" "?gs = []"
    | "length (live mp) < length (release sz addr (live mp))" "length (live mp) < m_limit mp" "?gs \<noteq> []"
    by linarith
  then show ?thesis
  proof cases
    case 1
    with r len show ?thesis by (intro fin) auto
  next
    case 2
    with r show ?thesis by simp
  next
    case 3
    with r len show ?thesis by simp
  next
    case 4
    moreover from 4 length_release [of sz addr "live mp"]
    have "length (release sz addr (live mp)) = Suc (length (live mp))" by simp
    ultimately show ?thesis using r len by (intro fin [of "tl ?gs"]) (simp, cases ?gs, auto)
  qed
qed

subsection \<open>The interface: a pool of units\<close>

text \<open>
  What a client of the allocator relies on. \<open>ledger F held\<close> says that the ranges a client
  holds are pairwise disjoint and none of their units is in \<open>F\<close>.
\<close>

definition held_ok :: "nat set \<Rightarrow> u32 \<times> u32 \<Rightarrow> bool" where
  "held_ok F p \<longleftrightarrow> snd p \<noteq> 0 \<and> fst p \<noteq> 0 \<and> unat (fst p) + unat (snd p) < 2 ^ 32
     \<and> extent (fst p) (snd p) \<inter> F = {}"

definition apart :: "u32 \<times> u32 \<Rightarrow> u32 \<times> u32 \<Rightarrow> bool" where
  "apart p q \<longleftrightarrow> extent (fst p) (snd p) \<inter> extent (fst q) (snd q) = {}"

definition ledger :: "nat set \<Rightarrow> (u32 \<times> u32) list \<Rightarrow> bool" where
  "ledger F held \<longleftrightarrow> (\<forall>p \<in> set held. held_ok F p) \<and> sorted_wrt apart held"

definition owned :: "(u32 \<times> u32) list \<Rightarrow> nat set" where
  "owned held = (\<Union>(addr, sz) \<in> set held. extent addr sz)"

lemma ledger_Nil [simp]: "ledger F []"
  by (simp add: ledger_def)

lemma ledgerD:
  assumes "ledger F held" and "(addr, sz) \<in> set held"
  shows "sz \<noteq> 0" "addr \<noteq> 0" "unat addr + unat sz < 2 ^ 32" "extent addr sz \<inter> F = {}"
proof -
  have "held_ok F (addr, sz)" using assms by (simp add: ledger_def)
  then have "sz \<noteq> 0 \<and> addr \<noteq> 0 \<and> unat addr + unat sz < 2 ^ 32 \<and> extent addr sz \<inter> F = {}"
    unfolding held_ok_def fst_conv snd_conv .
  then show "sz \<noteq> 0" "addr \<noteq> 0" "unat addr + unat sz < 2 ^ 32" "extent addr sz \<inter> F = {}" by blast+
qed

lemma held_ok_shift: "held_ok F p \<Longrightarrow> apart p q \<Longrightarrow> F' \<subseteq> F \<union> extent (fst q) (snd q) \<Longrightarrow> held_ok F' p"
  unfolding held_ok_def apart_def by blast

lemma apart_sym: "apart p q \<longleftrightarrow> apart q p"
  unfolding apart_def by blast

lemma ledger_remove1:
  assumes "ledger F held" and "q \<in> set held" and "F' \<subseteq> F \<union> extent (fst q) (snd q)"
  shows "ledger F' (remove1 q held)" and "owned held = owned (remove1 q held) \<union> extent (fst q) (snd q)"
proof -
  obtain xs ys where h: "held = xs @ q # ys" and x: "q \<notin> set xs"
    using assms(2) by (meson split_list_first)
  then have r: "remove1 q held = xs @ ys" by (simp add: remove1_append)
  from assms(1) have "\<forall>p \<in> set (xs @ ys). held_ok F p \<and> apart p q" "sorted_wrt apart (xs @ ys)"
    by (auto simp: ledger_def h sorted_wrt_append apart_sym [of q])
  then show "ledger F' (remove1 q held)"
    unfolding r ledger_def using assms(3) by (blast intro: held_ok_shift)
  show "owned held = owned (remove1 q held) \<union> extent (fst q) (snd q)"
    unfolding r by (cases q) (auto simp: owned_def h)
qed

locale unit_pool =
  fixes invar :: "'m \<Rightarrow> bool"
    and pool :: "'m \<Rightarrow> nat set"
    and acquire :: "'m \<Rightarrow> u32 \<Rightarrow> (u32 \<times> 'm) res"
    and giveback :: "'m \<Rightarrow> u32 \<Rightarrow> u32 \<Rightarrow> 'm res"
  assumes acquire_returns: "invar m \<Longrightarrow> sz \<noteq> 0 \<Longrightarrow> \<exists>addr m'. acquire m sz = Inr (addr, m')"
    and acquire_fails: "invar m \<Longrightarrow> sz \<noteq> 0 \<Longrightarrow> acquire m sz = Inr (0, m') \<Longrightarrow> m' = m"
    and acquire_units: "invar m \<Longrightarrow> sz \<noteq> 0 \<Longrightarrow> acquire m sz = Inr (addr, m') \<Longrightarrow> addr \<noteq> 0 \<Longrightarrow>
      invar m' \<and> unat addr + unat sz < 2 ^ 32 \<and> extent addr sz \<subseteq> pool m \<and> pool m' = pool m - extent addr sz"
    and giveback_returns: "invar m \<Longrightarrow> sz \<noteq> 0 \<Longrightarrow> addr \<noteq> 0 \<Longrightarrow> unat addr + unat sz < 2 ^ 32 \<Longrightarrow>
      extent addr sz \<inter> pool m = {} \<Longrightarrow> \<exists>m'. giveback m sz addr = Inr m'"
    and giveback_units: "invar m \<Longrightarrow> sz \<noteq> 0 \<Longrightarrow> addr \<noteq> 0 \<Longrightarrow> unat addr + unat sz < 2 ^ 32 \<Longrightarrow>
      extent addr sz \<inter> pool m = {} \<Longrightarrow> giveback m sz addr = Inr m' \<Longrightarrow>
      invar m' \<and> pool m \<subseteq> pool m' \<and> pool m' \<subseteq> pool m \<union> extent addr sz"
begin

lemma acquire_ledger:
  assumes "invar m" and "sz \<noteq> 0" and "acquire m sz = Inr (addr, m')" and "addr \<noteq> 0"
    and led: "ledger (pool m) held"
  shows "invar m'" and "ledger (pool m') ((addr, sz) # held)" and "pool m' \<union> owned ((addr, sz) # held) = pool m \<union> owned held"
proof -
  from acquire_units [OF assms(1-4)] show "invar m'" by simp
  from acquire_units [OF assms(1-4)] have u: "unat addr + unat sz < 2 ^ 32"
    "extent addr sz \<subseteq> pool m" "pool m' = pool m - extent addr sz" by auto
  have "apart (addr, sz) p \<and> held_ok (pool m') p" if "p \<in> set held" for p
    using led u(2,3) that unfolding ledger_def held_ok_def apart_def fst_conv snd_conv by blast
  moreover have "held_ok (pool m') (addr, sz)" using u assms(2,4) by (auto simp: held_ok_def)
  ultimately show "ledger (pool m') ((addr, sz) # held)"
    using led by (simp add: ledger_def)
  show "pool m' \<union> owned ((addr, sz) # held) = pool m \<union> owned held"
    using u(2,3) by (auto simp: owned_def)
qed

lemma giveback_held:
  assumes "invar m" and "ledger (pool m) held" and "(addr, sz) \<in> set held"
  shows "\<exists>m'. giveback m sz addr = Inr m'"
  by (rule giveback_returns [OF assms(1) ledgerD [OF assms(2,3)]])

lemma giveback_ledger:
  assumes "invar m" and "(addr, sz) \<in> set held" and "giveback m sz addr = Inr m'"
    and led: "ledger (pool m) held"
  shows "invar m'" and "ledger (pool m') (remove1 (addr, sz) held)"
    and "pool m' \<union> owned (remove1 (addr, sz) held) \<subseteq> pool m \<union> owned held"
proof -
  note h = ledgerD [OF led assms(2)]
  from giveback_units [OF assms(1) h assms(3)] have u: "invar m'" "pool m' \<subseteq> pool m \<union> extent addr sz" by auto
  note r = ledger_remove1 [OF led assms(2), of "pool m'", unfolded fst_conv snd_conv, OF u(2)]
  show "invar m'" by (rule u)
  show "ledger (pool m') (remove1 (addr, sz) held)" by (rule r)
  show "pool m' \<union> owned (remove1 (addr, sz) held) \<subseteq> pool m \<union> owned held" using r(2) u(2) by blast
qed

end

text \<open>The laws hold for the resource map when its limit is a slot of its array.\<close>

definition pool_ok :: "rmap \<Rightarrow> bool" where
  "pool_ok mp \<longleftrightarrow> rmap_ok mp \<and> m_limit mp < length (m_map mp)"

interpretation swap: unit_pool pool_ok avail malloc mfree
proof (unfold_locales, goal_cases)
  case (1 m sz)
  then show ?case using malloc_spec [of m sz] by (auto simp: pool_ok_def)
next
  case (2 m sz m')
  then show ?case using malloc_spec [of m sz] by (auto simp: pool_ok_def)
next
  case (3 m sz addr m')
  then show ?case using malloc_spec [of m sz] by (auto simp: pool_ok_def)
next
  case (4 m sz addr)
  then show ?case using mfree_spec [of m sz addr] by (auto simp: pool_ok_def)
next
  case (5 m sz addr m')
  then show ?case using mfree_spec [of m sz addr] by (auto simp: pool_ok_def)
qed

end
