(* ===== verification/Rmap3.thy ===== *)
theory Rmap3
  imports Rmap
begin

text \<open>
  \<open>malloc3\<close> of \<open>sys/kernel/subr_rmap.c\<close>, which places the data, the stack and the user area
  of a process in one pass over the resource map, and the sessions of a client of the
  swap map (\<open>malloc\<close>, \<open>malloc3\<close>, \<open>mfree\<close> in any order).
\<close>

subsection \<open>malloc3\<close>

text \<open>
  The local variables of \<open>malloc3\<close>: the map array being tried, \<open>madd[3]\<close> and \<open>remap\<close>
  (slot numbers, \<open>None\<close> for NULL) and \<open>found\<close>.
\<close>

record m3state =
  m3_map :: "mapent list"
  madd :: "nat option list"
  remap :: "nat option"
  found :: nat

text \<open>The inner loop over \<open>next\<close> at slot \<open>bp\<close>; it is left early by \<open>goto resolve\<close>.\<close>

fun m3_try :: "u32 list \<Rightarrow> nat \<Rightarrow> nat list \<Rightarrow> m3state \<Rightarrow> m3state" where
  "m3_try sizes bp [] st = st"
| "m3_try sizes bp (nx # nxs) st =
     (if madd st ! nx = None \<and> sizes ! nx \<le> m_size (m3_map st ! bp)
      then let e = m3_map st ! bp;
               left = m_size e - sizes ! nx;
               st' = st\<lparr>madd := (madd st)[nx := Some bp],
                        m3_map := (m3_map st)[bp := e\<lparr>m_size := left\<rparr>],
                        remap := (if left = 0 \<and> remap st = None then Some bp else remap st),
                        found := Suc (found st)\<rparr>
           in if found st' = 3 then st' else m3_try sizes bp nxs st'
      else m3_try sizes bp nxs st)"

lemma length_m3_try [simp]: "length (m3_map (m3_try sizes bp nxs st)) = length (m3_map st)"
  by (induction sizes bp nxs st rule: m3_try.induct) (simp_all add: Let_def)

function m3_scan :: "u32 list \<Rightarrow> nat \<Rightarrow> m3state \<Rightarrow> m3state res" where
  "m3_scan sizes bp st =
     (if \<not> bp < length (m3_map st) then Inl Fault
      else if m_size (m3_map st ! bp) = 0 then Inr st
      else let st' = m3_try sizes bp [0, 1, 2] st
           in if found st' = 3 then Inr st' else m3_scan sizes (Suc bp) st')"
  by pat_completeness auto
termination
  by (relation "measure (\<lambda>(sizes, bp, st). length (m3_map st) - bp)") (auto simp del: m3_try.simps)

text \<open>
  The three loops after the search: giving the sizes back, resolving the addresses (the
  list \<open>out\<close> is the array \<open>a[]\<close>), and removing the entries of size 0.
\<close>

fun m3_restore :: "u32 list \<Rightarrow> nat option list \<Rightarrow> nat list \<Rightarrow> mapent list \<Rightarrow> mapent list" where
  "m3_restore sizes md [] a = a"
| "m3_restore sizes md (nx # nxs) a =
     (case md ! nx of
        None \<Rightarrow> m3_restore sizes md nxs a
      | Some i \<Rightarrow> m3_restore sizes md nxs (a[i := (a ! i)\<lparr>m_size := m_size (a ! i) + sizes ! nx\<rparr>]))"

fun m3_resolve :: "u32 list \<Rightarrow> nat option list \<Rightarrow> nat list \<Rightarrow> mapent list \<Rightarrow> u32 list \<Rightarrow> mapent list \<times> u32 list" where
  "m3_resolve sizes md [] a out = (a, out)"
| "m3_resolve sizes md (nx # nxs) a out =
     (let i = the (md ! nx)
      in m3_resolve sizes md nxs (a[i := (a ! i)\<lparr>m_addr := m_addr (a ! i) + sizes ! nx\<rparr>])
           (out @ [m_addr (a ! i)]))"

function m3_compact :: "mapent list \<Rightarrow> nat \<Rightarrow> nat \<Rightarrow> mapent list res" where
  "m3_compact a rm bp =
     (if \<not> bp < length a then Inl Fault
      else if m_size (a ! bp) \<noteq> 0 \<or> m_addr (a ! bp) = 0
      then let a' = a[rm := a ! bp]
           in if m_addr (a' ! bp) = 0 then Inr a' else m3_compact a' (Suc rm) (Suc bp)
      else m3_compact a rm (Suc bp))"
  by pat_completeness auto
termination
  by (relation "measure (\<lambda>(a, rm, bp). length a - bp)") auto

text \<open>
  The value is \<open>a[2]\<close> (or 0) with the array \<open>a\<close> (\<open>None\<close> when it is not written).
  After \<open>goto resolve\<close> every \<open>madd[next]\<close> is a slot, so \<open>the\<close> is only applied to
  \<open>Some\<close>.
\<close>

definition malloc3 :: "rmap \<Rightarrow> u32 \<Rightarrow> u32 \<Rightarrow> u32 \<Rightarrow> (u32 \<times> u32 list option \<times> rmap) res" where
  "malloc3 mp d_size s_size u_size =
     (let sizes = [d_size, s_size, u_size]
      in rbind (m3_scan sizes 0 \<lparr>m3_map = m_map mp, madd = [None, None, None], remap = None, found = 0\<rparr>)
         (\<lambda>st.
            if found st = 3
            then let (a, out) = m3_resolve sizes (madd st) [0, 1, 2] (m3_map st) []
                 in (case remap st of
                       None \<Rightarrow> Inr (out ! 2, Some out, mp\<lparr>m_map := a\<rparr>)
                     | Some r \<Rightarrow> rbind (m3_compact a r (Suc r)) (\<lambda>a'.
                         Inr (out ! 2, Some out, mp\<lparr>m_map := a'\<rparr>)))
            else Inr (0, None, mp\<lparr>m_map := m3_restore sizes (madd st) [0, 1, 2] (m3_map st)\<rparr>)))"

declare m3_scan.simps [simp del] m3_compact.simps [simp del]

subsection \<open>malloc3 on the list of live segments\<close>

text \<open>The units that the trial phase has taken from slot \<open>i\<close>.\<close>

definition taken :: "u32 list \<Rightarrow> nat option list \<Rightarrow> nat \<Rightarrow> nat" where
  "taken sizes md i = (\<Sum>nx < 3. if md ! nx = Some i then unat (sizes ! nx) else 0)"

definition m3_inv :: "u32 list \<Rightarrow> mapent list \<Rightarrow> nat \<Rightarrow> m3state \<Rightarrow> bool" where
  "m3_inv sizes a0 bp st \<longleftrightarrow>
     length (m3_map st) = length a0 \<and> length (madd st) = 3
     \<and> (\<forall>i < length a0. m_addr (m3_map st ! i) = m_addr (a0 ! i)
          \<and> unat (m_size (m3_map st ! i)) + taken sizes (madd st) i = unat (m_size (a0 ! i)))
     \<and> (\<forall>nx < 3. \<forall>i. madd st ! nx = Some i \<longrightarrow> i < bp)
     \<and> found st = card {nx. nx < 3 \<and> madd st ! nx \<noteq> None}
     \<and> (case remap st of
          None \<Rightarrow> \<forall>i < bp. m_size (m3_map st ! i) \<noteq> 0
        | Some r \<Rightarrow> r < bp \<and> m_size (m3_map st ! r) = 0 \<and> (\<forall>i < r. m_size (m3_map st ! i) \<noteq> 0))"

lemma taken_update:
  assumes "length md = 3" and "nx < 3" and "md ! nx = None"
  shows "taken sizes (md[nx := Some j]) i = taken sizes md i + (if i = j then unat (sizes ! nx) else 0)"
proof -
  have "(\<Sum>k < 3. if md[nx := Some j] ! k = Some i then unat (sizes ! k) else 0) =
        (\<Sum>k < 3. (if md ! k = Some i then unat (sizes ! k) else 0)
                + (if k = nx then (if i = j then unat (sizes ! nx) else 0) else 0))"
    using assms by (intro sum.cong) (auto simp: nth_list_update)
  then show ?thesis using assms(2) by (simp add: taken_def sum.distrib)
qed

lemma taken_0: "\<forall>nx < 3. md ! nx \<noteq> Some i \<Longrightarrow> taken sizes md i = 0"
  by (simp add: taken_def)

text \<open>The state after request \<open>nx\<close> has taken its units from slot \<open>bp\<close>.\<close>

definition m3_take :: "u32 list \<Rightarrow> nat \<Rightarrow> nat \<Rightarrow> m3state \<Rightarrow> m3state" where
  "m3_take sizes bp nx st =
     (let e = m3_map st ! bp
      in st\<lparr>madd := (madd st)[nx := Some bp],
            m3_map := (m3_map st)[bp := e\<lparr>m_size := m_size e - sizes ! nx\<rparr>],
            remap := (if m_size e - sizes ! nx = 0 \<and> remap st = None then Some bp else remap st),
            found := Suc (found st)\<rparr>)"

lemma m3_try_Cons:
  "m3_try sizes bp (nx # nxs) st =
     (if madd st ! nx = None \<and> sizes ! nx \<le> m_size (m3_map st ! bp)
      then (let st1 = m3_take sizes bp nx st in if found st1 = 3 then st1 else m3_try sizes bp nxs st1)
      else m3_try sizes bp nxs st)"
  by (simp add: Let_def m3_take_def)

declare m3_try.simps(2) [simp del]

lemma m3_take_lengths [simp]:
  "length (m3_map (m3_take sizes bp nx st)) = length (m3_map st)"
  "length (madd (m3_take sizes bp nx st)) = length (madd st)"
  by (simp_all add: m3_take_def Let_def)

lemma card_insert_slot:
  assumes "md ! nx = None"
  shows "card {k. nx \<noteq> k \<longrightarrow> k < 3 \<and> (\<exists>y. md ! k = Some y)} = Suc (card {k. k < (3 :: nat) \<and> (\<exists>y. md ! k = Some y)})"
proof -
  have "{k. nx \<noteq> k \<longrightarrow> k < 3 \<and> (\<exists>y. md ! k = Some y)} = insert nx {k. k < 3 \<and> (\<exists>y. md ! k = Some y)}" by auto
  then show ?thesis using assms by simp
qed

lemma m3_try_inv:
  assumes "m3_inv sizes a0 (Suc bp) st" and "bp < length a0" and "set nxs \<subseteq> {..<3}"
    and "remap st = None \<or> the (remap st) \<le> bp"
  shows "m3_inv sizes a0 (Suc bp) (m3_try sizes bp nxs st)"
  using assms
proof (induction nxs arbitrary: st)
  case Nil
  then show ?case by simp
next
  case (Cons nx nxs)
  show ?case
  proof (cases "madd st ! nx = None \<and> sizes ! nx \<le> m_size (m3_map st ! bp)")
    case False
    with Cons show ?thesis by (simp add: m3_try_Cons if_not_P)
  next
    case True
    let ?e = "m3_map st ! bp"
    define st1 where "st1 = m3_take sizes bp nx st"
    have nx: "nx < 3" using Cons.prems(3) by simp
    have sub: "unat (m_size ?e - sizes ! nx) = unat (m_size ?e) - unat (sizes ! nx)"
      "unat (sizes ! nx) \<le> unat (m_size ?e)"
      using True by (simp_all add: unat_sub_le word_le_nat_alt)
    have L: "length (madd st) = 3" "length (m3_map st) = length a0" using Cons.prems(1) by (simp_all add: m3_inv_def)
    have inv: "m3_inv sizes a0 (Suc bp) st1"
      using Cons.prems(1,2,4) True nx sub L taken_update [OF L(1) nx]
      unfolding m3_inv_def st1_def m3_take_def by (auto simp: Let_def card_insert_slot nth_list_update split: option.splits if_splits)
    have "remap st1 = None \<or> the (remap st1) \<le> bp" using Cons.prems(4) by (auto simp: st1_def m3_take_def Let_def)
    with inv have "m3_inv sizes a0 (Suc bp) (m3_try sizes bp nxs st1)"
      using Cons.IH Cons.prems(2,3) by simp
    moreover have "m3_try sizes bp (nx # nxs) st = (if found st1 = 3 then st1 else m3_try sizes bp nxs st1)"
      using True by (simp add: m3_try_Cons Let_def st1_def)
    ultimately show ?thesis using inv by simp
  qed
qed

lemma m3_inv_Suc:
  assumes "m3_inv sizes a0 bp st" and "m_size (m3_map st ! bp) \<noteq> 0"
  shows "m3_inv sizes a0 (Suc bp) st"
  using assms by (auto simp: m3_inv_def less_Suc_eq split: option.splits)

lemma m3_inv_remap: "m3_inv sizes a0 (Suc bp) st \<Longrightarrow> remap st = None \<or> the (remap st) \<le> bp"
  by (auto simp: m3_inv_def split: option.splits)

lemma m3_inv_beyond:
  assumes "m3_inv sizes a0 bp st" and "bp \<le> i" and "i < length a0"
  shows "m3_map st ! i = a0 ! i"
proof -
  have "taken sizes (madd st) i = 0" using assms by (intro taken_0) (auto simp: m3_inv_def)
  moreover have "m_addr (m3_map st ! i) = m_addr (a0 ! i)"
    "unat (m_size (m3_map st ! i)) + taken sizes (madd st) i = unat (m_size (a0 ! i))"
    using assms by (simp_all add: m3_inv_def)
  ultimately show ?thesis
    by (intro mapent.equality) (simp_all add: word_unat_eq_iff [THEN iffD2])
qed

lemma m3_try_other: "i \<noteq> bp \<Longrightarrow> m3_map (m3_try sizes bp nxs st) ! i = m3_map st ! i"
  by (induction nxs arbitrary: st) (simp_all add: m3_try_Cons Let_def m3_take_def)

lemma m3_take_madd: "madd (m3_take sizes bp nx st) ! k = None \<Longrightarrow> madd st ! k = None"
  by (cases "nx < length (madd st)")
    (auto simp: m3_take_def Let_def nth_list_update list_update_beyond split: if_splits)

lemma m3_try_madd: "madd (m3_try sizes bp nxs st) ! k = None \<Longrightarrow> madd st ! k = None"
proof (induction nxs arbitrary: st)
  case Nil
  then show ?case by simp
next
  case (Cons nx nxs)
  let ?st1 = "m3_take sizes bp nx st"
  from Cons.prems have "madd (m3_try sizes bp nxs ?st1) ! k = None \<or> madd ?st1 ! k = None
      \<or> madd (m3_try sizes bp nxs st) ! k = None"
    by (simp add: m3_try_Cons Let_def split: if_splits)
  then show ?case using Cons.IH m3_take_madd by blast
qed

lemma m3_take_size:
  assumes "bp < length (m3_map st)" and "sizes ! nx \<le> m_size (m3_map st ! bp)"
  shows "m_size (m3_map (m3_take sizes bp nx st) ! bp) \<le> m_size (m3_map st ! bp)"
  using assms by (simp add: m3_take_def Let_def word_le_nat_alt unat_sub_le)

lemma m3_try_size:
  assumes "bp < length (m3_map st)"
  shows "m_size (m3_map (m3_try sizes bp nxs st) ! bp) \<le> m_size (m3_map st ! bp)"
  using assms
proof (induction nxs arbitrary: st)
  case Nil
  then show ?case by simp
next
  case (Cons nx nxs)
  then show ?case
    using order_trans [OF Cons.IH m3_take_size [OF Cons.prems], of sizes nx]
    by (simp add: m3_try_Cons Let_def m3_take_size)
qed

lemma m3_try_refused:
  assumes "bp < length (m3_map st)" and "length (madd st) = 3" and "set nxs \<subseteq> {..<3}"
    and "found (m3_try sizes bp nxs st) \<noteq> 3" and "k \<in> set nxs" and "madd (m3_try sizes bp nxs st) ! k = None"
  shows "m_size (m3_map (m3_try sizes bp nxs st) ! bp) < sizes ! k"
  using assms
proof (induction nxs arbitrary: st)
  case Nil
  then show ?case by simp
next
  case (Cons nx nxs)
  show ?case
  proof (cases "madd st ! nx = None \<and> sizes ! nx \<le> m_size (m3_map st ! bp)")
    case True
    define st1 where "st1 = m3_take sizes bp nx st"
    from True Cons.prems(4) have eq: "m3_try sizes bp (nx # nxs) st = m3_try sizes bp nxs st1"
      by (auto simp: m3_try_Cons Let_def st1_def split: if_splits)
    have "madd st1 ! nx \<noteq> None" using Cons.prems(2,3) by (simp add: st1_def m3_take_def Let_def)
    then have "k \<noteq> nx" using m3_try_madd [of sizes bp nxs st1 k] Cons.prems(6) unfolding eq by auto
    then show ?thesis using Cons.IH [of st1] Cons.prems unfolding eq by (simp add: st1_def)
  next
    case False
    then have eq: "m3_try sizes bp (nx # nxs) st = m3_try sizes bp nxs st" by (simp only: m3_try_Cons if_False)
    show ?thesis
    proof (cases "k \<in> set nxs")
      case True
      then show ?thesis using Cons.IH [OF Cons.prems(1,2)] Cons.prems(3-6) unfolding eq by simp
    next
      case nin: False
      then have k: "k = nx" using Cons.prems(5) by simp
      have "madd st ! nx = None" using m3_try_madd Cons.prems(6) unfolding eq k by blast
      then have "m_size (m3_map st ! bp) < sizes ! nx" using False by auto
      then show ?thesis using m3_try_size [OF Cons.prems(1)] unfolding eq k by (meson le_less_trans)
    qed
  qed
qed

definition m3_refused :: "u32 list \<Rightarrow> nat \<Rightarrow> m3state \<Rightarrow> bool" where
  "m3_refused sizes bp st \<longleftrightarrow>
     (\<forall>k < 3. madd st ! k = None \<longrightarrow> (\<forall>i < bp. m_size (m3_map st ! i) < sizes ! k))"

lemma m3_refused_try:
  assumes "m3_refused sizes bp st" and "bp < length (m3_map st)" and "length (madd st) = 3"
    and "found (m3_try sizes bp [0, 1, 2] st) \<noteq> 3"
  shows "m3_refused sizes (Suc bp) (m3_try sizes bp [0, 1, 2] st)"
  unfolding m3_refused_def
proof (intro allI impI)
  fix k i assume k: "k < (3 :: nat)" "madd (m3_try sizes bp [0, 1, 2] st) ! k = None" and i: "i < Suc bp"
  have kk: "k \<in> set [0, 1, 2]" using k(1) by auto
  show "m_size (m3_map (m3_try sizes bp [0, 1, 2] st) ! i) < sizes ! k"
  proof (cases "i = bp")
    case True
    have "set [0, 1, 2 :: nat] \<subseteq> {..<3}" by simp
    from m3_try_refused [OF assms(2,3) this assms(4) kk k(2)] True show ?thesis by simp
  next
    case False
    have "madd st ! k = None" using k(2) by (rule m3_try_madd)
    with False i k(1) assms(1) show ?thesis
      by (simp add: m3_refused_def m3_try_other)
  qed
qed

text \<open>The scan ends at the terminator at the latest, and has then tried every segment.\<close>

lemma m3_scan_inv:
  assumes "a0 = es @ z # gs" and "nonempty es" and "m_size z = 0"
    and "m3_inv sizes a0 bp st" and "bp \<le> length es" and "m3_refused sizes bp st"
  shows "\<exists>st' bp'. m3_scan sizes bp st = Inr st' \<and> m3_inv sizes a0 bp' st' \<and> bp' \<le> length es
           \<and> (found st' = 3 \<or> bp' = length es \<and> m3_refused sizes bp' st')"
  using assms(4-6)
proof (induction "length es - bp" arbitrary: bp st)
  case 0
  then have bp: "bp = length es" by simp
  have "m3_map st ! bp = a0 ! bp" using 0 assms(1) by (intro m3_inv_beyond) auto
  then have "m3_scan sizes bp st = Inr st"
    using 0 assms(1,3) bp by (subst m3_scan.simps) (simp add: m3_inv_def)
  with 0 bp show ?case by blast
next
  case (Suc k)
  then have lt: "bp < length es" by simp
  have at: "m3_map st ! bp = es ! bp"
    using Suc.prems assms(1) lt m3_inv_beyond [OF Suc.prems(1)] by (simp add: nth_append)
  then have nz: "m_size (m3_map st ! bp) \<noteq> 0" using assms(2) lt by simp
  let ?st = "m3_try sizes bp [0, 1, 2] st"
  have iv: "m3_inv sizes a0 (Suc bp) st" by (rule m3_inv_Suc [OF Suc.prems(1) nz])
  then have inv: "m3_inv sizes a0 (Suc bp) ?st"
    using lt assms(1) m3_inv_remap [OF iv] by (intro m3_try_inv) auto
  have bpl: "bp < length (m3_map st)" using Suc.prems lt assms(1) by (simp add: m3_inv_def)
  have step: "m3_scan sizes bp st = (if found ?st = 3 then Inr ?st else m3_scan sizes (Suc bp) ?st)"
    using nz bpl by (subst m3_scan.simps) (simp add: Let_def)
  show ?case
  proof (cases "found ?st = 3")
    case True
    with step inv lt show ?thesis by auto
  next
    case False
    have "k = length es - Suc bp" using Suc.hyps(2) by simp
    have "m3_refused sizes (Suc bp) ?st"
      using Suc.prems bpl False by (intro m3_refused_try) (simp_all add: m3_inv_def)
    from Suc.hyps(1) [OF \<open>k = _\<close> inv _ this] lt step False show ?thesis by auto
  qed
qed

text \<open>The loops that follow the scan.\<close>

lemma m3_restore_nth:
  assumes "i < length a" and "\<forall>nx \<in> set nxs. \<forall>j. md ! nx = Some j \<longrightarrow> j < length a"
  shows "m3_restore sizes md nxs a ! i =
     (a ! i)\<lparr>m_size := m_size (a ! i) + (\<Sum>nx \<leftarrow> nxs. if md ! nx = Some i then sizes ! nx else 0)\<rparr>"
  using assms
proof (induction nxs arbitrary: a)
  case Nil
  then show ?case by simp
next
  case (Cons nx nxs)
  then show ?case
    by (cases "md ! nx") (simp_all add: nth_list_update add.assoc)
qed

lemma length_m3_restore [simp]: "length (m3_restore sizes md nxs a) = length a"
  by (induction sizes md nxs a rule: m3_restore.induct) (auto split: option.splits)

lemma upt_3: "[0..<3] = [0, 1, 2 :: nat]"
  by (simp add: upt_rec)

lemma word_sum_taken: "of_nat (taken sizes md i) = (\<Sum>nx \<leftarrow> [0, 1, 2]. if md ! nx = Some i then sizes ! nx else 0)"
  by (simp add: taken_def numeral_3_eq_3 numeral_2_eq_2)

lemma mapent_sizeI: fixes e f :: mapent shows "s = m_size f \<Longrightarrow> m_addr e = m_addr f \<Longrightarrow> e\<lparr>m_size := s\<rparr> = f"
  by (cases e, cases f) simp

lemma upt_3_mem: "nx \<in> set [0, 1, 2] \<Longrightarrow> nx < (3 :: nat)"
  by auto

lemma m3_restore_inv:
  assumes "m3_inv sizes a0 bp st" and "bp \<le> length a0"
  shows "m3_restore sizes (madd st) [0, 1, 2] (m3_map st) = a0"
proof (rule nth_equalityI)
  show "length (m3_restore sizes (madd st) [0, 1, 2] (m3_map st)) = length a0"
    using assms by (simp add: m3_inv_def del: m3_restore.simps)
  fix i assume "i < length (m3_restore sizes (madd st) [0, 1, 2] (m3_map st))"
  then have i: "i < length a0" "i < length (m3_map st)" using assms by (simp_all add: m3_inv_def del: m3_restore.simps)
  have sz: "m_size (m3_map st ! i) + of_nat (taken sizes (madd st) i) = m_size (a0 ! i)"
  proof -
    have "unat (m_size (m3_map st ! i)) + taken sizes (madd st) i = unat (m_size (a0 ! i))"
      using assms i by (simp add: m3_inv_def)
    from arg_cong [OF this, of "of_nat :: nat \<Rightarrow> u32"] show ?thesis by simp
  qed
  have bnd: "\<forall>nx < 3. \<forall>j. madd st ! nx = Some j \<longrightarrow> j < bp" and len: "length (m3_map st) = length a0"
    and addr: "m_addr (m3_map st ! i) = m_addr (a0 ! i)"
    using assms i by (simp_all add: m3_inv_def)
  have "\<forall>nx \<in> set [0, 1, 2]. \<forall>j. madd st ! nx = Some j \<longrightarrow> j < length (m3_map st)"
    unfolding len using bnd assms(2) by (meson less_le_trans upt_3_mem)
  from m3_restore_nth [OF i(2) this] sz addr
  show "m3_restore sizes (madd st) [0, 1, 2] (m3_map st) ! i = a0 ! i"
    by (simp only: word_sum_taken mapent_sizeI)
qed

lemma m3_compact_live:
  assumes "m_addr z = 0" and "junk \<noteq> []" and "\<forall>e \<in> set ys. m_addr e \<noteq> 0"
  shows "\<exists>gs'. m3_compact (ps @ junk @ ys @ z # gs) (length ps) (length ps + length junk) =
           Inr (ps @ filter (\<lambda>e. m_size e \<noteq> 0) ys @ z # gs')"
  using assms(2,3)
proof (induction ys arbitrary: ps junk)
  case Nil
  then obtain x xs where [simp]: "junk = x # xs" by (cases junk) auto
  from assms(1) show ?case by (subst m3_compact.simps) (simp add: nth_append list_update_append)
next
  case (Cons y ys)
  then obtain x xs where junk: "junk = x # xs" by (cases junk) auto
  show ?case
  proof (cases "m_size y = 0")
    case True
    with Cons.IH [of "junk @ [y]" ps] Cons.prems show ?thesis
      by (subst m3_compact.simps) (simp add: nth_append)
  next
    case False
    with Cons.IH [of "xs @ [y]" "ps @ [y]"] Cons.prems show ?thesis
      by (subst m3_compact.simps) (simp add: junk nth_append list_update_append Let_def)
  qed
qed

lemma m3_compact_length: "m3_compact a rm bp = Inr a' \<Longrightarrow> length a' = length a"
proof (induction a rm bp rule: m3_compact.induct)
  case (1 a rm bp)
  then show ?case
    by (subst (asm) m3_compact.simps) (auto simp: Let_def split: if_splits)
qed

text \<open>Taking \<open>t\<close> units from the front of a segment, for every segment of a list.\<close>

definition shrink :: "mapent \<Rightarrow> u32 \<Rightarrow> mapent" where
  "shrink e t = \<lparr>m_size = m_size e - t, m_addr = m_addr e + t\<rparr>"

lemma shrink_units:
  assumes "t \<le> m_size e" and "hi e < 2 ^ 32"
  shows "lo (shrink e t) = lo e + unat t" and "hi (shrink e t) = hi e"
proof -
  have t: "unat t \<le> unat (m_size e)" using assms(1) by (simp add: word_le_nat_alt)
  show "lo (shrink e t) = lo e + unat t"
    using t assms(2) by (simp add: shrink_def unat_add_no_wrap)
  then show "hi (shrink e t) = hi e"
    using assms(1) t by (simp add: shrink_def unat_sub_le word_le_nat_alt)
qed

lemma segs_nth:
  assumes "segs_ok es" and "i < length es"
  shows "m_size (es ! i) \<noteq> 0" and "m_addr (es ! i) \<noteq> 0" and "hi (es ! i) < 2 ^ 32"
  using assms by (simp_all add: segs_ok_def)

lemma segs_less:
  assumes "segs_ok es" and "i < j" and "j < length es"
  shows "hi (es ! i) < lo (es ! j)"
  using assms by (simp add: segs_ok_def sorted_wrt_iff_nth_less)

lemma segs_index:
  assumes "segs_ok es" and "i < length es" and "j < length es"
    and "lo (es ! i) \<le> x" and "x < hi (es ! i)" and "lo (es ! j) \<le> x" and "x < hi (es ! j)"
  shows "i = j"
proof (rule ccontr)
  assume "i \<noteq> j"
  then consider "i < j" | "j < i" by linarith
  then show False
  proof cases
    case 1
    from segs_less [OF assms(1) 1 assms(3)] assms show False by linarith
  next
    case 2
    from segs_less [OF assms(1) 2 assms(2)] assms show False by linarith
  qed
qed

lemma units_nth: "x \<in> units es \<longleftrightarrow> (\<exists>i < length es. lo (es ! i) \<le> x \<and> x < hi (es ! i))"
  unfolding units_def by (fastforce simp: in_set_conv_nth)

lemma units_map: "x \<in> units (map f [0..<n]) \<longleftrightarrow> (\<exists>i < n. lo (f i) \<le> x \<and> x < hi (f i))"
  unfolding units_def by auto

definition shrunk :: "mapent list \<Rightarrow> (nat \<Rightarrow> u32) \<Rightarrow> mapent list" where
  "shrunk es ts = map (\<lambda>i. shrink (es ! i) (ts i)) [0..<length es]"

lemma shrunk_segs:
  assumes ok: "segs_ok es" and ts: "\<forall>i < length es. ts i \<le> m_size (es ! i)"
  shows "segs_ok (filter (\<lambda>e. m_size e \<noteq> 0) (shrunk es ts))"
proof -
  have a: "lo (shrink (es ! i) (ts i)) = lo (es ! i) + unat (ts i) \<and> hi (shrink (es ! i) (ts i)) = hi (es ! i)"
    if "i < length es" for i
    using shrink_units [of "ts i" "es ! i"] ts segs_nth(3) [OF ok that] that by simp
  have nz: "m_addr (shrink (es ! i) (ts i)) \<noteq> 0" if "i < length es" for i
  proof -
    have "0 < lo (es ! i)" using segs_nth(2) [OF ok that] by (simp add: unat_gt_0)
    then have "lo (shrink (es ! i) (ts i)) \<noteq> 0" using a [OF that] by simp
    then show ?thesis by auto
  qed
  have "sorted_wrt (\<lambda>e f. hi e < lo f) (shrunk es ts)"
    unfolding sorted_wrt_iff_nth_less
  proof (intro allI impI)
    fix i j assume ij: "i < j" "j < length (shrunk es ts)"
    then have "i < length es" "j < length es" by (simp_all add: shrunk_def)
    with a [of i] a [of j] segs_less [OF ok ij(1)] show "hi (shrunk es ts ! i) < lo (shrunk es ts ! j)"
      by (simp add: shrunk_def del: add_less_cancel_left)
  qed
  then have "sorted_wrt (\<lambda>e f. hi e < lo f) (filter (\<lambda>e. m_size e \<noteq> 0) (shrunk es ts))"
    by (rule sorted_wrt_filter)
  moreover have "m_addr e \<noteq> 0 \<and> hi e < 2 ^ 32" if "e \<in> set (shrunk es ts)" for e
  proof -
    from that obtain i where i: "i < length es" "e = shrink (es ! i) (ts i)" by (auto simp: shrunk_def)
    show ?thesis using nz [OF i(1)] a [OF i(1)] segs_nth(3) [OF ok i(1)] unfolding i(2) by linarith
  qed
  ultimately show ?thesis by (simp add: segs_ok_def)
qed

lemma shrunk_units:
  assumes ok: "segs_ok es" and ts: "\<forall>i < length es. ts i \<le> m_size (es ! i)"
  shows "units (filter (\<lambda>e. m_size e \<noteq> 0) (shrunk es ts)) =
           units es - (\<Union>i < length es. extent (m_addr (es ! i)) (ts i))"
proof -
  have a: "lo (shrink (es ! i) (ts i)) = lo (es ! i) + unat (ts i) \<and> hi (shrink (es ! i) (ts i)) = hi (es ! i)"
    and le: "unat (ts i) \<le> unat (m_size (es ! i))" if "i < length es" for i
    using shrink_units [of "ts i" "es ! i"] ts segs_nth(3) [OF ok that] that by (simp_all add: word_le_nat_alt)
  have "units (filter (\<lambda>e. m_size e \<noteq> 0) (shrunk es ts)) = units (shrunk es ts)"
    by (auto simp: units_def)
  also have "\<dots> = {x. \<exists>i < length es. lo (es ! i) + unat (ts i) \<le> x \<and> x < hi (es ! i)}"
    unfolding shrunk_def set_eq_iff units_map mem_Collect_eq using a by metis
  also have "\<dots> = units es - (\<Union>i < length es. extent (m_addr (es ! i)) (ts i))" (is "?L = ?R")
  proof (intro set_eqI iffI)
    fix x assume "x \<in> ?L"
    then obtain i where i: "i < length es" "lo (es ! i) + unat (ts i) \<le> x" "x < hi (es ! i)" by auto
    have "x \<notin> extent (m_addr (es ! j)) (ts j)" if "j < length es" for j
      using segs_index [OF ok i(1) that, of x] i le [OF that] by fastforce
    moreover have "x \<in> units es" unfolding units_nth using i by (intro exI [of _ i]) simp
    ultimately show "x \<in> ?R" by blast
  next
    fix x assume "x \<in> ?R"
    then obtain i where i: "i < length es" "lo (es ! i) \<le> x" "x < hi (es ! i)"
      and "x \<notin> extent (m_addr (es ! i)) (ts i)" by (auto simp: units_nth)
    then have "lo (es ! i) + unat (ts i) \<le> x" by simp
    with i show "x \<in> ?L" by blast
  qed
  finally show ?thesis .
qed


text \<open>The addresses that \<open>malloc3\<close> hands out, when all three slots have been found.\<close>

lemma m3_resolve_3:
  assumes "i < length a" and "j < length a" and "k < length a"
  shows "m3_resolve [d, s, u] [Some i, Some j, Some k] [0, 1, 2] a [] =
     (map (\<lambda>t. (a ! t)\<lparr>m_addr := m_addr (a ! t) + (if t = i then d else 0) + (if t = j then s else 0)
                 + (if t = k then u else 0)\<rparr>) [0..<length a],
      [m_addr (a ! i), m_addr (a ! j) + (if j = i then d else 0),
       m_addr (a ! k) + (if k = i then d else 0) + (if k = j then s else 0)])"
  using assms
  by (auto simp: Let_def nth_list_update intro!: nth_equalityI mapent.equality)

lemma taken_3: "taken [d, s, u] [Some i, Some j, Some k] t =
    (if t = i then unat d else 0) + (if t = j then unat s else 0) + (if t = k then unat u else 0)"
  by (simp add: taken_def numeral_3_eq_3 numeral_2_eq_2)

text \<open>The three areas lie one after the other at the front of the segments they come from.\<close>

lemma m3_extents:
  assumes ok: "segs_ok es" and ijk: "i < length es" "j < length es" "k < length es"
    and T: "\<And>t. T t = (if t = i then unat d else 0) + (if t = j then unat s else 0) + (if t = k then unat u else 0)"
    and fit: "\<And>t. t < length es \<Longrightarrow> T t \<le> unat (m_size (es ! t))"
  defines "A \<equiv> m_addr (es ! i)" and "B \<equiv> m_addr (es ! j) + (if j = i then d else 0)"
    and "C \<equiv> m_addr (es ! k) + (if k = i then d else 0) + (if k = j then s else 0)"
  shows "(\<Union>t < length es. {lo (es ! t)..<lo (es ! t) + T t}) = extent A d \<union> extent B s \<union> extent C u"
    and "extent A d \<inter> extent B s = {}" and "extent A d \<inter> extent C u = {}" and "extent B s \<inter> extent C u = {}"
    and "A \<noteq> 0" and "B \<noteq> 0" and "C \<noteq> 0"
proof -
  have hi: "hi (es ! t) < 2 ^ 32" "0 < lo (es ! t)" if "t < length es" for t
    using segs_nth [OF ok that] by (simp_all add: unat_gt_0)
  have w: "unat (x + y) = unat x + unat y" if "unat x + unat y < 2 ^ 32" for x y :: u32
    using that by (simp add: unat_add_no_wrap)
  have A: "unat A = lo (es ! i)" by (simp add: A_def)
  have B: "unat B = lo (es ! j) + (if j = i then unat d else 0)"
    using fit [OF ijk(2)] hi [OF ijk(2)] by (auto simp: B_def T intro!: w)
  have C1: "unat (m_addr (es ! k) + (if k = i then d else 0)) = lo (es ! k) + (if k = i then unat d else 0)"
    using fit [OF ijk(3)] hi [OF ijk(3)] by (auto simp: T intro!: w split: if_splits)
  have C: "unat C = lo (es ! k) + (if k = i then unat d else 0) + (if k = j then unat s else 0)"
    unfolding C_def C1 [symmetric] using fit [OF ijk(3)] hi [OF ijk(3)]
    by (subst w) (auto simp: T C1 split: if_splits)
  show "A \<noteq> 0" using A hi [OF ijk(1)] by auto
  show "B \<noteq> 0" using B hi [OF ijk(2)] by auto
  show "C \<noteq> 0" using C hi [OF ijk(3)] by auto
  have sep: "hi (es ! p) < lo (es ! q) \<or> hi (es ! q) < lo (es ! p)"
    if "p < length es" "q < length es" "p \<noteq> q" for p q
    using segs_less [OF ok] that by (meson linorder_neqE_nat)
  have "(\<Union>t < length es. {lo (es ! t)..<lo (es ! t) + T t}) = (\<Union>t \<in> {i, j, k}. {lo (es ! t)..<lo (es ! t) + T t})"
    using ijk by (auto simp: T split: if_splits)
  also have "\<dots> = extent A d \<union> extent B s \<union> extent C u"
    unfolding A B C T by (cases "i = j"; cases "i = k"; cases "j = k"; simp; auto)
  finally show "(\<Union>t < length es. {lo (es ! t)..<lo (es ! t) + T t}) = extent A d \<union> extent B s \<union> extent C u" .
  show "extent A d \<inter> extent B s = {}"
    using sep [OF ijk(1,2)] fit [OF ijk(1)] fit [OF ijk(2)] unfolding A B T by (cases "i = j") (auto split: if_splits)
  show "extent A d \<inter> extent C u = {}"
    using sep [OF ijk(1,3)] fit [OF ijk(1)] fit [OF ijk(3)] unfolding A C T by (cases "i = k") (auto split: if_splits)
  show "extent B s \<inter> extent C u = {}"
    using sep [OF ijk(2,3)] fit [OF ijk(2)] fit [OF ijk(3)] unfolding B C T by (cases "j = k") (auto split: if_splits)
qed

lemma card_full: "card {nx. nx < (3 :: nat) \<and> P nx} = 3 \<longleftrightarrow> (\<forall>nx < 3. P nx)"
proof
  assume "card {nx. nx < (3 :: nat) \<and> P nx} = 3"
  then have "{nx. nx < (3 :: nat) \<and> P nx} = {..<3}" by (intro card_subset_eq) auto
  then show "\<forall>nx < 3. P nx" by auto
next
  assume "\<forall>nx < 3. P nx"
  then have "{nx. nx < (3 :: nat) \<and> P nx} = {..<3}" by auto
  then show "card {nx. nx < (3 :: nat) \<and> P nx} = 3" by simp
qed

lemma list_3: "length xs = 3 \<Longrightarrow> xs = [xs ! 0, xs ! 1, xs ! 2]"
  by (auto simp: numeral_3_eq_3 numeral_2_eq_2 length_Suc_conv)

definition front :: "nat \<Rightarrow> nat \<Rightarrow> nat \<Rightarrow> u32 \<Rightarrow> u32 \<Rightarrow> u32 \<Rightarrow> nat \<Rightarrow> u32" where
  "front i j k d s u t = (if t = i then d else 0) + (if t = j then s else 0) + (if t = k then u else 0)"

lemma front_taken: "front i j k d s u t = of_nat (taken [d, s, u] [Some i, Some j, Some k] t)"
  by (simp add: front_def taken_3)

lemma m3_resolved:
  assumes inv: "m3_inv [d, s, u] a0 bp st" and a0: "a0 = es @ \<lparr>m_size = 0, m_addr = 0\<rparr> # gs" and bp: "bp \<le> length es"
    and md: "madd st = [Some i, Some j, Some k]"
  shows "fst (m3_resolve [d, s, u] (madd st) [0, 1, 2] (m3_map st) []) =
           shrunk es (front i j k d s u) @ \<lparr>m_size = 0, m_addr = 0\<rparr> # gs"
    and "i < length es" "j < length es" "k < length es"
    and "t < length es \<Longrightarrow> taken [d, s, u] (madd st) t \<le> unat (m_size (es ! t))"
    and "t < length es \<Longrightarrow> m_addr (m3_map st ! t) = m_addr (es ! t)"
    and "t < length es \<Longrightarrow> m_size (m3_map st ! t) = m_size (shrunk es (front i j k d s u) ! t)"
proof -
  have bnd: "\<forall>nx < 3. \<forall>i. madd st ! nx = Some i \<longrightarrow> i < bp" using inv by (simp add: m3_inv_def)
  show ijk: "i < length es" "j < length es" "k < length es"
    using bnd [rule_format, of 0 i] bnd [rule_format, of 1 j] bnd [rule_format, of 2 k] bp md by simp_all
  have len: "length (m3_map st) = length a0" using inv by (simp add: m3_inv_def)
  have ent: "m_addr (m3_map st ! t) = m_addr (a0 ! t)"
    "unat (m_size (m3_map st ! t)) + taken [d, s, u] (madd st) t = unat (m_size (a0 ! t))" if "t < length a0" for t
    using inv that by (simp_all add: m3_inv_def)
  show "t < length es \<Longrightarrow> taken [d, s, u] (madd st) t \<le> unat (m_size (es ! t))"
    using ent(2) [of t] a0 by (simp add: nth_append)
  show "t < length es \<Longrightarrow> m_addr (m3_map st ! t) = m_addr (es ! t)"
    using ent(1) [of t] a0 by (simp add: nth_append)
  have sz: "m_size (m3_map st ! t) = m_size (a0 ! t) - front i j k d s u t" if "t < length a0" for t
    using arg_cong [OF ent(2) [OF that], of "of_nat :: nat \<Rightarrow> u32"]
    by (simp add: front_taken md eq_diff_eq)
  show "t < length es \<Longrightarrow> m_size (m3_map st ! t) = m_size (shrunk es (front i j k d s u) ! t)"
    using sz [of t] a0 by (simp add: nth_append shrunk_def shrink_def)
  have "front i j k d s u t = 0" if "\<not> t < length es" for t
    using ijk that by (auto simp: front_def)
  then have tail: "m3_map st ! t = a0 ! t" if "\<not> t < length es" "t < length a0" for t
    using that ent(1) sz by (intro mapent.equality) simp_all
  have ijk': "i < length (m3_map st)" "j < length (m3_map st)" "k < length (m3_map st)" using ijk len a0 by simp_all
  have res: "fst (m3_resolve [d, s, u] (madd st) [0, 1, 2] (m3_map st) []) =
      map (\<lambda>t. (m3_map st ! t)\<lparr>m_addr := m_addr (m3_map st ! t) + front i j k d s u t\<rparr>) [0..<length a0]"
    unfolding md m3_resolve_3 [OF ijk'] len by (simp add: front_def add.assoc)
  show "fst (m3_resolve [d, s, u] (madd st) [0, 1, 2] (m3_map st) []) =
           shrunk es (front i j k d s u) @ \<lparr>m_size = 0, m_addr = 0\<rparr> # gs"
    unfolding res
  proof (rule nth_equalityI)
    show "length (map (\<lambda>t. (m3_map st ! t)\<lparr>m_addr := m_addr (m3_map st ! t) + front i j k d s u t\<rparr>) [0..<length a0]) =
        length (shrunk es (front i j k d s u) @ \<lparr>m_size = 0, m_addr = 0\<rparr> # gs)"
      using a0 by (simp add: shrunk_def)
    fix t assume "t < length (map (\<lambda>t. (m3_map st ! t)\<lparr>m_addr := m_addr (m3_map st ! t) + front i j k d s u t\<rparr>) [0..<length a0])"
    then have t: "t < length a0" by simp
    then have lhs: "map (\<lambda>t. (m3_map st ! t)\<lparr>m_addr := m_addr (m3_map st ! t) + front i j k d s u t\<rparr>) [0..<length a0] ! t =
        (m3_map st ! t)\<lparr>m_addr := m_addr (m3_map st ! t) + front i j k d s u t\<rparr>" by simp
    show "map (\<lambda>t. (m3_map st ! t)\<lparr>m_addr := m_addr (m3_map st ! t) + front i j k d s u t\<rparr>) [0..<length a0] ! t =
        (shrunk es (front i j k d s u) @ \<lparr>m_size = 0, m_addr = 0\<rparr> # gs) ! t"
    proof (cases "t < length es")
      case True
      then show ?thesis unfolding lhs using ent(1) [OF t] sz [OF t] a0
        by (intro mapent.equality) (simp_all add: nth_append shrunk_def shrink_def)
    next
      case False
      then have "front i j k d s u t = 0" using ijk by (auto simp: front_def)
      with False tail [OF False t] show ?thesis unfolding lhs using a0 by (simp add: nth_append shrunk_def)
    qed
  qed
qed

text \<open>The compaction: the entries that the three areas used up are removed.\<close>

lemma m3_compacted:
  assumes "r < length fs" and "m_size (fs ! r) = 0" and "\<forall>t < r. m_size (fs ! t) \<noteq> 0" and "\<forall>e \<in> set fs. m_addr e \<noteq> 0"
  shows "\<exists>gs'. m3_compact (fs @ \<lparr>m_size = 0, m_addr = 0\<rparr> # gs) r (Suc r) =
           Inr (filter (\<lambda>e. m_size e \<noteq> 0) fs @ \<lparr>m_size = 0, m_addr = 0\<rparr> # gs')"
proof -
  let ?z = "\<lparr>m_size = 0, m_addr = 0\<rparr> :: mapent"
  have fs: "fs = take r fs @ fs ! r # drop (Suc r) fs" using assms(1) by (rule id_take_nth_drop)
  have "\<forall>e \<in> set (drop (Suc r) fs). m_addr e \<noteq> 0" using assms(4) by (auto dest: in_set_dropD)
  from m3_compact_live [of ?z "[fs ! r]", OF _ _ this, of "take r fs" gs] assms(1)
  obtain gs' where c: "m3_compact (take r fs @ [fs ! r] @ drop (Suc r) fs @ ?z # gs) r (Suc r) =
      Inr (take r fs @ filter (\<lambda>e. m_size e \<noteq> 0) (drop (Suc r) fs) @ ?z # gs')" by auto
  have "filter (\<lambda>e. m_size e \<noteq> 0) (take r fs) = take r fs"
    using assms(1,3) by (auto simp: filter_id_conv in_set_conv_nth)
  then have flt: "filter (\<lambda>e. m_size e \<noteq> 0) fs = take r fs @ filter (\<lambda>e. m_size e \<noteq> 0) (drop (Suc r) fs)"
    using assms(2) by (subst fs) simp
  have arg: "take r fs @ [fs ! r] @ drop (Suc r) fs @ ?z # gs = fs @ ?z # gs"
    using arg_cong [OF fs, of "\<lambda>xs. xs @ ?z # gs"] by simp
  show ?thesis using c unfolding arg flt by auto
qed


lemma unat_less_2p32: "unat (w :: u32) < 2 ^ 32"
  using unsigned_less [of w] by simp

lemma m3_start:
  "m3_inv sizes a0 0 \<lparr>m3_map = a0, madd = [None, None, None], remap = None, found = 0\<rparr>"
  "m3_refused sizes 0 \<lparr>m3_map = a0, madd = [None, None, None], remap = None, found = 0\<rparr>"
proof -
  have N: "\<forall>nx < 3. [None, None, None] ! nx = (None :: nat option)"
    by (auto simp: numeral_3_eq_3 less_Suc_eq)
  then have "{nx. nx < (3 :: nat) \<and> [None, None, None] ! nx \<noteq> (None :: nat option)} = {}" by auto
  moreover have "taken sizes [None, None, None] i = 0" for i using N by (intro taken_0) auto
  ultimately show "m3_inv sizes a0 0 \<lparr>m3_map = a0, madd = [None, None, None], remap = None, found = 0\<rparr>"
    using N by (simp add: m3_inv_def)
qed (simp add: m3_refused_def)

text \<open>
  \<open>malloc3\<close> either places all three areas or changes nothing; it can only refuse when
  no single segment could hold the three.
\<close>

lemma shrunk_addr:
  assumes ok: "segs_ok es" and ts: "\<forall>t < length es. ts t \<le> m_size (es ! t)"
  shows "\<forall>e \<in> set (shrunk es ts). m_addr e \<noteq> 0"
proof
  fix e assume "e \<in> set (shrunk es ts)"
  then obtain i where i: "i < length es" "e = shrink (es ! i) (ts i)" by (auto simp: shrunk_def)
  have "0 < lo (es ! i)" using segs_nth(2) [OF ok i(1)] by (simp add: unat_gt_0)
  then have "lo e \<noteq> 0" using shrink_units(1) [of "ts i" "es ! i"] ts segs_nth(3) [OF ok i(1)] i by simp
  then show "m_addr e \<noteq> 0" by auto
qed

lemma m3_finish:
  assumes inv: "m3_inv [d, s, u] a0 bp st" and a0: "a0 = es @ \<lparr>m_size = 0, m_addr = 0\<rparr> # gs" and bp: "bp \<le> length es"
    and md: "madd st = [Some i, Some j, Some k]" and ne: "nonempty es"
    and addr: "\<forall>e \<in> set (shrunk es (front i j k d s u)). m_addr e \<noteq> 0"
  shows "\<exists>gs'. (case remap st of None \<Rightarrow> Inr (fst (m3_resolve [d, s, u] (madd st) [0, 1, 2] (m3_map st) []))
                | Some r \<Rightarrow> m3_compact (fst (m3_resolve [d, s, u] (madd st) [0, 1, 2] (m3_map st) [])) r (Suc r)) =
           Inr (filter (\<lambda>e. m_size e \<noteq> 0) (shrunk es (front i j k d s u)) @ \<lparr>m_size = 0, m_addr = 0\<rparr> # gs')
         \<and> length gs' + length (filter (\<lambda>e. m_size e \<noteq> 0) (shrunk es (front i j k d s u))) = length gs + length es"
proof (cases "remap st")
  case None
  note R = m3_resolved [OF inv a0 bp md]
  have "m_size (m3_map st ! t) \<noteq> 0" if "t < length es" for t
  proof (cases "t < bp")
    case True
    then show ?thesis using inv None by (simp add: m3_inv_def)
  next
    case False
    then show ?thesis using m3_inv_beyond [OF inv, of t] that a0 ne by (simp add: nth_append)
  qed
  then have "\<forall>e \<in> set (shrunk es (front i j k d s u)). m_size e \<noteq> 0"
    using R(7) by (auto simp: shrunk_def in_set_conv_nth)
  then have "filter (\<lambda>e. m_size e \<noteq> 0) (shrunk es (front i j k d s u)) = shrunk es (front i j k d s u)"
    by (simp add: filter_id_conv)
  then show ?thesis using None R(1) by (simp add: shrunk_def)
next
  case (Some r)
  note R = m3_resolved [OF inv a0 bp md]
  have r: "r < bp" "m_size (m3_map st ! r) = 0" "\<forall>t < r. m_size (m3_map st ! t) \<noteq> 0"
    using inv Some by (simp_all add: m3_inv_def)
  have "r < length (shrunk es (front i j k d s u))" using r bp by (simp add: shrunk_def)
  moreover have "m_size (shrunk es (front i j k d s u) ! r) = 0"
    "\<forall>t < r. m_size (shrunk es (front i j k d s u) ! t) \<noteq> 0"
    using r bp R(7) by auto
  ultimately obtain gs' where c: "m3_compact (shrunk es (front i j k d s u) @ \<lparr>m_size = 0, m_addr = 0\<rparr> # gs) r (Suc r) =
      Inr (filter (\<lambda>e. m_size e \<noteq> 0) (shrunk es (front i j k d s u)) @ \<lparr>m_size = 0, m_addr = 0\<rparr> # gs')"
    using m3_compacted addr by blast
  from m3_compact_length [OF c] have "length gs' + length (filter (\<lambda>e. m_size e \<noteq> 0) (shrunk es (front i j k d s u))) = length gs + length es"
    by (simp add: shrunk_def)
  with c show ?thesis using Some R(1) by auto
qed

lemma m3_out:
  assumes inv: "m3_inv [d, s, u] a0 bp st" and a0: "a0 = es @ \<lparr>m_size = 0, m_addr = 0\<rparr> # gs" and bp: "bp \<le> length es"
    and md: "madd st = [Some i, Some j, Some k]"
  shows "snd (m3_resolve [d, s, u] (madd st) [0, 1, 2] (m3_map st) []) =
     [m_addr (es ! i), m_addr (es ! j) + (if j = i then d else 0),
      m_addr (es ! k) + (if k = i then d else 0) + (if k = j then s else 0)]"
proof -
  note R = m3_resolved [OF inv a0 bp md]
  have "length (m3_map st) = length a0" using inv by (simp add: m3_inv_def)
  then have l: "i < length (m3_map st)" "j < length (m3_map st)" "k < length (m3_map st)" using R(2-4) a0 by simp_all
  show ?thesis unfolding md m3_resolve_3 [OF l] snd_conv
    using R(6) [of i] R(6) [of j] R(6) [of k] R(2-4) by simp
qed

lemma malloc3_placed:
  assumes ok: "rmap_ok mp" and inv: "m3_inv [d, s, u] (m_map mp) bp st" and bp: "bp \<le> length (live mp)"
    and scan: "m3_scan [d, s, u] 0 \<lparr>m3_map = m_map mp, madd = [None, None, None], remap = None, found = 0\<rparr> = Inr st"
    and found: "found st = 3"
  shows "\<exists>a b c mp'. malloc3 mp d s u = Inr (c, Some [a, b, c], mp') \<and> rmap_ok mp'
     \<and> a \<noteq> 0 \<and> b \<noteq> 0 \<and> c \<noteq> 0
     \<and> extent a d \<inter> extent b s = {} \<and> extent a d \<inter> extent c u = {} \<and> extent b s \<inter> extent c u = {}
     \<and> extent a d \<union> extent b s \<union> extent c u \<subseteq> avail mp
     \<and> avail mp' = avail mp - (extent a d \<union> extent b s \<union> extent c u)
     \<and> length (m_map mp') = length (m_map mp) \<and> m_limit mp' = m_limit mp"
proof -
  let ?z = "\<lparr>m_size = 0, m_addr = 0\<rparr> :: mapent" and ?nz = "\<lambda>e :: mapent. m_size e \<noteq> 0"
  define es gs where "es = live mp" and "gs = drop (Suc (length (live mp))) (m_map mp)"
  have map: "m_map mp = es @ ?z # gs" and so: "segs_ok es"
    using rmap_ok_shape [OF ok] ok by (simp_all add: mshape_def es_def gs_def rmap_ok_def)
  have "\<forall>nx < 3. madd st ! nx \<noteq> None" using inv found card_full by (simp add: m3_inv_def)
  moreover have l3: "length (madd st) = 3" using inv by (simp add: m3_inv_def)
  ultimately obtain i j k where md: "madd st = [Some i, Some j, Some k]"
    using list_3 [OF l3] by (metis not_None_eq numeral_3_eq_3 numeral_2_eq_2 One_nat_def lessI less_Suc_eq zero_less_Suc)
  define ts where "ts = front i j k d s u"
  note R = m3_resolved [OF inv map bp [folded es_def] md]
  have tk: "unat (ts t) = taken [d, s, u] (madd st) t" "ts t \<le> m_size (es ! t)" if "t < length es" for t
  proof -
    have "taken [d, s, u] (madd st) t \<le> unat (m_size (es ! t))" using R(5) [OF that] .
    moreover from this have "taken [d, s, u] (madd st) t < 2 ^ 32" by (rule le_less_trans) (rule unat_less_2p32)
    ultimately show "unat (ts t) = taken [d, s, u] (madd st) t" by (simp add: ts_def front_taken md unat_of_nat)
    with \<open>taken [d, s, u] (madd st) t \<le> _\<close> show "ts t \<le> m_size (es ! t)" by (simp add: word_le_nat_alt)
  qed
  have tk': "\<forall>t < length es. ts t \<le> m_size (es ! t)" using tk(2) by simp
  have ex: "extent (m_addr (es ! t)) (ts t) = {lo (es ! t)..<lo (es ! t) + taken [d, s, u] (madd st) t}" if "t < length es" for t
    using tk(1) [OF that] by simp
  define a b c where "a = m_addr (es ! i)" and "b = m_addr (es ! j) + (if j = i then d else 0)"
    and "c = m_addr (es ! k) + (if k = i then d else 0) + (if k = j then s else 0)"
  note X = m3_extents [OF so R(2-4) taken_3, of d s u, folded md a_def b_def c_def, OF R(5)]
  have X1: "(\<Union>t < length es. {lo (es ! t)..<lo (es ! t) + taken [d, s, u] (madd st) t}) =
      extent a d \<union> extent b s \<union> extent c u"
    using X(1) by simp
  have "\<forall>e \<in> set (shrunk es ts). m_addr e \<noteq> 0" by (rule shrunk_addr [OF so tk'])
  moreover have "nonempty es" using so by (simp add: segs_ok_def)
  ultimately obtain gs' where fin: "(case remap st of None \<Rightarrow> Inr (fst (m3_resolve [d, s, u] (madd st) [0, 1, 2] (m3_map st) []))
                | Some r \<Rightarrow> m3_compact (fst (m3_resolve [d, s, u] (madd st) [0, 1, 2] (m3_map st) [])) r (Suc r)) =
           Inr (filter ?nz (shrunk es ts) @ ?z # gs')"
    and len: "length gs' + length (filter ?nz (shrunk es ts)) = length gs + length es"
    using m3_finish [OF inv map bp [folded es_def] md] unfolding ts_def by blast
  define mp' where "mp' = mp\<lparr>m_map := filter ?nz (shrunk es ts) @ ?z # gs'\<rparr>"
  have "mshape mp' (filter ?nz (shrunk es ts)) gs'" by (simp add: mshape_def mp'_def)
  then have ok': "rmap_ok mp'" and live': "live mp' = filter ?nz (shrunk es ts)"
    using shrunk_segs [OF so tk'] by (simp_all add: rmap_ok_mshape mshape_live)
  have U: "(\<Union>t < length es. extent (m_addr (es ! t)) (ts t)) = extent a d \<union> extent b s \<union> extent c u"
    unfolding X1 [symmetric] using ex by (intro SUP_cong) simp_all
  have av: "avail mp' = avail mp - (extent a d \<union> extent b s \<union> extent c u)"
    unfolding avail_def live' shrunk_units [OF so tk'] es_def [symmetric] U ..
  have sub: "extent a d \<union> extent b s \<union> extent c u \<subseteq> avail mp"
    unfolding avail_def es_def [symmetric] X1 [symmetric]
  proof
    fix x assume "x \<in> (\<Union>t < length es. {lo (es ! t)..<lo (es ! t) + taken [d, s, u] (madd st) t})"
    then obtain t where "t < length es" "lo (es ! t) \<le> x" "x < lo (es ! t) + taken [d, s, u] (madd st) t" by auto
    with R(5) [of t] show "x \<in> units es" unfolding units_nth by (intro exI [of _ t]) simp
  qed
  have "malloc3 mp d s u = Inr (c, Some [a, b, c], mp')"
    using scan found fin m3_out [OF inv map bp [folded es_def] md]
    by (auto simp: malloc3_def mp'_def a_def b_def c_def case_prod_unfold simp del: m3_resolve.simps split: option.splits)
  then show ?thesis using ok' av sub X len by (auto simp: mp'_def map)
qed

lemma taken_None:
  assumes "k < 3" and "md ! k = None"
  shows "unat (sizes ! k) + taken sizes md i \<le> (\<Sum>nx < 3. unat (sizes ! nx))"
proof -
  have "(\<Sum>nx < 3. (if nx = k then unat (sizes ! k) else 0) + (if md ! nx = Some i then unat (sizes ! nx) else 0))
      \<le> (\<Sum>nx < 3. unat (sizes ! nx))"
    using assms by (intro sum_mono) auto
  then show ?thesis using assms(1) by (simp add: taken_def sum.distrib)
qed

lemma malloc3_refused:
  assumes ok: "rmap_ok mp" and inv: "m3_inv [d, s, u] (m_map mp) (length (live mp)) st"
    and scan: "m3_scan [d, s, u] 0 \<lparr>m3_map = m_map mp, madd = [None, None, None], remap = None, found = 0\<rparr> = Inr st"
    and found: "found st \<noteq> 3" and ref: "m3_refused [d, s, u] (length (live mp)) st"
  shows "malloc3 mp d s u = Inr (0, None, mp)"
    and "\<forall>e \<in> set (live mp). unat (m_size e) < unat d + unat s + unat u"
proof -
  have map: "m_map mp = live mp @ \<lparr>m_size = 0, m_addr = 0\<rparr> # drop (Suc (length (live mp))) (m_map mp)"
    using rmap_ok_shape [OF ok] by (simp add: mshape_def)
  have "length (live mp) \<le> length (m_map mp)" by (subst map) simp
  from m3_restore_inv [OF inv this] scan found show "malloc3 mp d s u = Inr (0, None, mp)"
    by (simp add: malloc3_def del: m3_restore.simps)
  obtain k where k: "k < 3" "madd st ! k = None"
    using inv found card_full [of "\<lambda>nx. madd st ! nx \<noteq> None"] unfolding m3_inv_def by auto
  have "unat (m_size (live mp ! i)) < unat d + unat s + unat u" if i: "i < length (live mp)" for i
  proof -
    have "i < length (m_map mp)" using i by (subst map) simp
    moreover have "m_map mp ! i = live mp ! i" by (subst map) (simp add: nth_append i)
    ultimately have "unat (m_size (m3_map st ! i)) + taken [d, s, u] (madd st) i = unat (m_size (live mp ! i))"
      using inv by (simp add: m3_inv_def)
    moreover have "unat (m_size (m3_map st ! i)) < unat ([d, s, u] ! k)"
      using ref k i by (simp add: m3_refused_def word_less_nat_alt)
    ultimately show ?thesis using taken_None [OF k, of "[d, s, u]" i]
      by (simp add: numeral_3_eq_3 numeral_2_eq_2)
  qed
  then show "\<forall>e \<in> set (live mp). unat (m_size e) < unat d + unat s + unat u"
    by (auto simp: in_set_conv_nth)
qed

lemma malloc3_spec:
  assumes ok: "rmap_ok mp"
  shows "malloc3 mp d s u = Inr (0, None, mp) \<and> (\<forall>e \<in> set (live mp). unat (m_size e) < unat d + unat s + unat u)
   \<or> (\<exists>a b c mp'. malloc3 mp d s u = Inr (c, Some [a, b, c], mp') \<and> rmap_ok mp'
     \<and> a \<noteq> 0 \<and> b \<noteq> 0 \<and> c \<noteq> 0
     \<and> extent a d \<inter> extent b s = {} \<and> extent a d \<inter> extent c u = {} \<and> extent b s \<inter> extent c u = {}
     \<and> extent a d \<union> extent b s \<union> extent c u \<subseteq> avail mp
     \<and> avail mp' = avail mp - (extent a d \<union> extent b s \<union> extent c u)
     \<and> length (m_map mp') = length (m_map mp) \<and> m_limit mp' = m_limit mp)"
proof -
  let ?z = "\<lparr>m_size = 0, m_addr = 0\<rparr> :: mapent"
  have map: "m_map mp = live mp @ ?z # drop (Suc (length (live mp))) (m_map mp)" and "nonempty (live mp)"
    using rmap_ok_shape [OF ok] by (simp_all add: mshape_def)
  from m3_scan_inv [OF map this(2) _ m3_start(1) _ m3_start(2), of "[d, s, u]"]
  obtain st bp where scan: "m3_scan [d, s, u] 0 \<lparr>m3_map = m_map mp, madd = [None, None, None], remap = None, found = 0\<rparr> = Inr st"
    and inv: "m3_inv [d, s, u] (m_map mp) bp st" and bp: "bp \<le> length (live mp)"
    and fin: "found st = 3 \<or> bp = length (live mp) \<and> m3_refused [d, s, u] bp st" by auto
  show ?thesis
  proof (cases "found st = 3")
    case True
    from malloc3_placed [OF ok inv bp scan True] show ?thesis by blast
  next
    case False
    with fin inv have "m3_inv [d, s, u] (m_map mp) (length (live mp)) st" "m3_refused [d, s, u] (length (live mp)) st"
      by auto
    from malloc3_refused [OF ok this(1) scan False this(2)] show ?thesis by blast
  qed
qed

subsection \<open>Sessions of a client, and the properties\<close>

lemma avail_bound: "rmap_ok mp \<Longrightarrow> x \<in> avail mp \<Longrightarrow> Suc x < 2 ^ 32"
  by (fastforce simp: rmap_ok_def avail_def units_def segs_ok_def)

lemma extent_bound:
  assumes "rmap_ok mp" and "extent addr sz \<subseteq> avail mp" and "sz \<noteq> 0"
  shows "unat addr + unat sz < 2 ^ 32"
proof -
  have "0 < unat sz" using assms(3) by (simp add: unat_gt_0)
  then have "unat addr + unat sz - 1 \<in> extent addr sz" by auto
  with assms(2) have "unat addr + unat sz - 1 \<in> avail mp" by blast
  from avail_bound [OF assms(1) this] \<open>0 < unat sz\<close> show ?thesis by simp
qed

lemma ledger_Cons:
  assumes "ledger F held" and "held_ok F' (addr, sz)" and "F' \<subseteq> F" and "extent addr sz \<subseteq> F"
  shows "ledger F' ((addr, sz) # held)"
proof -
  have "apart (addr, sz) p \<and> held_ok F' p" if "p \<in> set held" for p
    using assms(1,3,4) that unfolding ledger_def held_ok_def apart_def fst_conv snd_conv by blast
  then show ?thesis using assms(1,2) by (simp add: ledger_def)
qed

lemma malloc3_ledger:
  assumes ok: "pool_ok mp" and sz: "d \<noteq> 0" "s \<noteq> 0" "u \<noteq> 0"
    and call: "malloc3 mp d s u = Inr (c, Some [a, b, c'], mp')" and led: "ledger (avail mp) held"
  shows "pool_ok mp' \<and> ledger (avail mp') ((a, d) # (b, s) # (c', u) # held)
    \<and> avail mp' \<union> owned ((a, d) # (b, s) # (c', u) # held) = avail mp \<union> owned held"
proof -
  have rok: "rmap_ok mp" using ok by (simp add: pool_ok_def)
  from malloc3_spec [OF rok, of d s u] call have
    m: "rmap_ok mp'" "a \<noteq> 0" "b \<noteq> 0" "c' \<noteq> 0" "length (m_map mp') = length (m_map mp)" "m_limit mp' = m_limit mp"
    and dis: "extent a d \<inter> extent b s = {}" "extent a d \<inter> extent c' u = {}" "extent b s \<inter> extent c' u = {}"
    and sub: "extent a d \<subseteq> avail mp" "extent b s \<subseteq> avail mp" "extent c' u \<subseteq> avail mp"
    and av: "avail mp' = avail mp - (extent a d \<union> extent b s \<union> extent c' u)" by auto
  note bd = extent_bound [OF rok sub(1) sz(1)] extent_bound [OF rok sub(2) sz(2)] extent_bound [OF rok sub(3) sz(3)]
  have 1: "ledger (avail mp - extent c' u) ((c', u) # held)"
    using led sub m sz bd by (intro ledger_Cons [of "avail mp"]) (auto simp: held_ok_def)
  have 2: "ledger (avail mp - extent c' u - extent b s) ((b, s) # (c', u) # held)"
    using 1 sub dis m sz bd by (intro ledger_Cons [OF 1]) (unfold held_ok_def fst_conv snd_conv, blast+)
  have "ledger (avail mp - extent c' u - extent b s - extent a d) ((a, d) # (b, s) # (c', u) # held)"
    using 2 sub dis m sz bd by (intro ledger_Cons [OF 2]) (unfold held_ok_def fst_conv snd_conv, blast+)
  moreover have "avail mp - extent c' u - extent b s - extent a d = avail mp'" unfolding av by blast
  moreover have "avail mp' \<union> owned ((a, d) # (b, s) # (c', u) # held) = avail mp \<union> owned held"
    unfolding av owned_def using sub by (simp only: list.set UN_insert case_prod_conv) blast
  ultimately show ?thesis using m ok by (simp add: pool_ok_def)
qed

lemma malloc3_returns: "pool_ok mp \<Longrightarrow> \<exists>r. malloc3 mp d s u = Inr r"
  using malloc3_spec [of mp d s u] unfolding pool_ok_def by blast

text \<open>
  The states a client can reach by calling \<open>malloc\<close> and \<open>malloc3\<close> with sizes that are not
  0 and by handing ranges it holds back to \<open>mfree\<close>; \<open>held\<close> are the ranges it holds.
\<close>

inductive swap_run :: "rmap \<Rightarrow> rmap \<Rightarrow> (u32 \<times> u32) list \<Rightarrow> bool" for mp0 where
  start: "swap_run mp0 mp0 []"
| got: "swap_run mp0 mp held \<Longrightarrow> sz \<noteq> 0 \<Longrightarrow> malloc mp sz = Inr (addr, mp') \<Longrightarrow> addr \<noteq> 0 \<Longrightarrow>
     swap_run mp0 mp' ((addr, sz) # held)"
| nospace: "swap_run mp0 mp held \<Longrightarrow> sz \<noteq> 0 \<Longrightarrow> malloc mp sz = Inr (0, mp') \<Longrightarrow> swap_run mp0 mp' held"
| got3: "swap_run mp0 mp held \<Longrightarrow> d \<noteq> 0 \<Longrightarrow> s \<noteq> 0 \<Longrightarrow> u \<noteq> 0 \<Longrightarrow>
     malloc3 mp d s u = Inr (c, Some [a, b, c'], mp') \<Longrightarrow>
     swap_run mp0 mp' ((a, d) # (b, s) # (c', u) # held)"
| nospace3: "swap_run mp0 mp held \<Longrightarrow> malloc3 mp d s u = Inr (c, None, mp') \<Longrightarrow> swap_run mp0 mp' held"
| freed: "swap_run mp0 mp held \<Longrightarrow> (addr, sz) \<in> set held \<Longrightarrow> mfree mp sz addr = Inr mp' \<Longrightarrow>
     swap_run mp0 mp' (remove1 (addr, sz) held)"

text \<open>C12: In every state reached from a well-formed map whose limit is a slot of its array, the
  map is well formed, the ranges handed out are pairwise disjoint and disjoint from the free
  units, no unit appears that was not free at the start, and every further \<open>malloc\<close>,
  \<open>malloc3\<close> and \<open>mfree\<close> of a held range returns (no panic, no access outside the array).\<close>

theorem swap_run_safe:
  assumes "swap_run mp0 mp held" and "rmap_ok mp0" and "m_limit mp0 < length (m_map mp0)"
  shows "rmap_ok mp \<and> ledger (avail mp) held \<and> avail mp \<union> owned held \<subseteq> avail mp0
    \<and> (\<forall>sz. sz \<noteq> 0 \<longrightarrow> (\<exists>r. malloc mp sz = Inr r))
    \<and> (\<forall>d s u. \<exists>r. malloc3 mp d s u = Inr r)
    \<and> (\<forall>(addr, sz) \<in> set held. \<exists>mp'. mfree mp sz addr = Inr mp')"
proof -
  have "pool_ok mp \<and> ledger (avail mp) held \<and> avail mp \<union> owned held \<subseteq> avail mp0"
    using assms(1)
  proof (induction rule: swap_run.induct)
    case start
    with assms(2,3) show ?case by (simp add: pool_ok_def owned_def)
  next
    case (got mp held sz addr mp')
    then show ?case using swap.acquire_ledger [of mp sz addr mp' held] by blast
  next
    case (nospace mp held sz mp')
    then show ?case using swap.acquire_fails [of mp sz mp'] by blast
  next
    case (got3 mp held d s u c a b c' mp')
    then show ?case using malloc3_ledger [of mp d s u c a b c' mp' held] by blast
  next
    case (nospace3 mp held d s u c mp')
    then show ?case using malloc3_spec [of mp d s u] by (auto simp: pool_ok_def)
  next
    case (freed mp held addr sz mp')
    then show ?case using swap.giveback_ledger [of mp addr sz held mp'] by blast
  qed
  then show ?thesis
    using swap.acquire_returns [of mp] swap.giveback_held [of mp held] malloc3_returns [of mp] by (auto simp: pool_ok_def)
qed

subsubsection \<open>A map with one segment of 40 units, and one with no room for a new segment\<close>

definition map_example :: rmap where
  "map_example = \<lparr>m_map = [\<lparr>m_size = 40, m_addr = 10\<rparr>, \<lparr>m_size = 0, m_addr = 0\<rparr>, \<lparr>m_size = 0, m_addr = 0\<rparr>, \<lparr>m_size = 0, m_addr = 0\<rparr>],
     m_limit = 3, m_name = ''swapmap''\<rparr>"

definition map_example' :: rmap where
  "map_example' = \<lparr>m_map = [\<lparr>m_size = 5, m_addr = 45\<rparr>, \<lparr>m_size = 0, m_addr = 0\<rparr>, \<lparr>m_size = 0, m_addr = 0\<rparr>, \<lparr>m_size = 0, m_addr = 0\<rparr>],
     m_limit = 3, m_name = ''swapmap''\<rparr>"

lemma map_example_ok: "rmap_ok map_example" "m_limit map_example < length (m_map map_example)"
  by (simp_all add: map_example_def rmap_ok_def live_def segs_ok_def)

lemma map_example_malloc3: "malloc3 map_example 20 10 5 = Inr (40, Some [10, 30, 40], map_example')"
  by code_simp

definition map_full :: rmap where
  "map_full = \<lparr>m_map = [\<lparr>m_size = 4, m_addr = 10\<rparr>, \<lparr>m_size = 4, m_addr = 20\<rparr>, \<lparr>m_size = 0, m_addr = 0\<rparr>],
     m_limit = 3, m_name = ''swapmap''\<rparr>"

lemma map_full_ok: "rmap_ok map_full" "length (live map_full) = 2"
  by (simp_all add: map_full_def rmap_ok_def live_def segs_ok_def)

lemma map_example_run: "swap_run map_example map_example' [(10, 20), (30, 10), (40, 5)]"
  by (rule swap_run.got3 [OF swap_run.start _ _ _ map_example_malloc3]) simp_all

theorem swap_run_safe_witness: "swap_run map_example map_example' [(10, 20), (30, 10), (40, 5)]
    \<and> rmap_ok map_example' \<and> ledger (avail map_example') [(10, 20), (30, 10), (40, 5)]"
  using swap_run_safe [OF map_example_run map_example_ok] map_example_run by blast

text \<open>C13: \<open>malloc3\<close> either places all three areas, disjoint and inside the free units, and
  takes exactly their units out of the map, or it leaves the map exactly as it was; it refuses
  only if no free segment could hold the three areas together. Areas of size 0 are allowed.\<close>

theorem malloc3_all_or_nothing:
  assumes "rmap_ok mp"
  shows "malloc3 mp d s u = Inr (0, None, mp) \<and> (\<forall>e \<in> set (live mp). unat (m_size e) < unat d + unat s + unat u)
   \<or> (\<exists>a b c mp'. malloc3 mp d s u = Inr (c, Some [a, b, c], mp') \<and> rmap_ok mp'
     \<and> a \<noteq> 0 \<and> b \<noteq> 0 \<and> c \<noteq> 0
     \<and> extent a d \<inter> extent b s = {} \<and> extent a d \<inter> extent c u = {} \<and> extent b s \<inter> extent c u = {}
     \<and> extent a d \<union> extent b s \<union> extent c u \<subseteq> avail mp
     \<and> avail mp' = avail mp - (extent a d \<union> extent b s \<union> extent c u))"
  using malloc3_spec [OF assms, of d s u] by blast

theorem malloc3_all_or_nothing_witness: "rmap_ok map_example \<and> (\<exists>a b c mp'.
    malloc3 map_example 20 10 5 = Inr (c, Some [a, b, c], mp') \<and> rmap_ok mp')"
  using malloc3_all_or_nothing [OF map_example_ok(1), of 20 10 5] map_example_ok(1)
  by (auto simp: map_example_malloc3)

text \<open>C23: \<open>malloc\<close> is first fit: on a well-formed map it fails only if every free segment is
  smaller than the request, and then changes nothing; otherwise it returns the address of the
  first segment that is large enough, and the map loses exactly the units handed out.\<close>

theorem malloc_first_fit:
  assumes "rmap_ok mp" and "sz \<noteq> 0"
  shows "if \<forall>e \<in> set (live mp). m_size e < sz then malloc mp sz = Inr (0, mp)
    else \<exists>mp'. malloc mp sz = Inr (m_addr (hd (dropWhile (\<lambda>e. m_size e < sz) (live mp))), mp') \<and> rmap_ok mp'
      \<and> (let a = m_addr (hd (dropWhile (\<lambda>e. m_size e < sz) (live mp)))
          in a \<noteq> 0 \<and> extent a sz \<subseteq> avail mp \<and> avail mp' = avail mp - extent a sz)"
proof -
  have sh: "mshape mp (live mp) (drop (Suc (length (live mp))) (m_map mp))" by (rule rmap_ok_shape [OF assms(1)])
  have lt: "(\<lambda>e. \<not> sz \<le> m_size e) = (\<lambda>e. m_size e < sz)" by auto
  from malloc_refines [OF sh assms(2)] show ?thesis
    using malloc_spec [OF assms] unfolding alloc_first_split lt Let_def
    by (auto split: if_splits)
qed

theorem malloc_first_fit_witness:
  "rmap_ok map_example \<and> (30 :: u32) \<noteq> 0 \<and> (\<exists>mp'. malloc map_example 30 = Inr (10, mp') \<and> rmap_ok mp')"
  using malloc_first_fit [OF map_example_ok(1), of 30] map_example_ok(1)
  by (simp add: live_def map_example_def) blast

text \<open>C24: \<open>mfree\<close> of a range that is not free gives back exactly its units and keeps the map well
  formed, whichever neighbours it merges with, as long as the array has room for one more
  segment below \<open>m_limit\<close>.\<close>

theorem mfree_gives_back:
  assumes "rmap_ok mp" and "sz \<noteq> 0" and "addr \<noteq> 0" and "unat addr + unat sz < 2 ^ 32"
    and "extent addr sz \<inter> avail mp = {}"
    and "length (live mp) < m_limit mp" and "m_limit mp < length (m_map mp)"
  shows "\<exists>mp'. mfree mp sz addr = Inr mp' \<and> rmap_ok mp' \<and> avail mp' = avail mp \<union> extent addr sz
    \<and> length (m_map mp') = length (m_map mp)"
  using mfree_spec [OF assms(1-5)] assms(6,7) by auto

theorem mfree_gives_back_witness:
  "rmap_ok map_example \<and> (\<exists>mp'. mfree map_example 7 60 = Inr mp' \<and> rmap_ok mp' \<and> avail mp' = avail map_example \<union> {60..<67})"
  using mfree_gives_back [OF map_example_ok(1), of 7 60] map_example_ok(1)
  by (auto simp: map_example_def avail_def live_def)

text \<open>C40: With \<open>m_limit\<close> one past the array, as \<open>swapmap\<close> is set up, \<open>mfree\<close> of a range that
  touches no free segment writes outside the array once all slots but the terminator are in
  use, instead of taking the branch that reports the overflow.\<close>

theorem mfree_limit_overrun:
  assumes "rmap_ok mp" and "sz \<noteq> 0" and "addr \<noteq> 0" and "unat addr + unat sz < 2 ^ 32"
    and "m_limit mp = length (m_map mp)" and "Suc (length (live mp)) = length (m_map mp)"
    and "length (release sz addr (live mp)) = Suc (length (live mp))"
  shows "mfree mp sz addr = Inl Fault"
  using mfree_refines [OF rmap_ok_shape [OF assms(1)] assms(2,3)] assms(5-7) by simp

theorem mfree_limit_overrun_witness: "rmap_ok map_full \<and> mfree map_full 3 30 = Inl Fault"
  using mfree_limit_overrun [OF map_full_ok(1), of 3 30] map_full_ok
  by (simp add: map_full_def live_def release_def join_def)

end
