(* ===== verification/Kstate.thy ===== *)
theory Kstate
  imports Prelude
begin

text \<open>
  The state of the kernel that the process, scheduling, signal, timer and protection code
  works on: the process table and its lists (\<open>sys/include/proc.h\<close>), the u. area of the
  current process (\<open>sys/include/user.h\<close>), the callout table, the clock variables and user
  memory. Pointers into a table are indices (\<open>None\<close> for NULL). Flag words, masks and
  addresses are machine words; signed counters are \<open>int\<close>, narrowed with \<open>schar\<close> and
  \<open>sshort\<close> where C stores them in a \<open>char\<close> or \<open>short\<close>. The kernel runs on one processor and
  raises the interrupt priority around every access to these structures, so an operation
  is one step and \<open>spl\<close> calls have no counterpart. The record is extensible: a component
  with state of its own adds fields.
\<close>

subsection \<open>Configuration (\<open>param.h\<close>, \<open>proc.h\<close>, \<open>machparam.h\<close>)\<close>

abbreviation (input) NPROC :: nat where "NPROC \<equiv> 10"
abbreviation (input) NCALL :: nat where "NCALL \<equiv> 18"
abbreviation (input) PIDHSZ :: nat where "PIDHSZ \<equiv> 16"
abbreviation (input) SQSIZE :: nat where "SQSIZE \<equiv> 16"
abbreviation (input) hz :: int where "hz \<equiv> 200"
abbreviation (input) usechz :: int where "usechz \<equiv> 5000"

abbreviation (input) PSWP :: int where "PSWP \<equiv> 0"
abbreviation (input) PZERO :: int where "PZERO \<equiv> 25"
abbreviation (input) PPAUSE :: int where "PPAUSE \<equiv> 40"
abbreviation (input) PUSER :: int where "PUSER \<equiv> 50"
abbreviation (input) NZERO :: int where "NZERO \<equiv> 0"

abbreviation (input) SSLEEP :: int where "SSLEEP \<equiv> 1"
abbreviation (input) SWAIT :: int where "SWAIT \<equiv> 2"
abbreviation (input) SRUN :: int where "SRUN \<equiv> 3"
abbreviation (input) SIDL :: int where "SIDL \<equiv> 4"
abbreviation (input) SZOMB :: int where "SZOMB \<equiv> 5"
abbreviation (input) SSTOP :: int where "SSTOP \<equiv> 6"

abbreviation (input) SLOAD :: u16 where "SLOAD \<equiv> 0x0001"
abbreviation (input) SSYS :: u16 where "SSYS \<equiv> 0x0002"
abbreviation (input) SLOCK :: u16 where "SLOCK \<equiv> 0x0004"
abbreviation (input) SSWAP :: u16 where "SSWAP \<equiv> 0x0008"
abbreviation (input) P_TRACED :: u16 where "P_TRACED \<equiv> 0x0010"
abbreviation (input) P_WAITED :: u16 where "P_WAITED \<equiv> 0x0020"
abbreviation (input) P_SINTR :: u16 where "P_SINTR \<equiv> 0x0080"
abbreviation (input) SVFORK :: u16 where "SVFORK \<equiv> 0x0100"
abbreviation (input) SVFPRNT :: u16 where "SVFPRNT \<equiv> 0x0200"
abbreviation (input) P_TIMEOUT :: u16 where "P_TIMEOUT \<equiv> 0x1000"
abbreviation (input) P_NOCLDSTOP :: u16 where "P_NOCLDSTOP \<equiv> 0x2000"

abbreviation (input) EPERM :: int where "EPERM \<equiv> 1"
abbreviation (input) ENOENT :: int where "ENOENT \<equiv> 2"
abbreviation (input) ESRCH :: int where "ESRCH \<equiv> 3"
abbreviation (input) EINTR :: int where "EINTR \<equiv> 4"
abbreviation (input) EBADF :: int where "EBADF \<equiv> 9"
abbreviation (input) EACCES :: int where "EACCES \<equiv> 13"
abbreviation (input) EFAULT :: int where "EFAULT \<equiv> 14"
abbreviation (input) EINVAL :: int where "EINVAL \<equiv> 22"
abbreviation (input) ENFILE :: int where "ENFILE \<equiv> 23"
abbreviation (input) EMFILE :: int where "EMFILE \<equiv> 24"
abbreviation (input) EWOULDBLOCK :: int where "EWOULDBLOCK \<equiv> 35"
abbreviation (input) ERESTART :: int where "ERESTART \<equiv> -1"

subsection \<open>Times and resource usage (\<open>time.h\<close>, \<open>resource.h\<close>)\<close>

record timeval =
  tv_sec :: int
  tv_usec :: int

record timezone =
  tz_minuteswest :: int
  tz_dsttime :: int

record k_itimerval =
  it_interval :: int
  it_value :: int

record k_rusage =
  ru_utime :: int
  ru_stime :: int
  ru_nswap :: int
  ru_inblock :: int
  ru_oublock :: int
  ru_msgsnd :: int
  ru_msgrcv :: int
  ru_nsignals :: int
  ru_nvcsw :: int
  ru_nivcsw :: int

record rlimit =
  rlim_cur :: int
  rlim_max :: int

subsection \<open>Processes (\<open>proc.h\<close>)\<close>

text \<open>Where a \<open>struct proc **\<close> link of the allocated, zombie and free lists can point.\<close>

datatype lref = At_allproc | At_zombproc | At_freeproc | At_nxt nat

text \<open>
  The members of the union for live and for dead processes are separate fields: the
  kernel does not read one part after writing the other.
\<close>

record proc =
  p_nxt :: "nat option"
  p_prev :: lref
  p_pptr :: "nat option"
  p_flag :: u16
  p_uid :: int
  p_pid :: int
  p_ppid :: int
  p_sig :: u32
  p_stat :: int
  p_pri :: int
  p_cpu :: int
  p_time :: int
  p_nice :: int
  p_slptime :: int
  p_ptracesig :: int
  p_hash :: "nat option"
  p_sigmask :: u32
  p_sigignore :: u32
  p_sigcatch :: u32
  p_pgrp :: int
  p_link :: "nat option"
  p_addr :: u32
  p_daddr :: u32
  p_saddr :: u32
  p_dsize :: u32
  p_ssize :: u32
  p_wchan :: u32
  p_realtimer :: k_itimerval
  p_xstat :: int
  p_ru :: k_rusage

definition PIDHASH :: "int \<Rightarrow> nat" where
  "PIDHASH pid = nat (pid mod int PIDHSZ)"

subsection \<open>The u. area (\<open>user.h\<close>)\<close>

record sigaltstack =
  ss_base :: u32
  ss_size :: int
  ss_flags :: u32

record uprof =
  pr_base :: u32
  pr_size :: u32
  pr_off :: u32
  pr_scale :: u32

record user =
  u_procp :: nat
  u_arg :: "nat \<Rightarrow> u32"
  u_rval :: int
  u_error :: int
  u_uid :: u32
  u_svuid :: u32
  u_ruid :: u32
  u_svgid :: u32
  u_rgid :: u32
  u_groups :: "u32 list"
  u_tsize :: u32
  u_dsize :: u32
  u_ssize :: u32
  u_signal :: "nat \<Rightarrow> u32"
  u_sigmask :: "nat \<Rightarrow> u32"
  u_sigonstack :: u32
  u_sigintr :: u32
  u_oldmask :: u32
  u_code :: int
  u_psflags :: u32
  u_sigstk :: sigaltstack
  u_sigtramp :: u32
  u_ofile :: "nat option list"
  u_pofile :: "u8 list"
  u_lastfile :: int
  u_cmask :: int
  u_ru :: k_rusage
  u_cru :: k_rusage
  u_timer :: "nat \<Rightarrow> k_itimerval"
  u_start :: int
  u_dupfd :: int
  u_prof :: uprof
  u_rlimit :: "nat \<Rightarrow> rlimit"

subsection \<open>Callouts (\<open>callout.h\<close>)\<close>

text \<open>The functions that are passed to \<open>timeout\<close> anywhere in the kernel and its drivers.\<close>

datatype cfunc = C_schedcpu | C_endtsleep | C_wakeup

record callout =
  c_time :: int
  c_arg :: u32
  c_func :: cfunc
  c_next :: "nat option"

subsection \<open>Metering (\<open>vmmeter.h\<close>)\<close>

text \<open>
  \<open>struct vmrate\<close> and \<open>struct vmsum\<close> are walked with pointers from their first to their last
  member, so they are modelled as functions from the member's position. The sizes in
  \<open>struct vmtotal\<close> are 32 bits wide, signed or not.
\<close>

abbreviation (input) v_swtch :: nat where "v_swtch \<equiv> 0"
abbreviation (input) v_swpin :: nat where "v_swpin \<equiv> 8"
abbreviation (input) v_swpout :: nat where "v_swpout \<equiv> 9"
abbreviation (input) v_last :: nat where "v_last \<equiv> 9"

record vmtotal =
  t_rq :: int
  t_dw :: int
  t_sl :: int
  t_sw :: int
  t_vm :: u32
  t_avm :: u32
  t_rm :: u32
  t_arm :: u32
  t_vmtxt :: u32
  t_avmtxt :: u32
  t_rmtxt :: u32
  t_armtxt :: u32
  t_free :: u32

subsection \<open>The state\<close>

text \<open>
  Addresses that the linker chooses and that serve as sleep channels or arguments: the
  entries of the process table and three scheduling variables.
\<close>

record layout =
  a_proc :: "nat \<Rightarrow> u32"
  a_lbolt :: u32
  a_runin :: u32
  a_runout :: u32

record kst =
  lay :: layout
  procs :: "nat \<Rightarrow> proc"
  pidhash :: "nat \<Rightarrow> nat option"
  allproc :: "nat option"
  freeproc :: "nat option"
  zombproc :: "nat option"
  qs :: "nat option"
  slpque :: "nat \<Rightarrow> nat option"
  runrun :: int
  curpri :: int
  noproc :: int
  runin :: int
  runout :: int
  panicstr :: bool
  callouts :: "nat \<Rightarrow> callout"
  callfree :: "nat option"
  calltodo :: "nat option"
  lbolt :: int
  time :: timeval
  adjdelta :: int
  boottime :: timeval
  cp_time :: "nat \<Rightarrow> int"
  uu :: user
  umem :: "u32 \<Rightarrow> u8"
  tz :: timezone
  avenrun :: "nat \<Rightarrow> int"
  freemem :: u32
  avefree :: u16
  avefree30 :: u16
  cnt :: "nat \<Rightarrow> u16"
  rate :: "nat \<Rightarrow> u16"
  vsum :: "nat \<Rightarrow> u32"
  vtotal :: vmtotal

definition pchan :: "'a kst_scheme \<Rightarrow> nat option \<Rightarrow> u32" where
  "pchan st p = (case p of None \<Rightarrow> 0 | Some i \<Rightarrow> a_proc (lay st) i)"

text \<open>Assignments through a process pointer, and to the u. area.\<close>

definition updp :: "nat \<Rightarrow> (proc \<Rightarrow> proc) \<Rightarrow> 'a kst_scheme \<Rightarrow> 'a kst_scheme" where
  "updp i f st = st\<lparr>procs := (procs st)(i := f (procs st i))\<rparr>"

definition updu :: "(user \<Rightarrow> user) \<Rightarrow> 'a kst_scheme \<Rightarrow> 'a kst_scheme" where
  "updu f st = st\<lparr>uu := f (uu st)\<rparr>"

abbreviation (input) p_of :: "'a kst_scheme \<Rightarrow> (proc \<Rightarrow> 'b) \<Rightarrow> nat \<Rightarrow> 'b" where
  "p_of st f i \<equiv> f (procs st i)"

abbreviation curproc :: "'a kst_scheme \<Rightarrow> nat" where
  "curproc st \<equiv> u_procp (uu st)"

lemma procs_updp [simp]: "procs (updp i f st) = (procs st)(i := f (procs st i))"
  by (simp add: updp_def)

lemma updp_sel [simp]:
  "lay (updp i f st) = lay st" "pidhash (updp i f st) = pidhash st" "allproc (updp i f st) = allproc st"
  "freeproc (updp i f st) = freeproc st" "zombproc (updp i f st) = zombproc st" "qs (updp i f st) = qs st"
  "slpque (updp i f st) = slpque st" "runrun (updp i f st) = runrun st" "curpri (updp i f st) = curpri st"
  "noproc (updp i f st) = noproc st" "runin (updp i f st) = runin st" "runout (updp i f st) = runout st"
  "panicstr (updp i f st) = panicstr st" "callouts (updp i f st) = callouts st"
  "callfree (updp i f st) = callfree st" "calltodo (updp i f st) = calltodo st" "lbolt (updp i f st) = lbolt st"
  "time (updp i f st) = time st" "adjdelta (updp i f st) = adjdelta st" "boottime (updp i f st) = boottime st"
  "cp_time (updp i f st) = cp_time st" "uu (updp i f st) = uu st" "umem (updp i f st) = umem st"
  "tz (updp i f st) = tz st" "avenrun (updp i f st) = avenrun st" "freemem (updp i f st) = freemem st" "avefree (updp i f st) = avefree st" "avefree30 (updp i f st) = avefree30 st"
  "cnt (updp i f st) = cnt st" "rate (updp i f st) = rate st" "vsum (updp i f st) = vsum st" "vtotal (updp i f st) = vtotal st"
  "kst.more (updp i f st) = kst.more st"
  by (simp_all add: updp_def)

lemma uu_updu [simp]: "uu (updu f st) = f (uu st)"
  by (simp add: updu_def)

lemma updu_sel [simp]:
  "lay (updu f st) = lay st" "procs (updu f st) = procs st" "pidhash (updu f st) = pidhash st"
  "allproc (updu f st) = allproc st"
  "freeproc (updu f st) = freeproc st" "zombproc (updu f st) = zombproc st" "qs (updu f st) = qs st"
  "slpque (updu f st) = slpque st" "runrun (updu f st) = runrun st" "curpri (updu f st) = curpri st"
  "noproc (updu f st) = noproc st" "runin (updu f st) = runin st" "runout (updu f st) = runout st"
  "panicstr (updu f st) = panicstr st" "callouts (updu f st) = callouts st"
  "callfree (updu f st) = callfree st" "calltodo (updu f st) = calltodo st" "lbolt (updu f st) = lbolt st"
  "time (updu f st) = time st" "adjdelta (updu f st) = adjdelta st" "boottime (updu f st) = boottime st"
  "cp_time (updu f st) = cp_time st" "umem (updu f st) = umem st"
  "tz (updu f st) = tz st" "avenrun (updu f st) = avenrun st" "freemem (updu f st) = freemem st" "avefree (updu f st) = avefree st" "avefree30 (updu f st) = avefree30 st"
  "cnt (updu f st) = cnt st" "rate (updu f st) = rate st" "vsum (updu f st) = vsum st" "vtotal (updu f st) = vtotal st" "kst.more (updu f st) = kst.more st"
  by (simp_all add: updu_def)

lemma updp_updp [simp]: "updp i f (updp i g st) = updp i (\<lambda>p. f (g p)) st"
  by (simp add: updp_def)

lemma pchan_updp [simp]: "pchan (updp i f st) p = pchan st p" "pchan (updu g st) p = pchan st p"
  by (simp_all add: pchan_def split: option.split)

subsection \<open>The state at boot\<close>

text \<open>
  Variables without an initialiser start as 0. The addresses are an example of a layout
  in which the process entries (92 bytes each) and the variables do not overlap.
\<close>

definition rusage0 :: k_rusage where
  "rusage0 = \<lparr>ru_utime = 0, ru_stime = 0, ru_nswap = 0, ru_inblock = 0, ru_oublock = 0, ru_msgsnd = 0,
     ru_msgrcv = 0, ru_nsignals = 0, ru_nvcsw = 0, ru_nivcsw = 0\<rparr>"

definition proc0 :: proc where
  "proc0 = \<lparr>p_nxt = None, p_prev = At_freeproc, p_pptr = None, p_flag = 0, p_uid = 0, p_pid = 0, p_ppid = 0,
     p_sig = 0, p_stat = 0, p_pri = 0, p_cpu = 0, p_time = 0, p_nice = 0, p_slptime = 0, p_ptracesig = 0,
     p_hash = None, p_sigmask = 0, p_sigignore = 0, p_sigcatch = 0, p_pgrp = 0, p_link = None, p_addr = 0,
     p_daddr = 0, p_saddr = 0, p_dsize = 0, p_ssize = 0, p_wchan = 0,
     p_realtimer = \<lparr>it_interval = 0, it_value = 0\<rparr>, p_xstat = 0, p_ru = rusage0\<rparr>"

definition user0 :: user where
  "user0 = \<lparr>u_procp = 0, u_arg = (\<lambda>_. 0), u_rval = 0, u_error = 0, u_uid = 0, u_svuid = 0, u_ruid = 0,
     u_svgid = 0, u_rgid = 0, u_groups = replicate 16 0, u_tsize = 0, u_dsize = 0, u_ssize = 0,
     u_signal = (\<lambda>_. 0), u_sigmask = (\<lambda>_. 0), u_sigonstack = 0, u_sigintr = 0, u_oldmask = 0, u_code = 0,
     u_psflags = 0, u_sigstk = \<lparr>ss_base = 0, ss_size = 0, ss_flags = 0\<rparr>, u_sigtramp = 0,
     u_ofile = replicate 30 None, u_pofile = replicate 30 0, u_lastfile = 0, u_cmask = 0,
     u_ru = rusage0, u_cru = rusage0, u_timer = (\<lambda>_. \<lparr>it_interval = 0, it_value = 0\<rparr>), u_start = 0,
     u_dupfd = 0, u_prof = \<lparr>pr_base = 0, pr_size = 0, pr_off = 0, pr_scale = 0\<rparr>,
     u_rlimit = (\<lambda>_. \<lparr>rlim_cur = 0, rlim_max = 0\<rparr>)\<rparr>"

definition layout0 :: layout where
  "layout0 = \<lparr>a_proc = (\<lambda>i. 0x80001000 + 92 * of_nat i), a_lbolt = 0x80000100, a_runin = 0x80000140,
     a_runout = 0x80000141\<rparr>"

definition vmtotal0 :: vmtotal where
  "vmtotal0 = \<lparr>t_rq = 0, t_dw = 0, t_sl = 0, t_sw = 0, t_vm = 0, t_avm = 0, t_rm = 0, t_arm = 0, t_vmtxt = 0,
     t_avmtxt = 0, t_rmtxt = 0, t_armtxt = 0, t_free = 0\<rparr>"

definition kst0 :: kst where
  "kst0 = \<lparr>lay = layout0, procs = (\<lambda>_. proc0), pidhash = (\<lambda>_. None), allproc = None, freeproc = None,
     zombproc = None, qs = None, slpque = (\<lambda>_. None), runrun = 0, curpri = 0, noproc = 0, runin = 0,
     runout = 0, panicstr = False,
     callouts = (\<lambda>_. \<lparr>c_time = 0, c_arg = 0, c_func = C_schedcpu, c_next = None\<rparr>),
     callfree = None, calltodo = None, lbolt = 0, time = \<lparr>tv_sec = 0, tv_usec = 0\<rparr>, adjdelta = 0,
     boottime = \<lparr>tv_sec = 0, tv_usec = 0\<rparr>, cp_time = (\<lambda>_. 0), uu = user0, umem = (\<lambda>_. 0),
     tz = \<lparr>tz_minuteswest = 0, tz_dsttime = 0\<rparr>, avenrun = (\<lambda>_. 0), freemem = 0, avefree = 0, avefree30 = 0,
     cnt = (\<lambda>_. 0), rate = (\<lambda>_. 0), vsum = (\<lambda>_. 0), vtotal = vmtotal0\<rparr>"

lemmas boot_defs = rusage0_def proc0_def user0_def layout0_def vmtotal0_def kst0_def

end
