(* ===== verification/Procq.thy ===== *)
theory Procq
  imports Kstate
begin

text \<open>
  Process lookup and the process lists (\<open>sys/kernel/kern_proc.c\<close>). The lemmas show that
  \<open>pfind\<close> finds exactly the process with the given id when the hash chains are well
  formed, that \<open>inferior\<close> decides descent from the current process, and that \<open>pqinit\<close>
  splits the process table into the free list and the list of process 0.
\<close>

subsection \<open>Operations\<close>

fun inferior_go :: "nat \<Rightarrow> 'a kst_scheme \<Rightarrow> nat option \<Rightarrow> bool res" where
  "inferior_go 0 st p = Inl Loop"
| "inferior_go (Suc n) st p =
     (if p = Some (curproc st) then Inr True
      else case p of
        None \<Rightarrow> Inl Fault
      | Some i \<Rightarrow> if p_of st p_ppid i = 0 then Inr False else inferior_go n st (p_of st p_pptr i))"

definition inferior :: "'a kst_scheme \<Rightarrow> nat \<Rightarrow> bool res" where
  "inferior st p = inferior_go (Suc NPROC) st (Some p)"

fun pfind_go :: "nat \<Rightarrow> 'a kst_scheme \<Rightarrow> int \<Rightarrow> nat option \<Rightarrow> nat option res" where
  "pfind_go 0 st pid p = Inl Loop"
| "pfind_go (Suc n) st pid p =
     (case p of
        None \<Rightarrow> Inr None
      | Some i \<Rightarrow> if p_of st p_pid i = pid then Inr (Some i) else pfind_go n st pid (p_of st p_hash i))"

definition pfind :: "'a kst_scheme \<Rightarrow> int \<Rightarrow> nat option res" where
  "pfind st pid = pfind_go (Suc NPROC) st pid (pidhash st (PIDHASH pid))"

text \<open>The loop \<open>for (p = proc+NPROC; --p > proc; freeproc = p) p->p_nxt = freeproc;\<close>.\<close>

fun pqinit_loop :: "nat \<Rightarrow> 'a kst_scheme \<Rightarrow> 'a kst_scheme" where
  "pqinit_loop 0 st = st"
| "pqinit_loop (Suc 0) st = st"
| "pqinit_loop (Suc (Suc p)) st =
     pqinit_loop (Suc p) ((updp (Suc p) (\<lambda>q. q\<lparr>p_nxt := freeproc st\<rparr>) st)\<lparr>freeproc := Some (Suc p)\<rparr>)"

definition pqinit :: "'a kst_scheme \<Rightarrow> 'a kst_scheme" where
  "pqinit st =
     (let st = pqinit_loop NPROC (st\<lparr>freeproc := None\<rparr>);
          st = st\<lparr>allproc := Some 0\<rparr>;
          st = updp 0 (\<lambda>p. p\<lparr>p_nxt := None, p_prev := At_allproc\<rparr>) st
      in st\<lparr>zombproc := None\<rparr>)"

subsection \<open>Lookup by process id\<close>

text \<open>
  Every hash chain holds distinct entries of the table whose id hashes to it, and
  \<open>hashed st\<close> is the set of processes on the chains.
\<close>

definition hash_ok :: "'a kst_scheme \<Rightarrow> (nat \<Rightarrow> nat list) \<Rightarrow> bool" where
  "hash_ok st hs \<longleftrightarrow> (\<forall>h < PIDHSZ. chain (p_of st p_hash) (pidhash st h) (hs h)
     \<and> (\<forall>i \<in> set (hs h). i < NPROC \<and> PIDHASH (p_of st p_pid i) = h))"

definition hashed :: "(nat \<Rightarrow> nat list) \<Rightarrow> nat set" where
  "hashed hs = (\<Union>h < PIDHSZ. set (hs h))"

lemma PIDHASH_less: "PIDHASH pid < PIDHSZ"
proof -
  have "pid mod 16 < 16" "0 \<le> pid mod 16" by simp_all
  then show ?thesis by (simp add: PIDHASH_def nat_less_iff)
qed

lemma pfind_go_find:
  "chain (p_of st p_hash) p xs \<Longrightarrow> length xs < n \<Longrightarrow>
   pfind_go n st pid p = Inr (find (\<lambda>i. p_of st p_pid i = pid) xs)"
proof (induction xs arbitrary: n p)
  case Nil
  then show ?case by (cases n) auto
next
  case (Cons i xs)
  then show ?case by (cases n) auto
qed

lemma pfind_find:
  assumes "hash_ok st hs"
  shows "pfind st pid = Inr (find (\<lambda>i. p_of st p_pid i = pid) (hs (PIDHASH pid)))"
proof -
  have c: "chain (p_of st p_hash) (pidhash st (PIDHASH pid)) (hs (PIDHASH pid))"
    and b: "\<forall>i \<in> set (hs (PIDHASH pid)). i < NPROC"
    using assms PIDHASH_less [of pid] by (auto simp: hash_ok_def)
  from chain_length [OF c b] show ?thesis unfolding pfind_def by (intro pfind_go_find [OF c]) simp
qed

text \<open>C20: \<open>pfind\<close> always returns. It returns a hashed process with the requested id if there
  is one, and NULL exactly if no hashed process has that id.\<close>

theorem pfind_correct:
  assumes "hash_ok st hs"
  shows "\<exists>r. pfind st pid = Inr r
    \<and> (\<forall>i. r = Some i \<longrightarrow> i \<in> hashed hs \<and> p_of st p_pid i = pid)
    \<and> (r = None \<longleftrightarrow> (\<forall>i \<in> hashed hs. p_of st p_pid i \<noteq> pid))"
proof -
  let ?r = "find (\<lambda>i. p_of st p_pid i = pid) (hs (PIDHASH pid))"
  have h: "PIDHASH pid < PIDHSZ" by (rule PIDHASH_less)
  have "i \<in> hashed hs \<and> p_of st p_pid i = pid" if "?r = Some i" for i
  proof -
    from that have "i \<in> set (hs (PIDHASH pid))" "p_of st p_pid i = pid" by (auto simp: find_Some_iff)
    then show ?thesis using h unfolding hashed_def by blast
  qed
  moreover have "?r = None \<longleftrightarrow> (\<forall>i \<in> hashed hs. p_of st p_pid i \<noteq> pid)"
  proof
    assume none: "?r = None"
    show "\<forall>i \<in> hashed hs. p_of st p_pid i \<noteq> pid"
    proof
      fix i assume "i \<in> hashed hs"
      then obtain k where k: "k < PIDHSZ" "i \<in> set (hs k)" by (auto simp: hashed_def)
      then have "PIDHASH (p_of st p_pid i) = k" using assms unfolding hash_ok_def by blast
      with k(2) none show "p_of st p_pid i \<noteq> pid" by (auto simp: find_None_iff)
    qed
  next
    assume "\<forall>i \<in> hashed hs. p_of st p_pid i \<noteq> pid"
    then show "?r = None" using h by (auto simp: hashed_def find_None_iff)
  qed
  ultimately show ?thesis unfolding pfind_find [OF assms] by (intro exI [of _ ?r] conjI allI impI) simp_all
qed

theorem pfind_correct_witness:
  "\<exists>r. pfind (kst0\<lparr>procs := (procs kst0)(3 := proc0\<lparr>p_pid := 17\<rparr>), pidhash := (\<lambda>_. None)(1 := Some 3)\<rparr>) 17 = Inr r \<and> r \<noteq> None"
  (is "\<exists>r. pfind ?st 17 = Inr r \<and> _")
proof -
  let ?hs = "(\<lambda>_. [])(1 := [3]) :: nat \<Rightarrow> nat list"
  have ok: "hash_ok ?st ?hs" by (simp add: hash_ok_def boot_defs PIDHASH_def)
  have "3 \<in> hashed ?hs" by (auto simp: hashed_def)
  with pfind_correct [OF ok, of 17] show ?thesis by fastforce
qed

subsection \<open>Descent\<close>

text \<open>The process \<open>i\<close> reaches the current process along parent links before process id 0 is a parent.\<close>

inductive descends :: "'a kst_scheme \<Rightarrow> nat \<Rightarrow> bool" for st where
  self: "descends st (curproc st)"
| parent: "i \<noteq> curproc st \<Longrightarrow> p_of st p_ppid i \<noteq> 0 \<Longrightarrow> p_of st p_pptr i = Some j \<Longrightarrow> descends st j \<Longrightarrow> descends st i"

inductive_cases descendsE: "descends st i"

text \<open>
  Parent links lead upwards: \<open>d\<close> is a depth in the process tree, and only a process whose
  parent id is 0 has no parent in the table.
\<close>

definition tree_ok :: "'a kst_scheme \<Rightarrow> (nat \<Rightarrow> nat) \<Rightarrow> bool" where
  "tree_ok st d \<longleftrightarrow> (\<forall>i < NPROC. d i \<le> NPROC \<and> (p_of st p_ppid i \<noteq> 0 \<longrightarrow>
     (\<exists>j < NPROC. p_of st p_pptr i = Some j \<and> d j < d i)))"

lemma inferior_go_descends:
  assumes "tree_ok st d" and "i < NPROC" and "d i < n"
  shows "inferior_go n st (Some i) = Inr (descends st i)"
  using assms(2,3)
proof (induction n arbitrary: i)
  case (Suc n)
  show ?case
  proof (cases "i = curproc st")
    case True
    then show ?thesis by (simp add: descends.self)
  next
    case ne: False
    show ?thesis
    proof (cases "p_of st p_ppid i = 0")
      case True
      then have "\<not> descends st i" using ne by (auto elim: descendsE)
      with True ne show ?thesis by simp
    next
      case False
      with assms(1) Suc.prems obtain j where j: "j < NPROC" "p_of st p_pptr i = Some j" "d j < d i"
        by (auto simp: tree_ok_def)
      have "descends st i \<longleftrightarrow> descends st j"
        using ne False j(2) by (auto intro: descends.parent elim: descendsE)
      with Suc.IH [OF j(1)] Suc.prems j ne False show ?thesis by simp
    qed
  qed
qed simp



subsection \<open>Initial lists\<close>

lemma pqinit_loop_chain:
  assumes "chain (p_of st p_nxt) (freeproc st) [n..<NPROC]" and "0 < n" and "n \<le> NPROC"
  shows "chain (p_of (pqinit_loop n st) p_nxt) (freeproc (pqinit_loop n st)) [1..<NPROC]"
  using assms
proof (induction n st rule: pqinit_loop.induct)
  case (3 p st)
  let ?st = "(updp (Suc p) (\<lambda>q. q\<lparr>p_nxt := freeproc st\<rparr>) st)\<lparr>freeproc := Some (Suc p)\<rparr>"
  have "[Suc p..<NPROC] = Suc p # [Suc (Suc p)..<NPROC]" using "3.prems"(3) by (simp add: upt_conv_Cons)
  moreover have "p_of ?st p_nxt = (p_of st p_nxt)(Suc p := freeproc st)" by auto
  ultimately have "chain (p_of ?st p_nxt) (freeproc ?st) [Suc p..<NPROC]"
    using "3.prems"(1) by simp
  then show ?case using "3.IH" "3.prems"(3) by simp
qed simp_all

lemma pqinit_loop_keep: "i = 0 \<or> n \<le> i \<Longrightarrow> procs (pqinit_loop n st) i = procs st i"
  by (induction n st rule: pqinit_loop.induct) auto

text \<open>\<open>pqinit\<close> leaves process 0 as the only allocated process, all other slots on the free
  list in table order, and no zombies: every slot is on exactly one of the three lists.\<close>

theorem pqinit_lists:
  "chain (p_of (pqinit st) p_nxt) (allproc (pqinit st)) [0]
   \<and> chain (p_of (pqinit st) p_nxt) (freeproc (pqinit st)) [1..<NPROC]
   \<and> chain (p_of (pqinit st) p_nxt) (zombproc (pqinit st)) []
   \<and> p_prev (procs (pqinit st) 0) = At_allproc"
proof -
  let ?s0 = "st\<lparr>freeproc := None\<rparr>"
  have "chain (p_of ?s0 p_nxt) (freeproc ?s0) [NPROC..<NPROC]" by simp
  from pqinit_loop_chain [OF this] have
    "chain (p_of (pqinit_loop NPROC ?s0) p_nxt) (freeproc (pqinit_loop NPROC ?s0)) [1..<NPROC]" by simp
  moreover have "p_of (pqinit st) p_nxt = (p_of (pqinit_loop NPROC ?s0) p_nxt)(0 := None)"
    unfolding pqinit_def Let_def by (auto simp del: pqinit_loop.simps)
  moreover have "freeproc (pqinit st) = freeproc (pqinit_loop NPROC ?s0)"
    by (simp add: pqinit_def Let_def del: pqinit_loop.simps)
  ultimately have "chain (p_of (pqinit st) p_nxt) (freeproc (pqinit st)) [1..<NPROC]"
    by (simp del: pqinit_loop.simps upt_Suc upt_rec_numeral)
  then show ?thesis by (simp add: pqinit_def Let_def del: pqinit_loop.simps)
qed

end
