(* ===== verification/Callout.thy ===== *)
theory Callout
  imports Kstate
begin

text \<open>
  The callout table (\<open>sys/kernel/kern_clock.c\<close>: \<open>timeout\<close>, \<open>untimeout\<close>, \<open>coutinit\<close> and the
  parts of \<open>hardclock\<close> and \<open>softclock\<close> that age and take entries). Pending entries form a
  list in which each \<open>c_time\<close> is relative to the entry before. The lemmas show that the
  table implements a queue of (function, argument, ticks to go) in which inserting and
  removing an entry never changes the time of another one.
\<close>

subsection \<open>Operations\<close>

definition updc :: "nat \<Rightarrow> (callout \<Rightarrow> callout) \<Rightarrow> 'a kst_scheme \<Rightarrow> 'a kst_scheme" where
  "updc i f st = st\<lparr>callouts := (callouts st)(i := f (callouts st i))\<rparr>"

abbreviation cnext :: "'a kst_scheme \<Rightarrow> nat \<Rightarrow> nat option" where
  "cnext st i \<equiv> c_next (callouts st i)"

text \<open>The assignment \<open>p1->c_next = v\<close>, where \<open>p1\<close> may be \<open>&calltodo\<close>.\<close>

definition set_cnext :: "nat option \<Rightarrow> nat option \<Rightarrow> 'a kst_scheme \<Rightarrow> 'a kst_scheme" where
  "set_cnext p1 v st = (case p1 of None \<Rightarrow> st\<lparr>calltodo := v\<rparr> | Some i \<Rightarrow> updc i (\<lambda>c. c\<lparr>c_next := v\<rparr>) st)"

text \<open>\<open>coutinit\<close>: the loop links entry \<open>i - 1\<close> to entry \<open>i\<close>.\<close>

fun coutinit_loop :: "nat \<Rightarrow> 'a kst_scheme \<Rightarrow> 'a kst_scheme" where
  "coutinit_loop 0 st = st"
| "coutinit_loop (Suc k) st =
     (let i = NCALL - Suc k
      in coutinit_loop k (updc (i - 1) (\<lambda>c. c\<lparr>c_next := Some i\<rparr>) st))"

definition coutinit :: "'a kst_scheme \<Rightarrow> 'a kst_scheme" where
  "coutinit st = coutinit_loop (NCALL - 1) (st\<lparr>callfree := Some 0\<rparr>)"

text \<open>The search loop of \<open>timeout\<close>: where to link the entry, and its relative time.\<close>

fun timeout_find :: "nat \<Rightarrow> 'a kst_scheme \<Rightarrow> nat option \<Rightarrow> int \<Rightarrow> (nat option \<times> int) res" where
  "timeout_find 0 st p1 t = Inl Loop"
| "timeout_find (Suc n) st p1 t =
     (case deref (calltodo st) (cnext st) p1 of
        None \<Rightarrow> Inr (p1, t)
      | Some p2 \<Rightarrow>
          if c_time (callouts st p2) < t
          then timeout_find n st (Some p2)
                 (if c_time (callouts st p2) > 0 then t - c_time (callouts st p2) else t)
          else Inr (p1, t))"

definition timeout :: "cfunc \<Rightarrow> u32 \<Rightarrow> int \<Rightarrow> 'a kst_scheme \<Rightarrow> 'a kst_scheme res" where
  "timeout fun arg t st =
     (let t = (if t \<le> 0 then 1 else t)
      in case callfree st of
           None \<Rightarrow> Inl (Panic ''timeout table overflow'')
         | Some pnew \<Rightarrow>
             let st = st\<lparr>callfree := cnext st pnew\<rparr>;
                 st = updc pnew (\<lambda>c. c\<lparr>c_arg := arg, c_func := fun\<rparr>) st
             in rbind (timeout_find (Suc NCALL) st None t) (\<lambda>(p1, t).
                  let p2 = deref (calltodo st) (cnext st) p1;
                      st = set_cnext p1 (Some pnew) st;
                      st = updc pnew (\<lambda>c. c\<lparr>c_next := p2, c_time := t\<rparr>) st
                  in Inr (case p2 of
                            None \<Rightarrow> st
                          | Some j \<Rightarrow> updc j (\<lambda>c. c\<lparr>c_time := c_time c - t\<rparr>) st)))"

definition untimeout_unlink :: "nat option \<Rightarrow> nat \<Rightarrow> 'a kst_scheme \<Rightarrow> 'a kst_scheme" where
  "untimeout_unlink p1 p2 st =
     (let e = callouts st p2;
          st = (case c_next e of
                  None \<Rightarrow> st
                | Some j \<Rightarrow> if c_time e > 0 then updc j (\<lambda>c. c\<lparr>c_time := c_time c + c_time e\<rparr>) st else st);
          st = set_cnext p1 (c_next e) st;
          st = updc p2 (\<lambda>c. c\<lparr>c_next := callfree st\<rparr>) st
      in st\<lparr>callfree := Some p2\<rparr>)"

fun untimeout_go :: "nat \<Rightarrow> cfunc \<Rightarrow> u32 \<Rightarrow> nat option \<Rightarrow> 'a kst_scheme \<Rightarrow> 'a kst_scheme res" where
  "untimeout_go 0 fun arg p1 st = Inl Loop"
| "untimeout_go (Suc n) fun arg p1 st =
     (case deref (calltodo st) (cnext st) p1 of
        None \<Rightarrow> Inr st
      | Some p2 \<Rightarrow>
          if c_func (callouts st p2) = fun \<and> c_arg (callouts st p2) = arg
          then Inr (untimeout_unlink p1 p2 st)
          else untimeout_go n fun arg (Some p2) st)"

definition untimeout :: "cfunc \<Rightarrow> u32 \<Rightarrow> 'a kst_scheme \<Rightarrow> 'a kst_scheme res" where
  "untimeout fun arg st = untimeout_go (Suc NCALL) fun arg None st"

text \<open>
  The first loop of \<open>hardclock\<close>, which ages the queue and tells whether an entry is due
  (\<open>needsoft\<close>), and the head of the loop of \<open>softclock\<close>, which takes one due entry.
\<close>

fun tick_go :: "nat \<Rightarrow> nat option \<Rightarrow> bool \<Rightarrow> 'a kst_scheme \<Rightarrow> (bool \<times> 'a kst_scheme) res" where
  "tick_go 0 p1 needsoft st = Inl Loop"
| "tick_go (Suc n) p1 needsoft st =
     (case p1 of
        None \<Rightarrow> Inr (needsoft, st)
      | Some i \<Rightarrow>
          let st = updc i (\<lambda>c. c\<lparr>c_time := c_time c - 1\<rparr>) st
          in if c_time (callouts st i) > 0 then Inr (needsoft, st)
             else if c_time (callouts st i) = 0 then Inr (True, st)
             else tick_go n (cnext st i) True st)"

definition callout_tick :: "'a kst_scheme \<Rightarrow> (bool \<times> 'a kst_scheme) res" where
  "callout_tick st = tick_go (Suc NCALL) (calltodo st) False st"

definition callout_take :: "'a kst_scheme \<Rightarrow> (cfunc \<times> u32 \<times> 'a kst_scheme) option" where
  "callout_take st =
     (case calltodo st of
        None \<Rightarrow> None
      | Some p1 \<Rightarrow>
          let e = callouts st p1
          in if c_time e > 0 then None
             else let st = st\<lparr>calltodo := c_next e\<rparr>;
                      st = updc p1 (\<lambda>c. c\<lparr>c_next := callfree st\<rparr>) st
                  in Some (c_func e, c_arg e, st\<lparr>callfree := Some p1\<rparr>))"

subsection \<open>The table as a queue of timers\<close>

lemma callouts_updc [simp]: "callouts (updc i f st) = (callouts st)(i := f (callouts st i))"
  by (simp add: updc_def)

lemma updc_sel [simp]:
  "calltodo (updc i f st) = calltodo st" "callfree (updc i f st) = callfree st"
  by (simp_all add: updc_def)

lemma set_cnext_sel [simp]:
  "callfree (set_cnext p v st) = callfree st"
  "calltodo (set_cnext None v st) = v" "calltodo (set_cnext (Some i) v st) = calltodo st"
  "callouts (set_cnext None v st) = callouts st"
  "callouts (set_cnext (Some i) v st) = (callouts st)(i := (callouts st i)\<lparr>c_next := v\<rparr>)"
  by (simp_all add: set_cnext_def split: option.split)

lemma set_cnext_fields [simp]:
  "c_time (callouts (set_cnext p v st) i) = c_time (callouts st i)"
  "c_func (callouts (set_cnext p v st) i) = c_func (callouts st i)"
  "c_arg (callouts (set_cnext p v st) i) = c_arg (callouts st i)"
  by (cases p; simp)+

text \<open>Overdue entries (a negative time) are at the front: none comes after a positive time.\<close>

fun late :: "(nat \<Rightarrow> callout) \<Rightarrow> nat list \<Rightarrow> bool" where
  "late co [] \<longleftrightarrow> True"
| "late co (i # is) \<longleftrightarrow> (if 0 < c_time (co i) then \<forall>j \<in> set is. 0 \<le> c_time (co j) else late co is)"

lemma late_nonneg: "\<forall>j \<in> set is. 0 \<le> c_time (co j) \<Longrightarrow> late co is"
  by (induction "is") auto

lemma late_append:
  "late co (xs @ ys) \<longleftrightarrow> late co xs \<and>
     (if \<exists>i \<in> set xs. 0 < c_time (co i) then \<forall>j \<in> set ys. 0 \<le> c_time (co j) else late co ys)"
  by (induction xs) auto

lemma late_cong: "(\<And>i. i \<in> set xs \<Longrightarrow> c_time (co i) = c_time (co' i)) \<Longrightarrow> late co xs = late co' xs"
  by (induction xs) auto

definition callout_ok :: "'a kst_scheme \<Rightarrow> nat list \<Rightarrow> nat list \<Rightarrow> bool" where
  "callout_ok st xs fs \<longleftrightarrow> chain (cnext st) (calltodo st) xs \<and> chain (cnext st) (callfree st) fs
     \<and> set xs \<inter> set fs = {} \<and> set xs \<union> set fs = {..<NCALL}
     \<and> late (callouts st) xs"

text \<open>
  \<open>pend st a xs\<close>: the entries \<open>xs\<close> with the number of ticks until each is due, when the
  entry before them is due in \<open>a\<close> ticks; an entry that is overdue counts as due now.
\<close>

type_synonym timer = "cfunc \<times> u32 \<times> int"

abbreviation due :: "timer \<Rightarrow> int" where "due x \<equiv> snd (snd x)"

fun pend :: "(nat \<Rightarrow> callout) \<Rightarrow> int \<Rightarrow> nat list \<Rightarrow> timer list" where
  "pend co a [] = []"
| "pend co a (i # is) =
     (c_func (co i), c_arg (co i), a + max (c_time (co i)) 0) # pend co (a + max (c_time (co i)) 0) is"

fun acc :: "(nat \<Rightarrow> callout) \<Rightarrow> int \<Rightarrow> nat list \<Rightarrow> int" where
  "acc co a [] = a"
| "acc co a (i # is) = acc co (a + max (c_time (co i)) 0) is"

lemma pend_append: "pend co a (xs @ ys) = pend co a xs @ pend co (acc co a xs) ys"
  by (induction xs arbitrary: a) auto

lemma acc_append [simp]: "acc co a (xs @ ys) = acc co (acc co a xs) ys"
  by (induction xs arbitrary: a) auto

lemma pend_cong:
  "(\<And>i. i \<in> set xs \<Longrightarrow> c_func (co i) = c_func (co' i) \<and> c_arg (co i) = c_arg (co' i) \<and> c_time (co i) = c_time (co' i)) \<Longrightarrow>
   pend co a xs = pend co' a xs"
  by (induction xs arbitrary: a) auto

lemma acc_cong: "(\<And>i. i \<in> set xs \<Longrightarrow> c_time (co i) = c_time (co' i)) \<Longrightarrow> acc co a xs = acc co' a xs"
  by (induction xs arbitrary: a) auto

lemma pend_ge: "x \<in> set (pend co a xs) \<Longrightarrow> a \<le> due x"
  by (induction xs arbitrary: a) (auto, fastforce)

lemma length_pend [simp]: "length (pend co a xs) = length xs"
  by (induction xs arbitrary: a) auto

subsection \<open>timeout\<close>

lemma timeout_find_spec:
  assumes "chain (cnext st) (calltodo st) (xs1 @ xs2)" and "length xs2 < n" and "0 < t"
  shows "\<exists>ys1 ys2 t'. xs2 = ys1 @ ys2 \<and> timeout_find n st (last_opt xs1) t = Inr (last_opt (xs1 @ ys1), t') \<and> 0 < t'
     \<and> acc (callouts st) a ys1 + t' = a + t \<and> (\<forall>x \<in> set (pend (callouts st) a ys1). due x < a + t)
     \<and> (\<forall>j js. ys2 = j # js \<longrightarrow> t' \<le> c_time (callouts st j))"
  using assms
proof (induction xs2 arbitrary: xs1 n t a)
  case Nil
  then obtain m where "n = Suc m" by (cases n) auto
  moreover have "deref (calltodo st) (cnext st) (last_opt xs1) = None"
    using chain_deref [OF Nil.prems(1)] by simp
  ultimately show ?case using Nil.prems by simp
next
  case (Cons i xs2)
  then obtain m where n: "n = Suc m" by (cases n) auto
  have d: "deref (calltodo st) (cnext st) (last_opt xs1) = Some i"
    by (rule chain_deref_hd [OF Cons.prems(1)])
  let ?c = "c_time (callouts st i)"
  show ?case
  proof (cases "?c < t")
    case True
    define t1 where "t1 = (if ?c > 0 then t - ?c else t)"
    have "0 < t1" and t1: "a + max ?c 0 + t1 = a + t" using True Cons.prems(3) by (auto simp: t1_def)
    with Cons.IH [of "xs1 @ [i]" m t1 "a + max ?c 0"] Cons.prems n obtain ys1 ys2 t' where
      IH: "xs2 = ys1 @ ys2" "timeout_find m st (Some i) t1 = Inr (last_opt ((xs1 @ [i]) @ ys1), t')" "0 < t'"
        "acc (callouts st) (a + max ?c 0) ys1 + t' = a + t"
        "\<forall>x \<in> set (pend (callouts st) (a + max ?c 0) ys1). due x < a + t"
        "\<forall>j js. ys2 = j # js \<longrightarrow> t' \<le> c_time (callouts st j)" by auto
    have "timeout_find n st (last_opt xs1) t = Inr (last_opt (xs1 @ i # ys1), t')"
      using IH(2) True by (simp add: n d t1_def)
    with IH t1 \<open>0 < t1\<close> show ?thesis by (intro exI [of _ "i # ys1"] exI [of _ ys2] exI [of _ t']) auto
  next
    case False
    then show ?thesis using Cons.prems n d by (intro exI [of _ "[]"] exI [of _ "i # xs2"] exI [of _ t]) simp
  qed
qed

definition insert_timer :: "timer \<Rightarrow> timer list \<Rightarrow> timer list" where
  "insert_timer x l = takeWhile (\<lambda>y. due y < due x) l @ x # dropWhile (\<lambda>y. due y < due x) l"

lemma length_insert_timer: "length (insert_timer x l) = Suc (length l)"
proof -
  have "length (takeWhile (\<lambda>y. due y < due x) l @ dropWhile (\<lambda>y. due y < due x) l) = length l"
    by (simp only: takeWhile_dropWhile_id)
  then show ?thesis unfolding length_append by (simp add: insert_timer_def)
qed

lemma insert_timer_split:
  assumes "\<forall>y \<in> set l1. due y < due x" and "\<forall>y ys. l2 = y # ys \<longrightarrow> due x \<le> due y"
  shows "insert_timer x (l1 @ l2) = l1 @ x # l2"
  using assms by (cases l2) (auto simp: insert_timer_def takeWhile_append dropWhile_append)

lemma set_cnext_place:
  "calltodo (set_cnext p v st) = set_head p v (calltodo st)"
  "cnext (set_cnext p v st) i = set_nx p v (cnext st) i"
  by (cases p; simp)+

lemma callout_ok_len: "callout_ok st xs fs \<Longrightarrow> length xs + length fs = NCALL"
proof -
  assume ok: "callout_ok st xs fs"
  then have "distinct xs" "distinct fs" by (auto simp: callout_ok_def dest: chain_distinct)
  then have "length xs + length fs = card (set xs) + card (set fs)" by (simp add: distinct_card)
  also have "\<dots> = card (set xs \<union> set fs)" using ok by (subst card_Un_disjoint) (simp_all add: callout_ok_def)
  also have "\<dots> = NCALL" using ok by (simp add: callout_ok_def)
  finally show ?thesis .
qed

lemma timeout_refines:
  assumes ok: "callout_ok st xs (f # fs)"
  shows "\<exists>st' xs'. timeout fn arg t st = Inr st' \<and> callout_ok st' xs' fs
    \<and> pend (callouts st') 0 xs' = insert_timer (fn, arg, max t 1) (pend (callouts st) 0 xs)"
proof -
  define t0 where "t0 = (if t \<le> 0 then 1 else t)"
  have t0: "0 < t0" "t0 = max t 1" by (auto simp: t0_def)
  define s1 where "s1 = updc f (\<lambda>c. c\<lparr>c_arg := arg, c_func := fn\<rparr>) (st\<lparr>callfree := cnext st f\<rparr>)"
  have todo: "chain (cnext st) (calltodo st) xs" and free: "callfree st = Some f" "chain (cnext st) (cnext st f) fs"
    and dis: "f \<notin> set xs" "set xs \<inter> set fs = {}" and un: "set xs \<union> insert f (set fs) = {..<NCALL}"
    using ok by (auto simp: callout_ok_def)
  have lateo: "late (callouts st) xs" using ok by (simp add: callout_ok_def)
  have nf: "f \<notin> set fs" using ok chain_distinct [of "cnext st" "callfree st" "f # fs"] by (simp add: callout_ok_def)
  have len: "length xs < Suc NCALL" using callout_ok_len [OF ok] by simp
  have co1: "c_time (callouts s1 i) = c_time (callouts st i)" "cnext s1 i = cnext st i" for i by (simp_all add: s1_def)
  have c1: "chain (cnext s1) (calltodo s1) ([] @ xs)" using todo by (simp add: co1) (simp add: s1_def)
  from timeout_find_spec [OF c1 len t0(1), of 0] obtain ys1 ys2 t' where
    xs: "xs = ys1 @ ys2" and find: "timeout_find (Suc NCALL) s1 None t0 = Inr (last_opt ys1, t')" and t': "0 < t'"
    and ac: "acc (callouts s1) 0 ys1 + t' = t0" and lt: "\<forall>x \<in> set (pend (callouts s1) 0 ys1). due x < t0"
    and nxt: "\<forall>j js. ys2 = j # js \<longrightarrow> t' \<le> c_time (callouts s1 j)" by auto
  define p2 where "p2 = deref (calltodo s1) (cnext s1) (last_opt ys1)"
  have p2: "p2 = (case ys2 of [] \<Rightarrow> None | j # js \<Rightarrow> Some j)"
    using chain_deref [of "cnext s1" "calltodo s1" ys1 ys2] c1 xs by (cases ys2) (simp_all add: p2_def)
  define s2 where "s2 = updc f (\<lambda>c. c\<lparr>c_next := p2, c_time := t'\<rparr>) (set_cnext (last_opt ys1) (Some f) s1)"
  define s3 where "s3 = (case p2 of None \<Rightarrow> s2 | Some j \<Rightarrow> updc j (\<lambda>c. c\<lparr>c_time := c_time c - t'\<rparr>) s2)"
  have run: "timeout fn arg t st = Inr s3"
    unfolding timeout_def Let_def t0_def [symmetric] free(1) option.case s1_def [symmetric] find rbind_Inr prod.case
      p2_def [symmetric] s2_def [symmetric] s3_def [symmetric] ..
  have co3: "cnext s3 = (set_nx (last_opt ys1) (Some f) (cnext s1))(f := p2)"
    by (rule ext) (simp add: s3_def s2_def set_cnext_place split: option.split)
  have todo3: "calltodo s3 = set_head (last_opt ys1) (Some f) (calltodo s1)" and "callfree s3 = callfree s1"
    by (simp_all add: s3_def s2_def set_cnext_place split: option.split)
  have "chain (cnext s3) (calltodo s3) (ys1 @ f # ys2)"
    unfolding co3 todo3 p2_def using c1 dis(1) xs by (intro chain_insert_after) simp_all
  moreover have "chain (cnext s3) (callfree s3) fs"
  proof -
    have "cnext s3 i = cnext st i" if "i \<in> set fs" for i
      using that nf dis(2) xs fun_cong [OF co3, of i] by (cases ys1 rule: rev_cases) (auto simp: co1)
    then show ?thesis using free(2) \<open>callfree s3 = callfree s1\<close>
      by (subst chain_cong [of fs _ "cnext st"]) (simp_all add: s1_def)
  qed
  ultimately have chains: "chain (cnext s3) (calltodo s3) (ys1 @ f # ys2)" "chain (cnext s3) (callfree s3) fs" .
  have lt': "\<forall>x \<in> set (pend (callouts st) 0 ys1). due x < t0"
  proof -
    have "pend (callouts s1) 0 ys1 = pend (callouts st) 0 ys1"
      using dis(1) xs by (intro pend_cong) (auto simp: s1_def)
    with lt show ?thesis by simp
  qed
  have P1: "pend (callouts s3) 0 ys1 = pend (callouts st) 0 ys1" "acc (callouts s3) 0 ys1 = acc (callouts s1) 0 ys1"
    and L1: "late (callouts s3) ys1"
  proof -
    have eq: "c_func (callouts s3 i) = c_func (callouts st i) \<and> c_arg (callouts s3 i) = c_arg (callouts st i)
        \<and> c_time (callouts s3 i) = c_time (callouts st i)" if "i \<in> set ys1" for i
    proof -
      have "i \<noteq> f" "p2 \<noteq> Some i" using that dis(1) chain_distinct [OF todo] xs by (auto simp: p2 split: list.splits)
      then show ?thesis by (auto simp: s3_def s2_def s1_def split: option.split)
    qed
    then show "pend (callouts s3) 0 ys1 = pend (callouts st) 0 ys1" "acc (callouts s3) 0 ys1 = acc (callouts s1) 0 ys1"
      by (auto intro!: pend_cong acc_cong simp: co1)
    have "late (callouts st) ys1" using lateo xs by (simp add: late_append)
    then show "late (callouts s3) ys1" using eq by (subst late_cong [of _ _ "callouts st"]) auto
  qed
  have ac': "acc (callouts st) 0 ys1 = acc (callouts s1) 0 ys1" by (rule acc_cong) (simp add: co1)
  have P2: "pend (callouts s3) t0 ys2 = pend (callouts st) (acc (callouts st) 0 ys1) ys2 \<and> (\<forall>i \<in> set ys2. 0 \<le> c_time (callouts s3 i))"
  proof (cases ys2)
    case (Cons j js)
    have j: "j \<noteq> f" and p2j: "p2 = Some j" using dis(1) xs Cons by (auto simp: p2)
    have tj: "c_time (callouts s3 j) = c_time (callouts st j) - t'" "c_func (callouts s3 j) = c_func (callouts st j)"
      "c_arg (callouts s3 j) = c_arg (callouts st j)"
      using j p2j by (simp_all add: s3_def s2_def s1_def)
    have tj': "t' \<le> c_time (callouts st j)" using nxt Cons by (simp add: co1)
    then have "t0 + max (c_time (callouts st j) - t') 0 = acc (callouts st) 0 ys1 + max (c_time (callouts st j)) 0"
      using ac ac' t' by linarith
    moreover have js: "c_func (callouts s3 i) = c_func (callouts st i) \<and> c_arg (callouts s3 i) = c_arg (callouts st i)
          \<and> c_time (callouts s3 i) = c_time (callouts st i)" if "i \<in> set js" for i
    proof -
      have "i \<noteq> f" "i \<noteq> j" using that dis(1) chain_distinct [OF todo] xs Cons by auto
      then show ?thesis using p2j by (simp add: s3_def s2_def s1_def)
    qed
    then have "pend (callouts s3) b js = pend (callouts st) b js" for b by (intro pend_cong) auto
    moreover have "\<forall>i \<in> set js. 0 \<le> c_time (callouts st i)"
      using lateo tj' t' unfolding xs Cons late_append by (auto split: if_splits)
    ultimately show ?thesis using Cons tj tj' js by simp
  qed simp
  then have L2: "\<forall>i \<in> set ys2. 0 \<le> c_time (callouts s3 i)" ..
  have "c_func (callouts s3 f) = fn \<and> c_arg (callouts s3 f) = arg \<and> c_time (callouts s3 f) = t'"
    using dis(1) xs by (auto simp: s3_def s2_def s1_def p2 split: list.split)
  moreover from this have "late (callouts s3) (ys1 @ f # ys2)"
    using L1 L2 t' by (simp add: late_append)
  moreover from this chains have ok3: "callout_ok s3 (ys1 @ f # ys2) fs"
    using dis nf un xs by (auto simp: callout_ok_def)
  ultimately have "pend (callouts s3) 0 (ys1 @ f # ys2) = pend (callouts st) 0 ys1 @ (fn, arg, t0) # pend (callouts st) (acc (callouts st) 0 ys1) ys2"
    using P1 P2 ac t' by (simp add: pend_append)
  also have "\<dots> = insert_timer (fn, arg, max t 1) (pend (callouts st) 0 ys1 @ pend (callouts st) (acc (callouts st) 0 ys1) ys2)"
    unfolding t0(2) [symmetric]
  proof (rule insert_timer_split [symmetric])
    show "\<forall>y \<in> set (pend (callouts st) 0 ys1). due y < due (fn, arg, t0)"
      using lt' by simp
    show "\<forall>y ys. pend (callouts st) (acc (callouts st) 0 ys1) ys2 = y # ys \<longrightarrow> due (fn, arg, t0) \<le> due y"
      using nxt ac ac' by (cases ys2) (auto simp: co1)
  qed
  finally show ?thesis using run ok3 xs by (auto simp: pend_append)
qed

lemma timeout_overflow: "callout_ok st xs [] \<Longrightarrow> timeout fn arg t st = Inl (Panic ''timeout table overflow'')"
  by (simp add: callout_ok_def timeout_def)

subsection \<open>untimeout\<close>

fun remove_timer :: "cfunc \<Rightarrow> u32 \<Rightarrow> timer list \<Rightarrow> timer list" where
  "remove_timer f a [] = []"
| "remove_timer f a (x # xs) = (if fst x = f \<and> fst (snd x) = a then xs else x # remove_timer f a xs)"

lemma remove_timer_split:
  assumes "\<forall>x \<in> set l1. \<not> (fst x = f \<and> fst (snd x) = a)"
  shows "remove_timer f a (l1 @ l2) = l1 @ remove_timer f a l2"
  using assms by (induction l1) auto

lemma pend_match: "(\<exists>x \<in> set (pend co b xs). fst x = f \<and> fst (snd x) = a) \<longleftrightarrow> (\<exists>i \<in> set xs. c_func (co i) = f \<and> c_arg (co i) = a)"
  by (induction xs arbitrary: b) auto

lemma untimeout_go_spec:
  assumes "chain (cnext st) (calltodo st) (xs @ ys)" and "length ys < n"
  shows "untimeout_go n f a (last_opt xs) st =
    (if \<exists>i \<in> set ys. c_func (callouts st i) = f \<and> c_arg (callouts st i) = a
     then Inr (untimeout_unlink
            (last_opt (xs @ takeWhile (\<lambda>i. \<not> (c_func (callouts st i) = f \<and> c_arg (callouts st i) = a)) ys))
            (hd (dropWhile (\<lambda>i. \<not> (c_func (callouts st i) = f \<and> c_arg (callouts st i) = a)) ys)) st)
     else Inr st)"
  using assms
proof (induction ys arbitrary: xs n)
  case Nil
  then obtain m where "n = Suc m" by (cases n) auto
  then show ?case using chain_deref [OF Nil.prems(1)] by simp
next
  case (Cons i ys)
  then obtain m where n: "n = Suc m" by (cases n) auto
  have d: "deref (calltodo st) (cnext st) (last_opt xs) = Some i" by (rule chain_deref_hd [OF Cons.prems(1)])
  show ?case
  proof (cases "c_func (callouts st i) = f \<and> c_arg (callouts st i) = a")
    case True
    then show ?thesis by (simp add: n d)
  next
    case False
    then have "untimeout_go n f a (last_opt xs) st = untimeout_go m f a (last_opt (xs @ [i])) st"
      by (auto simp: n d)
    then show ?thesis using Cons.IH [of "xs @ [i]" m] Cons.prems n False by (auto simp del: untimeout_go.simps)
  qed
qed

text \<open>Unlinking an entry keeps the times of the others.\<close>

lemma untimeout_unlink_refines:
  assumes ok: "callout_ok st (ys @ p2 # zs) fs"
  shows "callout_ok (untimeout_unlink (last_opt ys) p2 st) (ys @ zs) (p2 # fs)"
    and "pend (callouts (untimeout_unlink (last_opt ys) p2 st)) 0 (ys @ zs) =
      pend (callouts st) 0 ys @ tl (pend (callouts st) (acc (callouts st) 0 ys) (p2 # zs))"
proof -
  let ?s = "untimeout_unlink (last_opt ys) p2 st"
  have todo: "chain (cnext st) (calltodo st) (ys @ p2 # zs)" and free: "chain (cnext st) (callfree st) fs"
    and dis: "set (ys @ p2 # zs) \<inter> set fs = {}" and un: "set (ys @ p2 # zs) \<union> set fs = {..<NCALL}"
    using ok by (auto simp: callout_ok_def)
  have lateo: "late (callouts st) (ys @ p2 # zs)" using ok by (simp add: callout_ok_def)
  have d: "distinct (ys @ p2 # zs)" by (rule chain_distinct [OF todo])
  have nx: "cnext st p2 = (case zs of [] \<Rightarrow> None | j # js \<Rightarrow> Some j)"
    using chain_suffix [OF todo] by (cases zs) auto
  have fields: "calltodo ?s = set_head (last_opt ys) (cnext st p2) (calltodo st)" "callfree ?s = Some p2"
    "cnext ?s i = ((set_nx (last_opt ys) (cnext st p2) (cnext st))(p2 := callfree st)) i" for i
    by (simp_all add: untimeout_unlink_def Let_def set_cnext_place set_nx_def split: option.split)
  have "chain (set_nx (last_opt ys) (cnext st p2) (cnext st)) (calltodo ?s) (ys @ zs)"
    unfolding fields(1) by (rule chain_remove_after [OF todo])
  then have "chain (cnext ?s) (calltodo ?s) (ys @ zs)"
    using d by (subst chain_cong [of _ _ "set_nx (last_opt ys) (cnext st p2) (cnext st)"]) (auto simp: fields(3))
  moreover have "chain (cnext ?s) (callfree ?s) (p2 # fs)"
  proof -
    have "cnext ?s i = cnext st i" if "i \<in> set fs" for i
      using that dis fields(3) [of i] by (cases ys rule: rev_cases) auto
    then have "chain (cnext ?s) (callfree st) fs" using free by (subst chain_cong [of _ _ "cnext st"]) simp_all
    then show ?thesis by (simp add: fields)
  qed
  ultimately have chains: "chain (cnext ?s) (calltodo ?s) (ys @ zs)" "chain (cnext ?s) (callfree ?s) (p2 # fs)" .
  have same: "c_func (callouts ?s i) = c_func (callouts st i) \<and> c_arg (callouts ?s i) = c_arg (callouts st i)" for i
    by (simp add: untimeout_unlink_def Let_def split: option.split)
  have tm: "c_time (callouts ?s i) = c_time (callouts st i) + (if cnext st p2 = Some i \<and> c_time (callouts st p2) > 0 then c_time (callouts st p2) else 0)" for i
    by (simp add: untimeout_unlink_def Let_def split: option.split)
  have P1: "pend (callouts ?s) 0 ys = pend (callouts st) 0 ys" "acc (callouts ?s) 0 ys = acc (callouts st) 0 ys"
    using d by (auto intro!: pend_cong acc_cong simp: same tm nx split: list.splits)
  let ?a = "acc (callouts st) 0 ys" and ?c = "c_time (callouts st p2)"
  have P2: "pend (callouts ?s) ?a zs = pend (callouts st) (?a + max ?c 0) zs"
  proof (cases zs)
    case (Cons j js)
    have "cnext st p2 \<noteq> Some i" if "i \<in> set js" for i using that d Cons nx by auto
    then have "pend (callouts ?s) b js = pend (callouts st) b js" for b by (intro pend_cong) (auto simp: same tm)
    moreover have "0 < ?c \<Longrightarrow> 0 \<le> c_time (callouts st j)" using lateo unfolding Cons late_append by (auto split: if_splits)
    then have "max (c_time (callouts ?s j)) 0 = max ?c 0 + max (c_time (callouts st j)) 0"
      using nx Cons tm [of j] by simp
    ultimately show ?thesis using Cons same [of j] by (simp add: add.assoc)
  qed simp
  have "late (callouts ?s) (ys @ zs)"
  proof -
    have "late (callouts ?s) ys" using lateo d
      by (subst late_cong [of _ _ "callouts st"]) (auto simp: tm nx late_append split: list.splits)
    moreover have "c_time (callouts ?s i) = c_time (callouts st i)" if "i \<in> set ys" for i
      using that d by (auto simp: tm nx split: list.splits)
    moreover have "(0 < ?c \<longrightarrow> (\<forall>i \<in> set zs. 0 \<le> c_time (callouts ?s i)))
        \<and> (\<not> 0 < ?c \<longrightarrow> (\<forall>i. c_time (callouts ?s i) = c_time (callouts st i)))"
      using lateo by (auto simp: tm late_append split: if_splits)
    ultimately show ?thesis using lateo late_cong [of zs "callouts ?s" "callouts st"] late_nonneg [of zs "callouts ?s"]
      by (auto simp: late_append split: if_splits)
  qed
  with chains show "callout_ok ?s (ys @ zs) (p2 # fs)" using dis un d by (auto simp: callout_ok_def)
  show "pend (callouts ?s) 0 (ys @ zs) = pend (callouts st) 0 ys @ tl (pend (callouts st) ?a (p2 # zs))"
    using P1 P2 by (simp add: pend_append)
qed

lemma untimeout_refines:
  assumes ok: "callout_ok st xs fs"
  shows "\<exists>st' xs' fs'. untimeout fn arg st = Inr st' \<and> callout_ok st' xs' fs'
    \<and> pend (callouts st') 0 xs' = remove_timer fn arg (pend (callouts st) 0 xs)"
proof -
  let ?m = "\<lambda>i. c_func (callouts st i) = fn \<and> c_arg (callouts st i) = arg"
  have c: "chain (cnext st) (calltodo st) ([] @ xs)" using ok by (simp add: callout_ok_def)
  have len: "length xs < Suc NCALL" using callout_ok_len [OF ok] by simp
  note go = untimeout_go_spec [OF c len, of fn arg]
  show ?thesis
  proof (cases "\<exists>i \<in> set xs. ?m i")
    case False
    then have "\<forall>x \<in> set (pend (callouts st) 0 xs). \<not> (fst x = fn \<and> fst (snd x) = arg)"
      using pend_match by blast
    then have "remove_timer fn arg (pend (callouts st) 0 xs) = pend (callouts st) 0 xs"
      using remove_timer_split [of "pend (callouts st) 0 xs" fn arg "[]"] by simp
    moreover have "untimeout fn arg st = Inr st" using go False by (simp add: untimeout_def del: untimeout_go.simps)
    ultimately show ?thesis using ok by auto
  next
    case True
    define ys p2 zs where "ys = takeWhile (\<lambda>i. \<not> ?m i) xs" and "p2 = hd (dropWhile (\<lambda>i. \<not> ?m i) xs)"
      and "zs = tl (dropWhile (\<lambda>i. \<not> ?m i) xs)"
    have ne: "dropWhile (\<lambda>i. \<not> ?m i) xs \<noteq> []" using True by (auto simp: dropWhile_eq_Nil_conv)
    have xs: "xs = ys @ p2 # zs" using ne by (simp add: ys_def p2_def zs_def)
    have m: "?m p2" using hd_dropWhile [OF ne] by (simp add: p2_def)
    have nm: "\<forall>i \<in> set ys. \<not> ?m i" by (auto simp: ys_def dest: set_takeWhileD)
    have "untimeout fn arg st = Inr (untimeout_unlink (last_opt ys) p2 st)"
      using go True by (simp add: untimeout_def ys_def p2_def del: untimeout_go.simps)
    moreover note untimeout_unlink_refines [OF ok [unfolded xs]]
    moreover have "\<forall>x \<in> set (pend (callouts st) 0 ys). \<not> (fst x = fn \<and> fst (snd x) = arg)"
      using nm pend_match by blast
    then have "remove_timer fn arg (pend (callouts st) 0 xs) =
        pend (callouts st) 0 ys @ tl (pend (callouts st) (acc (callouts st) 0 ys) (p2 # zs))"
      unfolding xs pend_append using m by (simp add: remove_timer_split)
    ultimately show ?thesis by auto
  qed
qed

subsection \<open>The clock tick\<close>

definition age_timer :: "timer \<Rightarrow> timer" where
  "age_timer x = (fst x, fst (snd x), max (due x - 1) 0)"

lemma pend_shift: "pend co (a + d) xs = map (\<lambda>x. (fst x, fst (snd x), due x + d)) (pend co a xs)"
proof (induction xs arbitrary: a)
  case (Cons i xs)
  have e: "a + d + max (c_time (co i)) 0 = a + max (c_time (co i)) 0 + d" by simp
  show ?case unfolding pend.simps list.map e using Cons.IH [of "a + max (c_time (co i)) 0"] by simp
qed simp

lemma tick_tail: "0 < c \<Longrightarrow> pend co (c - 1) xs = map age_timer (pend co c xs)"
proof -
  assume c: "0 < (c :: int)"
  have "pend co (c - 1) xs = map (\<lambda>x. (fst x, fst (snd x), due x - 1)) (pend co c xs)"
    using pend_shift [of co c "- 1" xs] by simp
  also have "\<dots> = map age_timer (pend co c xs)"
    using pend_ge [of _ co c xs] c by (force simp: age_timer_def intro: map_cong)
  finally show ?thesis .
qed

lemma tick_go_spec:
  assumes "chain (cnext st) p ys" and "length ys < n" and "late (callouts st) ys"
  shows "\<exists>co. tick_go n p ns st = Inr (ns \<or> (\<exists>x \<in> set (pend co 0 ys). due x = 0), st\<lparr>callouts := co\<rparr>)
    \<and> (\<forall>i. co i = (callouts st i)\<lparr>c_time := c_time (co i)\<rparr>) \<and> (\<forall>i. i \<notin> set ys \<longrightarrow> co i = callouts st i)
    \<and> pend co 0 ys = map age_timer (pend (callouts st) 0 ys) \<and> late co ys"
  using assms
proof (induction ys arbitrary: n p ns st)
  case Nil
  then obtain m where "n = Suc m" by (cases n) auto
  with Nil.prems show ?case by (intro exI [of _ "callouts st"]) simp
next
  case (Cons i ys)
  then obtain m where n: "n = Suc m" by (cases n) auto
  have d: "i \<notin> set ys" using chain_distinct [OF Cons.prems(1)] by simp
  let ?c = "c_time (callouts st i)"
  define s1 where "s1 = updc i (\<lambda>c. c\<lparr>c_time := c_time c - 1\<rparr>) st"
  have s1: "callouts s1 = (callouts st)(i := (callouts st i)\<lparr>c_time := ?c - 1\<rparr>)" by (simp add: s1_def)
  have st: "s1 = st\<lparr>callouts := callouts s1\<rparr>" by (simp add: s1_def updc_def)
  have P: "pend (callouts s1) b ys = pend (callouts st) b ys" for b using d by (intro pend_cong) (auto simp: s1)
  show ?case
  proof (cases "0 < ?c")
    case True
    have nn: "\<forall>j \<in> set ys. 0 \<le> c_time (callouts st j)" using Cons.prems(3) True by simp
    have "tick_go n p ns st = Inr (ns \<or> (\<exists>x \<in> set (pend (callouts s1) 0 (i # ys)). due x = 0), st\<lparr>callouts := callouts s1\<rparr>)"
    proof (cases "?c = 1")
      case True
      with Cons.prems show ?thesis by (simp add: n Let_def s1_def [symmetric] s1) (simp add: s1_def updc_def)
    next
      case False
      then have "1 < ?c" using True by simp
      moreover have "\<not> (\<exists>x \<in> set (pend (callouts st) (?c - 1) ys). due x = 0)"
        using pend_ge [of _ "callouts st" "?c - 1" ys] calculation by force
      ultimately show ?thesis using Cons.prems P
        by (simp add: n Let_def s1_def [symmetric] s1) (simp add: s1_def updc_def)
    qed
    moreover have "late (callouts s1) (i # ys)"
    proof -
      have "\<forall>j \<in> set ys. 0 \<le> c_time (callouts s1 j)" using nn d by (auto simp: s1)
      then show ?thesis by (auto intro: late_nonneg)
    qed
    moreover have "pend (callouts s1) 0 (i # ys) = map age_timer (pend (callouts st) 0 (i # ys))"
      using True P tick_tail [OF True] by (simp add: s1 age_timer_def)
    moreover have "\<forall>k. callouts s1 k = (callouts st k)\<lparr>c_time := c_time (callouts s1 k)\<rparr>"
      "\<forall>k. k \<notin> set (i # ys) \<longrightarrow> callouts s1 k = callouts st k" by (simp_all add: s1)
    ultimately show ?thesis by blast
  next
    case False
    have ch: "chain (cnext s1) (cnext s1 i) ys" using Cons.prems(1) d
      by (subst chain_cong [of _ _ "cnext st"]) (auto simp: s1)
    have lt: "late (callouts s1) ys" using Cons.prems(3) False d by (subst late_cong [of _ _ "callouts st"]) (auto simp: s1)
    from Cons.IH [OF ch _ lt, of m True] Cons.prems(2) n obtain co where
      IH: "tick_go m (cnext s1 i) True s1 = Inr (True, s1\<lparr>callouts := co\<rparr>)"
        "\<forall>k. co k = (callouts s1 k)\<lparr>c_time := c_time (co k)\<rparr>" "\<forall>k. k \<notin> set ys \<longrightarrow> co k = callouts s1 k"
        "pend co 0 ys = map age_timer (pend (callouts s1) 0 ys)" "late co ys" by auto
    have coi: "co i = callouts s1 i" using IH(3) d by simp
    then have ci: "c_time (co i) = ?c - 1" "c_func (co i) = c_func (callouts st i)" "c_arg (co i) = c_arg (callouts st i)"
      by (simp_all add: s1)
    have "tick_go n p ns st = Inr (True, st\<lparr>callouts := co\<rparr>)"
      using Cons.prems(1) False IH(1) by (simp add: n Let_def s1_def [symmetric] s1) (simp add: s1_def updc_def)
    moreover have "\<forall>k. co k = (callouts st k)\<lparr>c_time := c_time (co k)\<rparr>"
    proof
      fix k
      have "co k = (callouts s1 k)\<lparr>c_time := c_time (co k)\<rparr>" using IH(2) by blast
      then show "co k = (callouts st k)\<lparr>c_time := c_time (co k)\<rparr>" by (simp add: s1 split: if_splits)
    qed
    moreover have "pend co 0 (i # ys) = map age_timer (pend (callouts st) 0 (i # ys))"
      using False ci IH(4) P by (simp add: age_timer_def)
    moreover have "\<forall>k. k \<notin> set (i # ys) \<longrightarrow> co k = callouts st k" using IH(3) by (simp add: s1)
    moreover have "late co (i # ys)" using False ci IH(5) by simp
    moreover have "\<exists>x \<in> set (pend co 0 (i # ys)). due x = 0" using False ci by simp
    ultimately show ?thesis by (intro exI [of _ co]) simp
  qed
qed

lemma tick_refines:
  assumes ok: "callout_ok st xs fs"
  shows "\<exists>co. callout_tick st = Inr (\<exists>x \<in> set (pend co 0 xs). due x = 0, st\<lparr>callouts := co\<rparr>)
    \<and> callout_ok (st\<lparr>callouts := co\<rparr>) xs fs \<and> pend co 0 xs = map age_timer (pend (callouts st) 0 xs)"
proof -
  have c: "chain (cnext st) (calltodo st) xs" and l: "late (callouts st) xs" using ok by (simp_all add: callout_ok_def)
  have len: "length xs < Suc NCALL" using callout_ok_len [OF ok] by simp
  from tick_go_spec [OF c len l, of False] obtain co where
    t: "callout_tick st = Inr (\<exists>x \<in> set (pend co 0 xs). due x = 0, st\<lparr>callouts := co\<rparr>)"
    and co: "\<forall>i. co i = (callouts st i)\<lparr>c_time := c_time (co i)\<rparr>"
    and p: "pend co 0 xs = map age_timer (pend (callouts st) 0 xs)" "late co xs"
    unfolding callout_tick_def by auto
  have "c_next (co i) = cnext st i" for i
  proof -
    have "c_next (co i) = c_next ((callouts st i)\<lparr>c_time := c_time (co i)\<rparr>)" using co by metis
    then show ?thesis by simp
  qed
  then have "callout_ok (st\<lparr>callouts := co\<rparr>) xs fs" using ok p(2) by (simp add: callout_ok_def)
  with t p show ?thesis by blast
qed

lemma take_refines:
  assumes ok: "callout_ok st xs fs"
  shows "case xs of
      [] \<Rightarrow> callout_take st = None
    | i # is \<Rightarrow> if 0 < c_time (callouts st i) then callout_take st = None
        else \<exists>st'. callout_take st = Some (c_func (callouts st i), c_arg (callouts st i), st')
          \<and> callout_ok st' is (i # fs) \<and> pend (callouts st') 0 is = pend (callouts st) 0 is"
proof (cases xs)
  case Nil
  with ok show ?thesis by (simp add: callout_ok_def callout_take_def)
next
  case (Cons i xs')
  show ?thesis
  proof (cases "0 < c_time (callouts st i)")
    case True
    with ok Cons show ?thesis by (simp add: callout_ok_def callout_take_def)
  next
    case False
    define st' where "st' = (updc i (\<lambda>c. c\<lparr>c_next := callfree st\<rparr>) (st\<lparr>calltodo := cnext st i\<rparr>))\<lparr>callfree := Some i\<rparr>"
    have dist: "distinct (i # xs')"
      using ok Cons chain_distinct [of "cnext st" "calltodo st" "i # xs'"] by (simp add: callout_ok_def)
    have take: "callout_take st = Some (c_func (callouts st i), c_arg (callouts st i), st')"
      using ok Cons False by (simp add: callout_ok_def callout_take_def Let_def st'_def)
    have co: "callouts st' = (callouts st)(i := (callouts st i)\<lparr>c_next := callfree st\<rparr>)" by (simp add: st'_def)
    have "chain (cnext st') (calltodo st') xs'"
      using ok Cons dist by (subst chain_cong [of _ _ "cnext st"]) (auto simp: callout_ok_def st'_def)
    moreover have "chain (cnext st') (callfree st') (i # fs)"
    proof -
      have "chain (cnext st') (callfree st) fs"
        using ok Cons by (subst chain_cong [of _ _ "cnext st"]) (auto simp: callout_ok_def co)
      then show ?thesis by (simp add: st'_def)
    qed
    moreover have "late (callouts st') xs'"
      using ok Cons False by (subst late_cong [of _ _ "callouts st"]) (auto simp: callout_ok_def co)
    ultimately have "callout_ok st' xs' (i # fs)" using ok Cons dist by (auto simp: callout_ok_def)
    moreover have "pend (callouts st') 0 xs' = pend (callouts st) 0 xs'" by (rule pend_cong) (simp add: co)
    ultimately show ?thesis using take Cons False by simp
  qed
qed

subsection \<open>Initialisation\<close>

lemma coutinit_loop_next:
  assumes "k < NCALL"
  shows "cnext (coutinit_loop k st) i = (if NCALL - k \<le> Suc i \<and> Suc i < NCALL then Some (Suc i) else cnext st i)"
  using assms
proof (induction k arbitrary: st)
  case (Suc k)
  then have "cnext (coutinit_loop (Suc k) st) i =
      cnext (coutinit_loop k (updc (NCALL - Suc k - 1) (\<lambda>c. c\<lparr>c_next := Some (NCALL - Suc k)\<rparr>) st)) i"
    by (simp add: Let_def)
  also have "\<dots> = (if NCALL - k \<le> Suc i \<and> Suc i < NCALL then Some (Suc i)
      else cnext (updc (NCALL - Suc k - 1) (\<lambda>c. c\<lparr>c_next := Some (NCALL - Suc k)\<rparr>) st) i)"
    by (rule Suc.IH) (use Suc.prems in simp)
  finally show ?case using Suc.prems by auto
qed auto

lemma coutinit_loop_sel: "calltodo (coutinit_loop k st) = calltodo st" "callfree (coutinit_loop k st) = callfree st"
  by (induction k arbitrary: st) (simp_all add: Let_def)

lemma chain_upto:
  assumes "\<And>i. Suc i < n \<Longrightarrow> nx i = Some (Suc i)" and "nx (n - 1) = None" and "k < n"
  shows "chain nx (Some k) [k..<n]"
  using assms(3)
proof (induction "n - k" arbitrary: k)
  case (Suc m)
  have up: "[k..<n] = k # [Suc k..<n]" using Suc.prems by (simp add: upt_conv_Cons)
  show ?case
  proof (cases "Suc k < n")
    case True
    with Suc have "chain nx (Some (Suc k)) [Suc k..<n]" by simp
    with up True assms(1) show ?thesis by simp
  next
    case False
    then have k: "k = n - 1" "[Suc k..<n] = []" using Suc.prems by simp_all
    show ?thesis unfolding up k(2) using assms(2) k(1) by simp
  qed
qed simp

lemma coutinit_ok:
  assumes "calltodo st = None" and "cnext st (NCALL - 1) = None"
  shows "callout_ok (coutinit st) [] [0..<NCALL]"
proof -
  have n: "cnext (coutinit st) i = (if Suc i < NCALL then Some (Suc i) else cnext st i)" for i
    unfolding coutinit_def by (subst coutinit_loop_next) simp_all
  have "chain (cnext (coutinit st)) (Some 0) [0..<NCALL]"
    by (rule chain_upto) (simp_all add: n assms(2) [simplified])
  moreover have "callfree (coutinit st) = Some 0" "calltodo (coutinit st) = None"
    using assms(1) by (simp_all add: coutinit_def coutinit_loop_sel del: coutinit_loop.simps)
  ultimately show ?thesis by (auto simp: callout_ok_def simp del: upt_rec_numeral)
qed

subsection \<open>The interface: a queue of timers\<close>

fun tick_n :: "('s \<Rightarrow> (bool \<times> 's) res) \<Rightarrow> nat \<Rightarrow> 's \<Rightarrow> 's res" where
  "tick_n tick 0 s = Inr s"
| "tick_n tick (Suc k) s = rbind (tick s) (\<lambda>r. tick_n tick k (snd r))"

fun drain :: "('s \<Rightarrow> (cfunc \<times> u32 \<times> 's) option) \<Rightarrow> nat \<Rightarrow> 's \<Rightarrow> (cfunc \<times> u32) list \<times> 's" where
  "drain take1 0 s = ([], s)"
| "drain take1 (Suc n) s =
     (case take1 s of
        None \<Rightarrow> ([], s)
      | Some (f, a, s') \<Rightarrow> (let (l, s'') = drain take1 n s' in ((f, a) # l, s'')))"

definition aged :: "nat \<Rightarrow> timer \<Rightarrow> timer" where
  "aged k x = (fst x, fst (snd x), max (due x - int k) 0)"

lemma aged_0: "0 \<le> due x \<Longrightarrow> aged 0 x = x"
  by (simp add: aged_def prod_eq_iff)

lemma aged_Suc: "aged k (age_timer x) = aged (Suc k) x"
  by (auto simp: aged_def age_timer_def)

locale timer_queue =
  fixes invar :: "'s \<Rightarrow> bool"
    and timers :: "'s \<Rightarrow> timer list"
    and cap :: nat
    and add :: "cfunc \<Rightarrow> u32 \<Rightarrow> int \<Rightarrow> 's \<Rightarrow> 's res"
    and cancel :: "cfunc \<Rightarrow> u32 \<Rightarrow> 's \<Rightarrow> 's res"
    and tick :: "'s \<Rightarrow> (bool \<times> 's) res"
    and take1 :: "'s \<Rightarrow> (cfunc \<times> u32 \<times> 's) option"
  assumes in_order: "invar s \<Longrightarrow> sorted (map due (timers s)) \<and> (\<forall>x \<in> set (timers s). 0 \<le> due x)"
    and add_room: "invar s \<Longrightarrow> length (timers s) < cap \<Longrightarrow>
      \<exists>s'. add f a t s = Inr s' \<and> invar s' \<and> timers s' = insert_timer (f, a, max t 1) (timers s)"
    and add_full: "invar s \<Longrightarrow> length (timers s) = cap \<Longrightarrow> \<exists>m. add f a t s = Inl (Panic m)"
    and cancel_first: "invar s \<Longrightarrow>
      \<exists>s'. cancel f a s = Inr s' \<and> invar s' \<and> timers s' = remove_timer f a (timers s)"
    and tick_ages: "invar s \<Longrightarrow>
      \<exists>s'. tick s = Inr (\<exists>x \<in> set (timers s'). due x = 0, s') \<and> invar s' \<and> timers s' = map age_timer (timers s)"
    and take_first: "invar s \<Longrightarrow> timers s = x # xs \<Longrightarrow> due x = 0 \<Longrightarrow>
      \<exists>s'. take1 s = Some (fst x, fst (snd x), s') \<and> invar s' \<and> timers s' = xs"
    and take_none: "invar s \<Longrightarrow> \<forall>x \<in> set (timers s). 0 < due x \<Longrightarrow> take1 s = None"
begin

lemma tick_n_ages:
  assumes "invar s"
  shows "\<exists>s'. tick_n tick k s = Inr s' \<and> invar s' \<and> timers s' = map (aged k) (timers s)"
  using assms
proof (induction k arbitrary: s)
  case 0
  then have "map (aged 0) (timers s) = timers s" using in_order by (intro map_idI aged_0) blast
  with 0 show ?case by simp
next
  case (Suc k)
  from tick_ages [OF Suc.prems] obtain b s1 where
    t: "tick s = Inr (b, s1)" "invar s1" "timers s1 = map age_timer (timers s)" by blast
  from Suc.IH [OF t(2)] obtain s2 where "tick_n tick k s1 = Inr s2" "invar s2" "timers s2 = map (aged k) (timers s1)" by blast
  with t show ?case by (simp add: aged_Suc comp_def)
qed

lemma drain_due:
  assumes "invar s" and "length (timers s) \<le> n"
  shows "\<exists>s'. drain take1 n s = (map (\<lambda>x. (fst x, fst (snd x))) (filter (\<lambda>x. due x = 0) (timers s)), s')
    \<and> invar s' \<and> timers s' = filter (\<lambda>x. due x \<noteq> 0) (timers s)"
  using assms
proof (induction n arbitrary: s)
  case 0
  then show ?case by simp
next
  case (Suc n)
  show ?case
  proof (cases "timers s")
    case Nil
    with take_none [OF Suc.prems(1)] Suc.prems show ?thesis by simp
  next
    case (Cons x xs)
    note ord = in_order [OF Suc.prems(1)]
    show ?thesis
    proof (cases "due x = 0")
      case True
      from take_first [OF Suc.prems(1) Cons True] obtain s1 where
        s1: "take1 s = Some (fst x, fst (snd x), s1)" "invar s1" "timers s1 = xs" by blast
      from Suc.IH [OF s1(2)] s1 Suc.prems(2) Cons True show ?thesis by auto
    next
      case False
      then have pos: "\<forall>y \<in> set (timers s). 0 < due y" using ord Cons by force
      from take_none [OF Suc.prems(1) pos] have "take1 s = None" .
      moreover have "filter (\<lambda>y. due y = 0) (timers s) = []" "filter (\<lambda>y. due y \<noteq> 0) (timers s) = timers s"
        using pos by (auto simp: filter_empty_conv filter_id_conv)
      ultimately show ?thesis using Suc.prems(1) by simp
    qed
  qed
qed

text \<open>A timer that is set and left alone is taken after exactly its number of ticks.\<close>

lemma add_fires:
  assumes "invar s" and "length (timers s) < cap"
  shows "\<exists>s1. add f a t s = Inr s1 \<and> (\<forall>k. \<exists>s2 l s3. tick_n tick k s1 = Inr s2
    \<and> drain take1 cap s2 = (l, s3)
    \<and> l = map (\<lambda>x. (fst x, fst (snd x))) (filter (\<lambda>x. due x \<le> int k) (insert_timer (f, a, max t 1) (timers s))))"
proof -
  from add_room [OF assms] obtain s1 where s1: "add f a t s = Inr s1" "invar s1"
    "timers s1 = insert_timer (f, a, max t 1) (timers s)" by blast
  have len: "length (timers s1) \<le> cap"
    using assms(2) by (simp add: s1(3) length_insert_timer)
  have "\<exists>s2 l s3. tick_n tick k s1 = Inr s2 \<and> drain take1 cap s2 = (l, s3)
      \<and> l = map (\<lambda>x. (fst x, fst (snd x))) (filter (\<lambda>x. due x \<le> int k) (timers s1))" for k
  proof -
    from tick_n_ages [OF s1(2), of k] obtain s2 where
      s2: "tick_n tick k s1 = Inr s2" "invar s2" "timers s2 = map (aged k) (timers s1)" by blast
    have eq: "map (\<lambda>x. (fst x, fst (snd x))) (filter (\<lambda>x. due x = 0) (timers s2)) =
        map (\<lambda>x. (fst x, fst (snd x))) (filter (\<lambda>x. due x \<le> int k) (timers s1))"
    proof -
      have "filter (\<lambda>x. due x = 0) (timers s2) = map (aged k) (filter (\<lambda>x. due x \<le> int k) (timers s1))"
        unfolding s2(3) filter_map by (rule arg_cong [of _ _ "map (aged k)"], rule filter_cong) (auto simp: aged_def)
      then show ?thesis by (simp add: aged_def)
    qed
    from drain_due [OF s2(2), of cap] len s2(3) eq s2(1) show ?thesis by auto
  qed
  with s1 show ?thesis by auto
qed

end

text \<open>The callout table is such a queue; \<open>ctodo\<close> and \<open>cfree\<close> compute its two lists.\<close>

definition ctodo :: "'a kst_scheme \<Rightarrow> nat list" where
  "ctodo st = nodes NCALL (cnext st) (calltodo st)"

definition cfree :: "'a kst_scheme \<Rightarrow> nat list" where
  "cfree st = nodes NCALL (cnext st) (callfree st)"

definition callouts_ok :: "'a kst_scheme \<Rightarrow> bool" where
  "callouts_ok st \<longleftrightarrow> callout_ok st (ctodo st) (cfree st)"

definition pending :: "'a kst_scheme \<Rightarrow> timer list" where
  "pending st = pend (callouts st) 0 (ctodo st)"

lemma callout_ok_lists:
  assumes "callout_ok st xs fs"
  shows "callouts_ok st" and "pending st = pend (callouts st) 0 xs" and "cfree st = fs" and "ctodo st = xs"
proof -
  have "length xs \<le> NCALL" "length fs \<le> NCALL" using callout_ok_len [OF assms] by simp_all
  with assms show "ctodo st = xs" "cfree st = fs"
    unfolding ctodo_def cfree_def callout_ok_def by (auto intro: nodes_chain simp del: nodes.simps)
  with assms show "callouts_ok st" "pending st = pend (callouts st) 0 xs" by (simp_all add: callouts_ok_def pending_def)
qed

lemma pend_sorted: "sorted (map due (pend co a xs))"
  using pend_ge by (induction xs arbitrary: a) (fastforce simp: order_trans)+

lemma pending_length: "callouts_ok st \<Longrightarrow> length (pending st) + length (cfree st) = NCALL"
  using callout_ok_len [of st "ctodo st" "cfree st"] by (simp add: callouts_ok_def pending_def)

interpretation cq: timer_queue callouts_ok pending NCALL timeout untimeout callout_tick callout_take
proof (unfold_locales, goal_cases)
  case (1 s)
  have "\<forall>x \<in> set (pending s). 0 \<le> due x" unfolding pending_def using pend_ge by blast
  then show ?case by (simp add: pending_def pend_sorted)
next
  case (2 s f a t)
  then have "cfree s \<noteq> []" using pending_length [of s] by auto
  then obtain i ks where i: "cfree s = i # ks" by (cases "cfree s") auto
  with 2 have "callout_ok s (ctodo s) (i # ks)" by (simp add: callouts_ok_def)
  from timeout_refines [OF this, of f a t] obtain s' xs' where s': "timeout f a t s = Inr s'" "callout_ok s' xs' ks"
    "pend (callouts s') 0 xs' = insert_timer (f, a, max t 1) (pending s)" unfolding pending_def by auto
  then show ?case using callout_ok_lists(1,2) [OF s'(2)] by simp
next
  case (3 s f a t)
  then have "cfree s = []" using pending_length [of s] by simp
  with 3 show ?case using timeout_overflow [of s "ctodo s" f a t] by (simp add: callouts_ok_def)
next
  case (4 s f a)
  then have "callout_ok s (ctodo s) (cfree s)" by (simp add: callouts_ok_def)
  from untimeout_refines [OF this, of f a] obtain s' xs' fs' where s': "untimeout f a s = Inr s'" "callout_ok s' xs' fs'"
    "pend (callouts s') 0 xs' = remove_timer f a (pending s)" unfolding pending_def by auto
  then show ?case using callout_ok_lists(1,2) [OF s'(2)] by simp
next
  case (5 s)
  then have "callout_ok s (ctodo s) (cfree s)" by (simp add: callouts_ok_def)
  from tick_refines [OF this] obtain co where
    t: "callout_tick s = Inr (\<exists>x \<in> set (pend co 0 (ctodo s)). due x = 0, s\<lparr>callouts := co\<rparr>)"
    and ok: "callout_ok (s\<lparr>callouts := co\<rparr>) (ctodo s) (cfree s)"
    and p: "pend co 0 (ctodo s) = map age_timer (pend (callouts s) 0 (ctodo s))" by blast
  have pe: "pending (s\<lparr>callouts := co\<rparr>) = pend co 0 (ctodo s)" using callout_ok_lists(2) [OF ok] by simp
  show ?case using t p pe callout_ok_lists(1) [OF ok]
    by (intro exI [of _ "s\<lparr>callouts := co\<rparr>"]) (simp add: pending_def [of s])
next
  case (6 s x xs)
  then have ok: "callout_ok s (ctodo s) (cfree s)" and ne: "pend (callouts s) 0 (ctodo s) = x # xs"
    by (simp_all add: callouts_ok_def pending_def)
  then obtain i ks where i: "ctodo s = i # ks" by (cases "ctodo s") auto
  have x: "fst x = c_func (callouts s i)" "fst (snd x) = c_arg (callouts s i)" "\<not> 0 < c_time (callouts s i)"
    "xs = pend (callouts s) 0 ks" using ne 6(3) by (auto simp: i)
  from take_refines [OF ok] x i obtain s' where
    s': "callout_take s = Some (fst x, fst (snd x), s')" "callout_ok s' ks (i # cfree s)" "pend (callouts s') 0 ks = xs" by auto
  then show ?case using callout_ok_lists(1,2) [OF s'(2)] by simp
next
  case (7 s)
  then have ok: "callout_ok s (ctodo s) (cfree s)" by (simp add: callouts_ok_def)
  show ?case
  proof (cases "ctodo s")
    case Nil
    with take_refines [OF ok] show ?thesis by simp
  next
    case (Cons i ks)
    with 7(2) have "0 < c_time (callouts s i)" by (simp add: pending_def max_def split: if_splits)
    with take_refines [OF ok] Cons show ?thesis by simp
  qed
qed

lemma coutinit_boot: "callouts_ok (coutinit kst0)" "pending (coutinit kst0) = []"
proof -
  have "calltodo kst0 = None" "cnext kst0 (NCALL - 1) = None" by (simp_all add: boot_defs)
  note init = coutinit_ok [OF this]
  show "callouts_ok (coutinit kst0)" by (rule callout_ok_lists(1) [OF init])
  show "pending (coutinit kst0) = []" using callout_ok_lists(2) [OF init] by simp
qed

subsection \<open>Properties\<close>

text \<open>C14: A function passed to \<open>timeout\<close> with delay \<open>t\<close> is taken from the queue after exactly
  \<open>t\<close> clock ticks (one if \<open>t\<close> is not positive), whatever else is pending, and so is every
  function that was pending before: after \<open>k\<close> ticks the entries taken are exactly those
  whose delay is at most \<open>k\<close>, in the order of their delays.\<close>

theorem timeout_fires_on_time:
  assumes "callouts_ok st" and "length (pending st) < NCALL"
  shows "\<exists>st1. timeout f a t st = Inr st1 \<and> (\<forall>k. \<exists>st2 l st3. tick_n callout_tick k st1 = Inr st2
    \<and> drain callout_take NCALL st2 = (l, st3)
    \<and> l = map (\<lambda>x. (fst x, fst (snd x))) (filter (\<lambda>x. due x \<le> int k) (insert_timer (f, a, max t 1) (pending st))))"
  by (rule cq.add_fires [OF assms])

theorem timeout_fires_on_time_witness: "\<exists>st1. timeout C_schedcpu 0 200 (coutinit kst0) = Inr st1
    \<and> (\<forall>k. \<exists>st2 l st3. tick_n callout_tick k st1 = Inr st2 \<and> drain callout_take NCALL st2 = (l, st3)
         \<and> l = (if 200 \<le> int k then [(C_schedcpu, 0)] else []))"
proof -
  note ok = coutinit_boot(1) and none = coutinit_boot(2)
  show ?thesis using timeout_fires_on_time [OF ok, of C_schedcpu 0 200] unfolding none
    by (simp add: insert_timer_def if_distrib [where f = "map _"] cong: if_cong)
qed

text \<open>C19: \<open>untimeout\<close> removes the first pending entry with the given function and argument, and
  leaves the time of every other entry as it was; it does nothing if there is none.\<close>

theorem untimeout_cancels:
  assumes "callouts_ok st"
  shows "\<exists>st'. untimeout f a st = Inr st' \<and> callouts_ok st' \<and> pending st' = remove_timer f a (pending st)"
  by (rule cq.cancel_first [OF assms])

theorem untimeout_cancels_witness: "\<exists>st'. untimeout C_schedcpu 0 (coutinit kst0) = Inr st' \<and> pending st' = []"
proof -
  note ok = coutinit_boot(1) and none = coutinit_boot(2)
  show ?thesis using untimeout_cancels [OF ok, of C_schedcpu 0] by (auto simp: none)
qed

text \<open>After \<open>coutinit\<close> nothing is pending and all \<open>NCALL\<close> entries can be used; \<open>timeout\<close>
  panics exactly when all of them are pending.\<close>

theorem callout_capacity:
  assumes "callouts_ok st" and "calltodo st0 = None" and "c_next (callouts st0 (NCALL - 1)) = None"
  shows "callouts_ok (coutinit st0) \<and> pending (coutinit st0) = []
    \<and> ((\<exists>st'. timeout f a t st = Inr st') \<longleftrightarrow> length (pending st) < NCALL)
    \<and> (length (pending st) = NCALL \<longrightarrow> timeout f a t st = Inl (Panic ''timeout table overflow''))"
proof -
  note init = coutinit_ok [OF assms(2,3)]
  have le: "length (pending st) \<le> NCALL" using pending_length [OF assms(1)] by simp
  have full: "length (pending st) = NCALL \<Longrightarrow> timeout f a t st = Inl (Panic ''timeout table overflow'')"
    using pending_length [OF assms(1)] timeout_overflow [of st "ctodo st"] assms(1) by (simp add: callouts_ok_def)
  show ?thesis using callout_ok_lists(1,2) [OF init] cq.add_room [OF assms(1), of f a t] full le
    by (cases "length (pending st) < NCALL") (auto simp: not_less)
qed

theorem callout_capacity_witness: "\<exists>st'. timeout C_schedcpu 0 1 (coutinit kst0) = Inr st'"
proof -
  note ok = coutinit_boot(1) and none = coutinit_boot(2)
  show ?thesis using callout_capacity [OF ok, of kst0 C_schedcpu 0 1] none by (simp add: boot_defs)
qed

end
