(* ===== verification/Sched.thy ===== *)
theory Sched
  imports Kstate
begin

text \<open>
  Scheduling queues (\<open>sys/kernel/kern_synch.c\<close>): the run queue (\<open>setrq\<close>, \<open>remrq\<close>, the
  choice made by \<open>swtch\<close>), the sleep queues (\<open>unsleep\<close>, \<open>wakeup\<close>, \<open>setrun\<close>,
  \<open>endtsleep\<close>) and the priorities (\<open>setpri\<close>, \<open>updatepri\<close>). The lemmas show that the
  linked lists stay consistent with the state of the processes, that a wakeup reaches
  exactly the processes sleeping on its channel, and that no operation loops or follows a
  dangling link.
\<close>

subsection \<open>Operations\<close>

abbreviation plink :: "'a kst_scheme \<Rightarrow> nat \<Rightarrow> nat option" where
  "plink st i \<equiv> p_link (procs st i)"

definition HASH :: "u32 \<Rightarrow> nat" where
  "HASH x = unat (drop_bit 5 x AND 15)"

definition setrq :: "nat \<Rightarrow> 'a kst_scheme \<Rightarrow> 'a kst_scheme" where
  "setrq p st = (updp p (\<lambda>q. q\<lparr>p_link := qs st\<rparr>) st)\<lparr>qs := Some p\<rparr>"

fun remrq_go :: "nat \<Rightarrow> nat \<Rightarrow> nat option \<Rightarrow> 'a kst_scheme \<Rightarrow> 'a kst_scheme res" where
  "remrq_go 0 p q st = Inl Loop"
| "remrq_go (Suc n) p q st =
     (case q of
        None \<Rightarrow> Inl (Panic ''remrq'')
      | Some i \<Rightarrow> if plink st i = Some p then Inr (updp i (\<lambda>r. r\<lparr>p_link := plink st p\<rparr>) st)
                  else remrq_go n p (plink st i) st)"

definition remrq :: "nat \<Rightarrow> 'a kst_scheme \<Rightarrow> 'a kst_scheme res" where
  "remrq p st = (if qs st = Some p then Inr (st\<lparr>qs := plink st p\<rparr>) else remrq_go (Suc NPROC) p (qs st) st)"

text \<open>The assignment \<open>*hp = v\<close> for a place \<open>hp\<close> of the sleep queue \<open>h\<close>.\<close>

definition set_slpq :: "nat \<Rightarrow> nat option \<Rightarrow> nat option \<Rightarrow> 'a kst_scheme \<Rightarrow> 'a kst_scheme" where
  "set_slpq h q v st =
     (case q of None \<Rightarrow> st\<lparr>slpque := (slpque st)(h := v)\<rparr> | Some i \<Rightarrow> updp i (\<lambda>r. r\<lparr>p_link := v\<rparr>) st)"

fun unsleep_go :: "nat \<Rightarrow> nat \<Rightarrow> nat \<Rightarrow> nat option \<Rightarrow> 'a kst_scheme \<Rightarrow> 'a kst_scheme res" where
  "unsleep_go 0 p h hp st = Inl Loop"
| "unsleep_go (Suc n) p h hp st =
     (case deref (slpque st h) (plink st) hp of
        None \<Rightarrow> Inl Fault
      | Some i \<Rightarrow> if i = p then Inr (set_slpq h hp (plink st p) st) else unsleep_go n p h (Some i) st)"

definition unsleep :: "nat \<Rightarrow> 'a kst_scheme \<Rightarrow> 'a kst_scheme res" where
  "unsleep p st =
     (if p_of st p_wchan p \<noteq> 0
      then rbind (unsleep_go (Suc NPROC) p (HASH (p_of st p_wchan p)) None st) (\<lambda>st.
             Inr (updp p (\<lambda>r. r\<lparr>p_wchan := 0\<rparr>) st))
      else Inr st)"

definition setpri :: "nat \<Rightarrow> 'a kst_scheme \<Rightarrow> int \<times> 'a kst_scheme" where
  "setpri pp st =
     (let p = p_of st p_cpu pp mod 256 div 16;
          p = p + (PUSER + p_of st p_nice pp);
          p = (if p > 127 then 127 else p);
          st = (if p < curpri st then st\<lparr>runrun := runrun st + 1\<rparr> else st)
      in (p, updp pp (\<lambda>r. r\<lparr>p_pri := schar p\<rparr>) st))"

text \<open>
  The loop of \<open>updatepri\<close>. \<open>SCHMAG\<close> is the text \<open>8/10\<close>, so \<open>SCHMAG * a\<close> is
  \<open>8/10 * a\<close>, which C reads as \<open>(8/10) * a\<close>.
\<close>

function updatepri_loop :: "int \<Rightarrow> int \<Rightarrow> int \<times> int" where
  "updatepri_loop a slp =
     (if a \<noteq> 0
      then let slp = schar (slp - 1)
           in if slp \<noteq> 0 then updatepri_loop (cdiv 8 10 * a) slp else (a, slp)
      else (a, slp))"
  by pat_completeness auto
termination
  by (relation "measure (\<lambda>(a, slp). nat \<bar>a\<bar>)") (auto simp: cdiv_def)

declare updatepri_loop.simps [simp del]

definition updatepri :: "nat \<Rightarrow> 'a kst_scheme \<Rightarrow> 'a kst_scheme" where
  "updatepri p st =
     (let (a, slp) = updatepri_loop (p_of st p_cpu p mod 256) (schar (p_of st p_slptime p - 1));
          a = (if a < 0 then 0 else a);
          a = (if a > 255 then 255 else a)
      in snd (setpri p (updp p (\<lambda>r. r\<lparr>p_slptime := slp, p_cpu := schar a\<rparr>) st)))"

text \<open>The inline expansion of \<open>setrun\<close> in \<open>wakeup\<close>, up to \<open>runrun++\<close>.\<close>

definition wakeup_run :: "nat \<Rightarrow> 'a kst_scheme \<Rightarrow> 'a kst_scheme" where
  "wakeup_run p st =
     (let st = (if p_of st p_slptime p > 1 then updatepri p st else st);
          st = updp p (\<lambda>r. r\<lparr>p_slptime := 0, p_stat := SRUN\<rparr>) st;
          st = (if tst (p_of st p_flag p) SLOAD then setrq p st else st)
      in st\<lparr>runrun := runrun st + 1\<rparr>)"

text \<open>
  \<open>wakeup\<close>: \<open>q\<close> is the place whose pointer is examined next; a process that was asleep
  restarts the search from the head of the queue. The inner call wakes the swapper.
\<close>

fun wakeup_go :: "nat \<Rightarrow> u32 \<Rightarrow> nat option \<Rightarrow> 'a kst_scheme \<Rightarrow> 'a kst_scheme res" where
  "wakeup_go 0 chan q st = Inl Loop"
| "wakeup_go (Suc n) chan q st =
     (case deref (slpque st (HASH chan)) (plink st) q of
        None \<Rightarrow> Inr st
      | Some p \<Rightarrow>
          if p_of st p_stat p \<noteq> SSLEEP \<and> p_of st p_stat p \<noteq> SSTOP then Inl (Panic ''wakeup'')
          else if p_of st p_wchan p = chan
          then let st = updp p (\<lambda>r. r\<lparr>p_wchan := 0\<rparr>) st;
                   st = set_slpq (HASH chan) q (plink st p) st
               in if p_of st p_stat p = SSLEEP
                  then let st = wakeup_run p st
                       in rbind (if \<not> tst (p_of st p_flag p) SLOAD \<and> runout st \<noteq> 0
                                 then wakeup_go n (a_runout (lay st)) None (st\<lparr>runout := 0\<rparr>)
                                 else Inr st)
                            (wakeup_go n chan None)
                  else wakeup_go n chan q (updp p (\<lambda>r. r\<lparr>p_slptime := 0\<rparr>) st)
          else wakeup_go n chan (Some p) st)"

definition wakeup :: "u32 \<Rightarrow> 'a kst_scheme \<Rightarrow> 'a kst_scheme res" where
  "wakeup chan st = wakeup_go (Suc NPROC * Suc NPROC) chan None st"

definition setrun :: "nat \<Rightarrow> 'a kst_scheme \<Rightarrow> 'a kst_scheme res" where
  "setrun p st =
     rbind (if p_of st p_stat p = SSTOP \<or> p_of st p_stat p = SSLEEP then unsleep p st
            else if p_of st p_stat p = SIDL then Inr st
            else Inl (Panic ''setrun'')) (\<lambda>st.
     let st = (if p_of st p_slptime p > 1 then updatepri p st else st);
         st = updp p (\<lambda>r. r\<lparr>p_stat := SRUN\<rparr>) st;
         st = (if tst (p_of st p_flag p) SLOAD then setrq p st else st);
         st = (if p_of st p_pri p < curpri st then st\<lparr>runrun := runrun st + 1\<rparr> else st)
     in if \<not> tst (p_of st p_flag p) SLOAD \<and> runout st \<noteq> 0
        then wakeup (a_runout (lay st)) (st\<lparr>runout := 0\<rparr>)
        else Inr st)"

definition endtsleep :: "nat \<Rightarrow> 'a kst_scheme \<Rightarrow> 'a kst_scheme res" where
  "endtsleep p st =
     (if p_of st p_wchan p \<noteq> 0
      then rbind (if p_of st p_stat p = SSLEEP then setrun p st else unsleep p st) (\<lambda>st.
             Inr (updp p (\<lambda>r. r\<lparr>p_flag := p_flag r OR P_TIMEOUT\<rparr>) st))
      else Inr st)"

text \<open>
  \<open>swtch\<close> after the context has been saved: the scan of the run queue (\<open>pp\<close> is the best
  process so far, \<open>pq\<close> the one before it and \<open>n\<close> its priority), and the dispatch.
  The result is the process to resume, whether it resumes from \<open>u_ssave\<close>, and the new
  state; \<open>None\<close> when no process can run and the machine idles.
\<close>

fun swtch_scan :: "nat \<Rightarrow> 'a kst_scheme \<Rightarrow> nat option \<Rightarrow> nat option \<Rightarrow> nat option \<Rightarrow> nat option \<Rightarrow> int
    \<Rightarrow> (nat option \<times> nat option \<times> int) res" where
  "swtch_scan 0 st p q pp pq n = Inl Loop"
| "swtch_scan (Suc k) st p q pp pq n =
     (case p of
        None \<Rightarrow> Inr (pp, pq, n)
      | Some i \<Rightarrow>
          if tst (p_of st p_flag i) SLOAD \<and> p_of st p_pri i < n
          then swtch_scan k st (plink st i) (Some i) (Some i) q (p_of st p_pri i)
          else swtch_scan k st (plink st i) (Some i) pp pq n)"

definition swtch_pick :: "'a kst_scheme \<Rightarrow> ((nat \<times> bool) option \<times> 'a kst_scheme) res" where
  "swtch_pick st =
     (let st = st\<lparr>noproc := 0, runrun := 0\<rparr>
      in rbind (swtch_scan (Suc NPROC) st (qs st) None None None 128) (\<lambda>(pp, pq, n).
           case pp of
             None \<Rightarrow> Inr (None, st)
           | Some p \<Rightarrow>
               let st = (case pq of
                           None \<Rightarrow> st\<lparr>qs := plink st p\<rparr>
                         | Some j \<Rightarrow> updp j (\<lambda>r. r\<lparr>p_link := plink st p\<rparr>) st);
                   st = st\<lparr>curpri := schar n\<rparr>;
                   ssave = tst (p_of st p_flag p) SSWAP;
                   st = updp p (\<lambda>r. r\<lparr>p_flag := p_flag r AND NOT SSWAP\<rparr>) st
               in Inr (Some (p, ssave), st)))"

subsection \<open>Consistency of the queues\<close>

text \<open>
  \<open>qlinks st rq sq\<close>: the run queue is \<open>rq\<close> and holds runnable processes in core; the sleep
  queue with number \<open>h\<close> is \<open>sq h\<close> and holds exactly the processes that wait on a channel
  with that hash. In \<open>queues\<close>, in addition every sleeping process waits on a channel.
\<close>

definition qlinks :: "'a kst_scheme \<Rightarrow> nat list \<Rightarrow> (nat \<Rightarrow> nat list) \<Rightarrow> bool" where
  "qlinks st rq sq \<longleftrightarrow>
     chain (plink st) (qs st) rq
     \<and> (\<forall>i \<in> set rq. i < NPROC \<and> p_of st p_stat i = SRUN \<and> tst (p_of st p_flag i) SLOAD \<and> p_of st p_wchan i = 0)
     \<and> (\<forall>h < SQSIZE. chain (plink st) (slpque st h) (sq h))
     \<and> (\<forall>h < SQSIZE. \<forall>i \<in> set (sq h). i < NPROC \<and> p_of st p_wchan i \<noteq> 0 \<and> HASH (p_of st p_wchan i) = h
               \<and> p_of st p_stat i \<in> {SSLEEP, SSTOP})
     \<and> (\<forall>i < NPROC. p_of st p_wchan i \<noteq> 0 \<longrightarrow> i \<in> set (sq (HASH (p_of st p_wchan i))))"

definition queues :: "'a kst_scheme \<Rightarrow> nat list \<Rightarrow> (nat \<Rightarrow> nat list) \<Rightarrow> bool" where
  "queues st rq sq \<longleftrightarrow> qlinks st rq sq \<and> (\<forall>i < NPROC. p_of st p_stat i = SSLEEP \<longrightarrow> p_of st p_wchan i \<noteq> 0)"

lemma HASH_less: "HASH x < SQSIZE"
proof -
  have "drop_bit 5 x AND 15 = take_bit 4 (drop_bit 5 x)"
    by (simp add: take_bit_eq_mask mask_eq_exp_minus_1)
  then show ?thesis by (simp add: HASH_def unsigned_take_bit_eq take_bit_nat_less_exp [of 4, simplified])
qed

lemma qlinksD:
  assumes "qlinks st rq sq"
  shows "chain (plink st) (qs st) rq"
    and "i \<in> set rq \<Longrightarrow> i < NPROC \<and> p_of st p_stat i = SRUN \<and> tst (p_of st p_flag i) SLOAD \<and> p_of st p_wchan i = 0"
    and "h < SQSIZE \<Longrightarrow> chain (plink st) (slpque st h) (sq h)"
    and "h < SQSIZE \<Longrightarrow> i \<in> set (sq h) \<Longrightarrow>
      i < NPROC \<and> p_of st p_wchan i \<noteq> 0 \<and> HASH (p_of st p_wchan i) = h \<and> p_of st p_stat i \<in> {SSLEEP, SSTOP}"
    and "i < NPROC \<Longrightarrow> p_of st p_wchan i \<noteq> 0 \<Longrightarrow> i \<in> set (sq (HASH (p_of st p_wchan i)))"
  using assms unfolding qlinks_def by blast+

lemma qlinks_cong:
  assumes "qlinks st rq sq" and "qs st' = qs st" and "slpque st' = slpque st"
    and "\<And>i. plink st' i = plink st i \<and> p_of st' p_stat i = p_of st p_stat i \<and> p_of st' p_flag i = p_of st p_flag i
      \<and> p_of st' p_wchan i = p_of st p_wchan i"
  shows "qlinks st' rq sq"
  using assms(1) unfolding qlinks_def assms(2,3) by (simp add: assms(4))

text \<open>A process on no queue can be changed at will.\<close>

lemma qlinks_updp_off:
  assumes q: "qlinks st rq sq" and "i \<notin> set rq" and "p_of st p_wchan i = 0" and "p_wchan (f (procs st i)) = 0"
  shows "qlinks (updp i f st) rq sq"
proof -
  have off: "i \<notin> set (sq h)" if "h < SQSIZE" for h using qlinksD(4) [OF q that] assms(3) by blast
  have c1: "chain (plink (updp i f st)) (qs st) rq"
    using qlinksD(1) [OF q] assms(2) by (subst chain_cong [of _ _ "plink st"]) auto
  have c2: "chain (plink (updp i f st)) (slpque st h) (sq h)" if "h < SQSIZE" for h
    using qlinksD(3) [OF q that] off [OF that] by (subst chain_cong [of _ _ "plink st"]) auto
  show ?thesis unfolding qlinks_def
  proof (intro conjI ballI allI impI)
    fix h j assume "h < SQSIZE" "j \<in> set (sq h)"
    with qlinksD(4) [OF q this] off show "j < NPROC" "p_of (updp i f st) p_wchan j \<noteq> 0"
      "HASH (p_of (updp i f st) p_wchan j) = h" "p_of (updp i f st) p_stat j \<in> {SSLEEP, SSTOP}" by auto
  qed (use c1 c2 qlinksD(2,5) [OF q] assms(2,4) in \<open>auto split: if_splits\<close>)
qed

subsection \<open>What scheduling may change\<close>

definition sched_only :: "proc \<Rightarrow> proc \<Rightarrow> bool" where
  "sched_only p p' \<longleftrightarrow>
     p_nxt p' = p_nxt p \<and> p_prev p' = p_prev p \<and> p_pptr p' = p_pptr p \<and> p_flag p' = p_flag p
     \<and> p_uid p' = p_uid p \<and> p_pid p' = p_pid p \<and> p_ppid p' = p_ppid p \<and> p_sig p' = p_sig p
     \<and> p_time p' = p_time p \<and> p_nice p' = p_nice p \<and> p_ptracesig p' = p_ptracesig p \<and> p_hash p' = p_hash p
     \<and> p_sigmask p' = p_sigmask p \<and> p_sigignore p' = p_sigignore p \<and> p_sigcatch p' = p_sigcatch p \<and> p_pgrp p' = p_pgrp p
     \<and> p_addr p' = p_addr p \<and> p_daddr p' = p_daddr p \<and> p_saddr p' = p_saddr p \<and> p_dsize p' = p_dsize p
     \<and> p_ssize p' = p_ssize p \<and> p_realtimer p' = p_realtimer p \<and> p_xstat p' = p_xstat p \<and> p_ru p' = p_ru p"

definition sframe :: "'a kst_scheme \<Rightarrow> 'a kst_scheme \<Rightarrow> bool" where
  "sframe st st' \<longleftrightarrow>
     lay st' = lay st \<and> pidhash st' = pidhash st \<and> allproc st' = allproc st \<and> freeproc st' = freeproc st
     \<and> zombproc st' = zombproc st \<and> curpri st' = curpri st \<and> noproc st' = noproc st \<and> runin st' = runin st
     \<and> panicstr st' = panicstr st \<and> callouts st' = callouts st \<and> callfree st' = callfree st \<and> calltodo st' = calltodo st
     \<and> lbolt st' = lbolt st \<and> time st' = time st \<and> adjdelta st' = adjdelta st \<and> boottime st' = boottime st
     \<and> cp_time st' = cp_time st \<and> uu st' = uu st \<and> umem st' = umem st \<and> tz st' = tz st
     \<and> avenrun st' = avenrun st \<and> freemem st' = freemem st \<and> avefree st' = avefree st \<and> avefree30 st' = avefree30 st
     \<and> cnt st' = cnt st \<and> rate st' = rate st \<and> vsum st' = vsum st \<and> vtotal st' = vtotal st \<and> kst.more st' = kst.more st
     \<and> (\<forall>i. sched_only (procs st i) (procs st' i))"

lemma sched_only_refl [simp]: "sched_only p p"
  by (simp add: sched_only_def)

lemma sframe_refl [simp]: "sframe st st"
  by (simp add: sframe_def)

lemma sframe_trans [trans]: "sframe st st' \<Longrightarrow> sframe st' st'' \<Longrightarrow> sframe st st''"
  unfolding sframe_def sched_only_def by simp

lemma sframe_flag: "sframe st st' \<Longrightarrow> p_of st' p_flag i = p_of st p_flag i"
  by (simp add: sframe_def sched_only_def)

lemma sframe_lay: "sframe st st' \<Longrightarrow> lay st' = lay st"
  by (simp add: sframe_def)

lemma sframe_updp: "(\<And>p. sched_only p (f p)) \<Longrightarrow> sframe st (updp i f st)"
  by (simp add: sframe_def)

lemma sframe_setrq: "sframe st (setrq p st)"
  by (simp add: sframe_def setrq_def sched_only_def)

lemma sframe_set_slpq: "sframe st (set_slpq h q v st)"
  by (cases q) (simp_all add: sframe_def set_slpq_def sched_only_def)

lemma sframe_runs [simp]: "sframe st (st\<lparr>runrun := x\<rparr>)" "sframe st (st\<lparr>runout := y\<rparr>)" "sframe st (st\<lparr>qs := z\<rparr>)"
  by (simp_all add: sframe_def)

subsection \<open>Priorities\<close>

lemma setpri_frame: "sframe st (snd (setpri p st))"
  by (simp add: setpri_def Let_def sframe_def sched_only_def)

lemma setpri_queues:
  "qs (snd (setpri p st)) = qs st" "slpque (snd (setpri p st)) = slpque st" "runout (snd (setpri p st)) = runout st"
  "plink (snd (setpri p st)) i = plink st i" "p_of (snd (setpri p st)) p_stat i = p_of st p_stat i"
  "p_of (snd (setpri p st)) p_wchan i = p_of st p_wchan i" "p_of (snd (setpri p st)) p_slptime i = p_of st p_slptime i"
  by (simp_all add: setpri_def Let_def)

lemma updatepri_frame: "sframe st (updatepri p st)"
  unfolding updatepri_def Let_def case_prod_unfold
  by (rule sframe_trans [OF sframe_updp setpri_frame]) (simp add: sched_only_def)

lemma updatepri_queues:
  "qs (updatepri p st) = qs st" "slpque (updatepri p st) = slpque st" "runout (updatepri p st) = runout st"
  "plink (updatepri p st) i = plink st i" "p_of (updatepri p st) p_stat i = p_of st p_stat i"
  "p_of (updatepri p st) p_wchan i = p_of st p_wchan i"
  "i \<noteq> p \<Longrightarrow> procs (updatepri p st) i = procs st i"
  unfolding updatepri_def Let_def case_prod_unfold
  by (simp_all add: setpri_queues) (simp_all add: setpri_def Let_def)

lemma updatepri_flag: "p_of (updatepri p st) p_flag i = p_of st p_flag i"
  by (rule sframe_flag [OF updatepri_frame])

text \<open>The two steps of removing a process from a sleep queue and of queueing it to run.\<close>

lemma set_slpq_place:
  "slpque (set_slpq h q v st) = (slpque st)(h := set_head q v (slpque st h))"
  "plink (set_slpq h q v st) i = set_nx q v (plink st) i"
  "qs (set_slpq h q v st) = qs st" "runout (set_slpq h q v st) = runout st" "runrun (set_slpq h q v st) = runrun st"
  by (cases q; simp add: set_slpq_def)+

lemma set_slpq_fields:
  "p_of (set_slpq h q v st) p_stat i = p_of st p_stat i" "p_of (set_slpq h q v st) p_wchan i = p_of st p_wchan i"
  "p_of (set_slpq h q v st) p_flag i = p_of st p_flag i" "p_of (set_slpq h q v st) p_slptime i = p_of st p_slptime i"
  "p_of (set_slpq h q v st) p_pri i = p_of st p_pri i"
  by (cases q; simp add: set_slpq_def)+

lemma qlinks_unlink:
  assumes q: "qlinks st rq sq" and h: "h < SQSIZE" and sq: "sq h = xs @ i # ys"
  shows "qlinks (set_slpq h (last_opt xs) (plink st i) (updp i (\<lambda>r. r\<lparr>p_wchan := 0\<rparr>) st)) rq (sq(h := xs @ ys))"
    (is "qlinks ?s rq ?sq")
proof -
  have c: "chain (plink st) (slpque st h) (xs @ i # ys)" using qlinksD(3) [OF q h] sq by simp
  have d: "distinct (xs @ i # ys)" by (rule chain_distinct [OF c])
  have W: "p_of ?s p_wchan j = (if j = i then 0 else p_of st p_wchan j)" "p_of ?s p_stat j = p_of st p_stat j"
    "p_of ?s p_flag j = p_of st p_flag j" for j by (simp_all add: set_slpq_fields)
  have L: "plink ?s j = set_nx (last_opt xs) (plink st i) (plink st) j" for j
    by (cases xs rule: rev_cases) (simp_all add: set_slpq_place)
  have same: "plink ?s j = plink st j" if "j \<notin> set (sq h)" for j
    using that sq unfolding L by (cases xs rule: rev_cases) auto
  have rq: "j \<notin> set (sq h)" if "j \<in> set rq" for j using qlinksD(2) [OF q that] qlinksD(4) [OF q h] by blast
  have oth: "j \<notin> set (sq h)" if "j \<in> set (sq h')" "h' < SQSIZE" "h' \<noteq> h" for j h'
    using qlinksD(4) [OF q that(2,1)] qlinksD(4) [OF q h, of j] that(3) by auto
  have ih: "i \<in> set (sq h)" using sq by simp
  have Q1: "chain (plink ?s) (qs ?s) rq"
    using qlinksD(1) [OF q] rq same by (subst chain_cong [of _ _ "plink st"]) (auto simp: set_slpq_place)
  have Q3: "chain (plink ?s) (slpque ?s h') (?sq h')" if "h' < SQSIZE" for h'
  proof (cases "h' = h")
    case True
    have "chain (set_nx (last_opt xs) (plink st i) (plink st)) (set_head (last_opt xs) (plink st i) (slpque st h)) (xs @ ys)"
      by (rule chain_remove_after [OF c])
    then show ?thesis using True by (subst chain_cong [of _ _ "set_nx (last_opt xs) (plink st i) (plink st)"])
        (simp_all add: L set_slpq_place(1))
  next
    case False
    then show ?thesis using qlinksD(3) [OF q that] oth [OF _ that False] same
      by (subst chain_cong [of _ _ "plink st"]) (auto simp: set_slpq_place)
  qed
  have Q4: "j < NPROC \<and> p_of ?s p_wchan j \<noteq> 0 \<and> HASH (p_of ?s p_wchan j) = h' \<and> p_of ?s p_stat j \<in> {SSLEEP, SSTOP}"
    if "h' < SQSIZE" "j \<in> set (?sq h')" for h' j
  proof -
    have m: "j \<in> set (sq h')" using that sq by (auto split: if_splits)
    have "j \<noteq> i"
    proof (cases "h' = h")
      case True
      then show ?thesis using that d by auto
    next
      case False
      then show ?thesis using oth [OF m that(1)] ih by auto
    qed
    then show ?thesis using qlinksD(4) [OF q that(1) m] W by simp
  qed
  have Q5: "j \<in> set (?sq (HASH (p_of ?s p_wchan j)))" if "j < NPROC" "p_of ?s p_wchan j \<noteq> 0" for j
  proof -
    have j: "j \<noteq> i" "p_of ?s p_wchan j = p_of st p_wchan j" using that(2) W by (auto split: if_splits)
    then have "j \<in> set (sq (HASH (p_of st p_wchan j)))" using qlinksD(5) [OF q that(1)] that(2) by simp
    then show ?thesis using j sq by auto
  qed
  have "\<forall>j \<in> set rq. j < NPROC \<and> p_of ?s p_stat j = SRUN \<and> tst (p_of ?s p_flag j) SLOAD \<and> p_of ?s p_wchan j = 0"
    using qlinksD(2) [OF q] W by auto
  then show ?thesis unfolding qlinks_def using Q1 Q3 Q4 Q5 by blast
qed

lemma qlinks_setrq:
  assumes q: "qlinks st rq sq" and "i < NPROC" and "i \<notin> set rq" and "p_of st p_wchan i = 0"
    and "p_of st p_stat i = SRUN" and "tst (p_of st p_flag i) SLOAD"
  shows "qlinks (setrq i st) (i # rq) sq"
proof -
  have "qlinks (updp i (\<lambda>r. r\<lparr>p_link := qs st\<rparr>) st) rq sq" using assms by (intro qlinks_updp_off) simp_all
  then show ?thesis using assms(2-6) unfolding qlinks_def setrq_def by auto
qed

subsection \<open>wakeup\<close>

lemma wakeup_run_other: "i \<noteq> p \<Longrightarrow> procs (wakeup_run p st) i = procs st i"
  by (simp add: wakeup_run_def Let_def setrq_def updatepri_queues)

lemma wakeup_run_fields:
  "p_of (wakeup_run p st) p_wchan i = p_of st p_wchan i" "p_of (wakeup_run p st) p_stat p = SRUN"
  "p_of (wakeup_run p st) p_slptime p = 0" "runout (wakeup_run p st) = runout st"
  by (auto simp add: wakeup_run_def Let_def setrq_def updatepri_queues)

lemma wakeup_run_frame: "sframe st (wakeup_run p st)"
proof -
  let ?s1 = "if p_of st p_slptime p > 1 then updatepri p st else st"
  let ?s2 = "updp p (\<lambda>r. r\<lparr>p_slptime := 0, p_stat := SRUN\<rparr>) ?s1"
  let ?s3 = "if tst (p_of ?s2 p_flag p) SLOAD then setrq p ?s2 else ?s2"
  have "sframe st ?s1" by (simp add: updatepri_frame)
  also have "sframe ?s1 ?s2" by (rule sframe_updp) (simp add: sched_only_def)
  also have "sframe ?s2 ?s3" by (simp add: sframe_setrq)
  also have "sframe ?s3 (?s3\<lparr>runrun := runrun ?s3 + 1\<rparr>)" by simp
  finally show ?thesis unfolding wakeup_run_def Let_def .
qed

lemma qlinks_wakeup_run:
  assumes q: "qlinks st rq sq" and p: "p < NPROC" "p \<notin> set rq" "p_of st p_wchan p = 0"
  shows "qlinks (wakeup_run p st) ((if tst (p_of st p_flag p) SLOAD then [p] else []) @ rq) sq"
proof -
  define s1 where "s1 = (if p_of st p_slptime p > 1 then updatepri p st else st)"
  have f1: "p_of s1 p_wchan i = p_of st p_wchan i" "p_of s1 p_flag i = p_of st p_flag i" for i
    by (simp_all add: s1_def updatepri_queues updatepri_flag)
  have "qlinks s1 rq sq"
    unfolding s1_def by (intro qlinks_cong [OF q]) (simp_all add: updatepri_queues updatepri_flag)
  define s2 where "s2 = updp p (\<lambda>r. r\<lparr>p_slptime := 0, p_stat := SRUN\<rparr>) s1"
  have s2: "qlinks s2 rq sq"
    unfolding s2_def using \<open>qlinks s1 rq sq\<close> p f1 by (intro qlinks_updp_off) simp_all
  define s3 where "s3 = (if tst (p_of s2 p_flag p) SLOAD then setrq p s2 else s2)"
  have fl: "p_of s2 p_flag p = p_of st p_flag p" by (simp add: s2_def f1)
  have "qlinks s3 ((if tst (p_of st p_flag p) SLOAD then [p] else []) @ rq) sq"
    using s2 p qlinks_setrq [OF s2 p(1,2)] f1 fl by (simp add: s3_def) (simp add: s2_def f1)
  then have "qlinks (s3\<lparr>runrun := runrun s3 + 1\<rparr>) ((if tst (p_of st p_flag p) SLOAD then [p] else []) @ rq) sq"
    by (rule qlinks_cong) simp_all
  then show ?thesis unfolding wakeup_run_def Let_def s3_def s2_def s1_def .
qed

text \<open>
  \<open>woke S st st'\<close>: a process that waited on a channel in \<open>S\<close> may have been taken off its
  sleep queue and, if it was asleep, made runnable; every other process is as before.
\<close>

definition woke :: "u32 set \<Rightarrow> 'a kst_scheme \<Rightarrow> 'a kst_scheme \<Rightarrow> bool" where
  "woke S st st' \<longleftrightarrow> (\<forall>i.
     (p_of st' p_wchan i = p_of st p_wchan i \<and> p_of st' p_stat i = p_of st p_stat i
        \<and> p_of st' p_slptime i = p_of st p_slptime i)
     \<or> (p_of st p_wchan i \<in> S \<and> p_of st p_wchan i \<noteq> 0 \<and> p_of st' p_wchan i = 0 \<and> p_of st' p_slptime i = 0
        \<and> p_of st' p_stat i = (if p_of st p_stat i = SSLEEP then SRUN else p_of st p_stat i)))"

lemma woke_refl: "woke S st st"
  by (simp add: woke_def)

lemma woke_trans: "woke S st st' \<Longrightarrow> woke S' st' st'' \<Longrightarrow> S \<subseteq> T \<Longrightarrow> S' \<subseteq> T \<Longrightarrow> woke T st st''"
  unfolding woke_def
proof (intro allI, goal_cases)
  case (1 i)
  from 1(1) [rule_format, of i] show ?case
  proof
    assume "p_of st' p_wchan i = p_of st p_wchan i \<and> p_of st' p_stat i = p_of st p_stat i \<and> p_of st' p_slptime i = p_of st p_slptime i"
    with 1(2) [rule_format, of i] 1(4) show ?thesis by auto
  next
    assume "p_of st p_wchan i \<in> S \<and> p_of st p_wchan i \<noteq> 0 \<and> p_of st' p_wchan i = 0 \<and> p_of st' p_slptime i = 0
        \<and> p_of st' p_stat i = (if p_of st p_stat i = SSLEEP then SRUN else p_of st p_stat i)"
    with 1(2) [rule_format, of i] 1(3) show ?thesis by auto
  qed
qed

definition tot :: "(nat \<Rightarrow> nat list) \<Rightarrow> nat" where
  "tot sq = (\<Sum>h < SQSIZE. length (sq h))"

lemma tot_remove: "h < SQSIZE \<Longrightarrow> sq h = xs @ i # ys \<Longrightarrow> Suc (tot (sq(h := xs @ ys))) = tot sq"
proof -
  assume h: "h < SQSIZE" and sq: "sq h = xs @ i # ys"
  have "tot sq = length (sq h) + (\<Sum>k \<in> {..<SQSIZE} - {h}. length (sq k))"
    unfolding tot_def using h by (intro sum.remove) auto
  moreover have "tot (sq(h := xs @ ys)) = length (xs @ ys) + (\<Sum>k \<in> {..<SQSIZE} - {h}. length ((sq(h := xs @ ys)) k))"
    unfolding tot_def using h by (subst sum.remove [of _ h]) auto
  moreover have "(\<Sum>k \<in> {..<SQSIZE} - {h}. length ((sq(h := xs @ ys)) k)) = (\<Sum>k \<in> {..<SQSIZE} - {h}. length (sq k))"
    by (rule sum.cong) auto
  ultimately show ?thesis using sq by simp
qed

lemma qlinks_bucket: "qlinks st rq sq \<Longrightarrow> h < SQSIZE \<Longrightarrow> length (sq h) \<le> NPROC"
  by (rule chain_length [OF qlinksD(3)]) (auto dest: qlinksD(4))

lemma qlinks_tot: "qlinks st rq sq \<Longrightarrow> tot sq \<le> NPROC"
proof -
  assume q: "qlinks st rq sq"
  have "tot sq = (\<Sum>h < SQSIZE. card (set (sq h)))"
    unfolding tot_def using chain_distinct [OF qlinksD(3) [OF q]] by (intro sum.cong) (auto simp: distinct_card)
  also have "\<dots> = card (\<Union>h < SQSIZE. set (sq h))"
  proof (rule card_UN_disjoint [symmetric])
    show "\<forall>h \<in> {..<SQSIZE}. \<forall>k \<in> {..<SQSIZE}. h \<noteq> k \<longrightarrow> set (sq h) \<inter> set (sq k) = {}"
      using qlinksD(4) [OF q] unfolding disjoint_iff by (metis lessThan_iff)
  qed simp_all
  also have "\<dots> \<le> card {..<NPROC}" using qlinksD(4) [OF q] by (intro card_mono) auto
  finally show ?thesis by simp
qed

text \<open>What the search has still to do when it stands before \<open>ys\<close> in the queue of \<open>chan\<close>.\<close>

definition chans :: "u32 \<Rightarrow> 'a kst_scheme \<Rightarrow> u32 set" where
  "chans chan st = insert chan (if runout st \<noteq> 0 then {a_runout (lay st)} else {})"

definition wakeup_post :: "u32 \<Rightarrow> 'a kst_scheme \<Rightarrow> nat list \<Rightarrow> (nat \<Rightarrow> nat list) \<Rightarrow> 'a kst_scheme \<Rightarrow> nat list \<Rightarrow> (nat \<Rightarrow> nat list) \<Rightarrow> bool" where
  "wakeup_post chan st rq sq st' ws sq' \<longleftrightarrow>
     queues st' (ws @ rq) sq' \<and> sframe st st' \<and> woke (chans chan st) st st'
     \<and> (runout st' = runout st \<or> runout st' = 0) \<and> tot sq' \<le> tot sq
     \<and> (\<forall>i < NPROC. p_of st p_stat i = SSLEEP \<longrightarrow> p_of st' p_stat i \<noteq> SSLEEP \<longrightarrow> tst (p_of st p_flag i) SLOAD \<longrightarrow> i \<in> set ws)"

lemma wakeup_post_refl: "queues st rq sq \<Longrightarrow> wakeup_post chan st rq sq st [] sq"
  by (simp add: wakeup_post_def woke_refl)

lemma wakeup_post_trans:
  assumes "wakeup_post c1 st rq sq st1 ws1 sq1" and "wakeup_post c2 st1 (ws1 @ rq) sq1 st2 ws2 sq2"
    and "chans c1 st \<subseteq> chans chan st" and "c2 \<in> chans chan st"
  shows "wakeup_post chan st rq sq st2 (ws2 @ ws1) sq2"
proof -
  have fr: "sframe st st1" "sframe st1 st2" and wk: "woke (chans c1 st) st st1" "woke (chans c2 st1) st1 st2"
    and ro: "runout st1 = runout st \<or> runout st1 = 0" using assms(1,2) by (simp_all add: wakeup_post_def)
  have "chans c2 st1 \<subseteq> chans chan st" using assms(4) ro sframe_lay [OF fr(1)] by (auto simp: chans_def)
  then have W: "woke (chans chan st) st st2" by (rule woke_trans [OF wk assms(3)])
  have "i \<in> set (ws2 @ ws1)" if "i < NPROC" "p_of st p_stat i = SSLEEP" "p_of st2 p_stat i \<noteq> SSLEEP" "tst (p_of st p_flag i) SLOAD" for i
    using assms(1,2) that sframe_flag [OF fr(1), of i] unfolding wakeup_post_def
    by (cases "p_of st1 p_stat i = SSLEEP") auto
  then show ?thesis using assms(1,2) W fr sframe_trans [OF fr] unfolding wakeup_post_def by auto
qed

text \<open>Taking one process off the queue of \<open>chan\<close>: a stopped process stays stopped, a sleeping one becomes runnable.\<close>

lemma wakeup_one:
  assumes q: "queues st rq sq" and sq: "sq (HASH chan) = xs @ p # ys" and ch: "p_of st p_wchan p = chan"
  defines "st1 \<equiv> set_slpq (HASH chan) (last_opt xs) (plink st p) (updp p (\<lambda>r. r\<lparr>p_wchan := 0\<rparr>) st)"
  shows "p_of st p_stat p = SSTOP \<Longrightarrow>
      wakeup_post chan st rq sq (updp p (\<lambda>r. r\<lparr>p_slptime := 0\<rparr>) st1) [] (sq(HASH chan := xs @ ys))"
    and "p_of st p_stat p = SSLEEP \<Longrightarrow>
      wakeup_post chan st rq sq (wakeup_run p st1) (if tst (p_of st p_flag p) SLOAD then [p] else []) (sq(HASH chan := xs @ ys))"
proof -
  have ql: "qlinks st rq sq" and sl: "\<And>i. i < NPROC \<Longrightarrow> p_of st p_stat i = SSLEEP \<Longrightarrow> p_of st p_wchan i \<noteq> 0"
    using q by (simp_all add: queues_def)
  have ps: "p \<in> set (sq (HASH chan))" using sq by simp
  have p: "p < NPROC" "p_of st p_wchan p \<noteq> 0" using qlinksD(4) [OF ql HASH_less ps] by auto
  have prq: "p \<notin> set rq" using qlinksD(2) [OF ql, of p] p by auto
  have ql1: "qlinks st1 rq (sq(HASH chan := xs @ ys))"
    unfolding st1_def by (rule qlinks_unlink [OF ql HASH_less sq])
  have F1: "p_of st1 p_wchan i = (if i = p then 0 else p_of st p_wchan i)" "p_of st1 p_stat i = p_of st p_stat i"
    "p_of st1 p_flag i = p_of st p_flag i" "p_of st1 p_slptime i = p_of st p_slptime i" "runout st1 = runout st" for i
    by (simp_all add: st1_def set_slpq_fields set_slpq_place)
  have fr1: "sframe st st1" unfolding st1_def
    by (rule sframe_trans [OF sframe_updp sframe_set_slpq]) (simp add: sched_only_def)
  have t: "tot (sq(HASH chan := xs @ ys)) \<le> tot sq" using tot_remove [of "HASH chan" sq xs p ys, OF HASH_less sq] by simp
  have cc: "p_of st p_wchan p \<in> chans chan st" using ch by (simp add: chans_def)
  show "wakeup_post chan st rq sq (updp p (\<lambda>r. r\<lparr>p_slptime := 0\<rparr>) st1) [] (sq(HASH chan := xs @ ys))"
    if "p_of st p_stat p = SSTOP"
  proof -
    let ?s = "updp p (\<lambda>r. r\<lparr>p_slptime := 0\<rparr>) st1"
    have "qlinks ?s rq (sq(HASH chan := xs @ ys))" by (rule qlinks_cong [OF ql1]) simp_all
    moreover have "sframe st1 ?s" by (rule sframe_updp) (simp add: sched_only_def)
    then have "sframe st ?s" by (rule sframe_trans [OF fr1])
    moreover have "woke (chans chan st) st ?s" using that F1 cc p by (auto simp: woke_def)
    ultimately show ?thesis using that F1 sl t by (auto simp: wakeup_post_def queues_def)
  qed
  show "wakeup_post chan st rq sq (wakeup_run p st1) (if tst (p_of st p_flag p) SLOAD then [p] else []) (sq(HASH chan := xs @ ys))"
    if "p_of st p_stat p = SSLEEP"
  proof -
    let ?s = "wakeup_run p st1"
    have G: "p_of ?s p_wchan i = p_of st1 p_wchan i" "p_of ?s p_stat i = (if i = p then SRUN else p_of st1 p_stat i)"
      "p_of ?s p_slptime i = (if i = p then 0 else p_of st1 p_slptime i)" for i
      using wakeup_run_fields [of p st1] wakeup_run_other [of i p st1] by auto
    have "qlinks ?s ((if tst (p_of st p_flag p) SLOAD then [p] else []) @ rq) (sq(HASH chan := xs @ ys))"
      using qlinks_wakeup_run [OF ql1 p(1) prq] F1 by simp
    moreover have "sframe st ?s" by (rule sframe_trans [OF fr1 wakeup_run_frame])
    moreover have "woke (chans chan st) st ?s" using that F1 G cc p unfolding woke_def by simp
    moreover have "\<forall>i < NPROC. p_of ?s p_stat i = SSLEEP \<longrightarrow> p_of ?s p_wchan i \<noteq> 0" using F1 G sl by simp
    ultimately show ?thesis using F1 G t wakeup_run_fields(4) [of p st1] by (auto simp: wakeup_post_def queues_def)
  qed
qed

lemma wakeup_go_spec:
  assumes "queues st rq sq" and "sq (HASH chan) = xs @ ys" and "\<forall>i \<in> set xs. p_of st p_wchan i \<noteq> chan"
    and "tot sq * Suc NPROC + length ys < n"
  shows "\<exists>st' ws sq'. wakeup_go n chan (last_opt xs) st = Inr st' \<and> wakeup_post chan st rq sq st' ws sq'
    \<and> (chan \<noteq> 0 \<longrightarrow> (\<forall>i < NPROC. p_of st' p_wchan i \<noteq> chan))"
  using assms
proof (induction n arbitrary: st rq sq chan xs ys)
  case (Suc n)
  have ql: "qlinks st rq sq" using Suc.prems(1) by (simp add: queues_def)
  have c: "chain (plink st) (slpque st (HASH chan)) (xs @ ys)"
    using qlinksD(3) [OF ql HASH_less] Suc.prems(2) by metis
  show ?case
  proof (cases ys)
    case Nil
    then have "deref (slpque st (HASH chan)) (plink st) (last_opt xs) = None" using chain_deref [OF c] by simp
    moreover have "p_of st p_wchan i \<noteq> chan" if "chan \<noteq> 0" "i < NPROC" for i
      using qlinksD(5) [OF ql that(2)] that(1) Suc.prems(2,3) Nil by auto
    ultimately show ?thesis using wakeup_post_refl [OF Suc.prems(1), of chan]
      by (intro exI [of _ st] exI [of _ "[]"] exI [of _ sq]) simp
  next
    case (Cons p zs)
    then have d: "deref (slpque st (HASH chan)) (plink st) (last_opt xs) = Some p"
      using chain_deref_hd [of "plink st" "slpque st (HASH chan)" xs p zs] c by simp
    have sqp: "sq (HASH chan) = xs @ p # zs" using Suc.prems(2) Cons by simp
    have stat: "p_of st p_stat p = SSLEEP \<or> p_of st p_stat p = SSTOP"
      using qlinksD(4) [OF ql HASH_less, of p chan] sqp by auto
    show ?thesis
    proof (cases "p_of st p_wchan p = chan")
      case False
      have "\<exists>st' ws sq'. wakeup_go n chan (last_opt (xs @ [p])) st = Inr st' \<and> wakeup_post chan st rq sq st' ws sq'
          \<and> (chan \<noteq> 0 \<longrightarrow> (\<forall>i < NPROC. p_of st' p_wchan i \<noteq> chan))"
        using Suc.prems Cons False by (intro Suc.IH [of st rq sq chan "xs @ [p]" zs]) auto
      moreover have "wakeup_go (Suc n) chan (last_opt xs) st = wakeup_go n chan (last_opt (xs @ [p])) st"
        using d stat False by auto
      ultimately show ?thesis by simp
    next
      case True
      define sq1 where "sq1 = sq(HASH chan := xs @ zs)"
      have sq1: "sq1 (HASH chan) = xs @ zs" by (simp add: sq1_def)
      define st1 where "st1 = set_slpq (HASH chan) (last_opt xs) (plink st p) (updp p (\<lambda>r. r\<lparr>p_wchan := 0\<rparr>) st)"
      have stat1: "p_of st1 p_stat p = p_of st p_stat p" by (simp add: st1_def set_slpq_fields)
      have t1: "Suc (tot sq1) = tot sq" unfolding sq1_def by (rule tot_remove [of "HASH chan" sq xs p zs, OF HASH_less sqp])
      have m: "tot sq * Suc NPROC = tot sq1 * Suc NPROC + Suc NPROC" unfolding t1 [symmetric] by simp
      note one = wakeup_one [OF Suc.prems(1) sqp True, folded st1_def sq1_def]
      show ?thesis
      proof (cases "p_of st p_stat p = SSTOP")
        case stop: True
        let ?s = "updp p (\<lambda>r. r\<lparr>p_slptime := 0\<rparr>) st1"
        have go: "wakeup_go (Suc n) chan (last_opt xs) st = wakeup_go n chan (last_opt xs) ?s"
          using d stop True stat1 by (simp add: Let_def st1_def)
        have qq: "queues ?s rq sq1" using one(1) [OF stop] by (simp add: wakeup_post_def)
        have "\<forall>i \<in> set xs. p_of ?s p_wchan i \<noteq> chan"
        proof
          fix i assume "i \<in> set xs"
          then have "i \<noteq> p" "p_of st p_wchan i \<noteq> chan" using chain_distinct [OF c] Cons Suc.prems(3) by auto
          then show "p_of ?s p_wchan i \<noteq> chan" by (simp add: st1_def set_slpq_fields)
        qed
        moreover have "tot sq1 * Suc NPROC + length zs < n" using Suc.prems(4) m Cons by simp
        ultimately obtain st' ws sq' where r: "wakeup_go n chan (last_opt xs) ?s = Inr st'" "wakeup_post chan ?s rq sq1 st' ws sq'"
          "chan \<noteq> 0 \<longrightarrow> (\<forall>i < NPROC. p_of st' p_wchan i \<noteq> chan)"
          using Suc.IH [OF qq sq1] by blast
        have "wakeup_post chan st rq sq st' (ws @ []) sq'"
          using wakeup_post_trans [OF one(1) [OF stop], of chan st' ws sq' chan] r(2) by (simp add: chans_def)
        with go r show ?thesis by auto
      next
        case False
        then have slp: "p_of st p_stat p = SSLEEP" using stat by simp
        let ?s = "wakeup_run p st1" and ?w = "if tst (p_of st p_flag p) SLOAD then [p] else []"
        have o2: "wakeup_post chan st rq sq ?s ?w sq1" by (rule one(2) [OF slp])
        have qq: "queues ?s (?w @ rq) sq1" using o2 by (simp add: wakeup_post_def)
        have bound: "tot sq2 * Suc NPROC + length (sq2 h) < n" if "tot sq2 \<le> tot sq1" "queues s2 r2 sq2" "h < SQSIZE" for sq2 s2 r2 h
        proof -
          have "length (sq2 h) \<le> NPROC" using that(2,3) qlinks_bucket by (auto simp: queues_def)
          moreover have "tot sq2 * Suc NPROC \<le> tot sq1 * Suc NPROC" using that(1) by simp
          ultimately show ?thesis using Suc.prems(4) Cons m by simp
        qed
        have "\<exists>s2 w2 sq2. (if \<not> tst (p_of ?s p_flag p) SLOAD \<and> runout ?s \<noteq> 0
             then wakeup_go n (a_runout (lay ?s)) None (?s\<lparr>runout := 0\<rparr>) else Inr ?s) = Inr s2
             \<and> wakeup_post chan st rq sq s2 w2 sq2 \<and> tot sq2 \<le> tot sq1"
        proof (cases "\<not> tst (p_of ?s p_flag p) SLOAD \<and> runout ?s \<noteq> 0")
          case cond: True
          let ?s0 = "?s\<lparr>runout := 0\<rparr>" and ?c = "a_runout (lay ?s)"
          have q0: "queues ?s0 (?w @ rq) sq1" using qq unfolding queues_def by (auto intro: qlinks_cong)
          from Suc.IH [OF q0, of ?c "[]" "sq1 (HASH ?c)"] bound [OF _ q0 HASH_less, of ?c] obtain s2 w2 sq2 where
            i: "wakeup_go n ?c None ?s0 = Inr s2" "wakeup_post ?c ?s0 (?w @ rq) sq1 s2 w2 sq2" by auto
          have o3: "wakeup_post chan st rq sq ?s0 ?w sq1"
            using o2 q0 unfolding wakeup_post_def woke_def sframe_def by simp
          have "runout st \<noteq> 0" "lay ?s = lay st" using cond o2 sframe_lay unfolding wakeup_post_def by auto
          then have "wakeup_post chan st rq sq s2 (w2 @ ?w) sq2"
            by (intro wakeup_post_trans [OF o3 i(2)]) (simp_all add: chans_def)
          moreover have "tot sq2 \<le> tot sq1" using i(2) by (simp add: wakeup_post_def)
          ultimately show ?thesis using i(1) cond by auto
        next
          case False
          with o2 show ?thesis by auto
        qed
        then obtain s2 w2 sq2 where i: "(if \<not> tst (p_of ?s p_flag p) SLOAD \<and> runout ?s \<noteq> 0
             then wakeup_go n (a_runout (lay ?s)) None (?s\<lparr>runout := 0\<rparr>) else Inr ?s) = Inr s2"
          and p2: "wakeup_post chan st rq sq s2 w2 sq2" and t2: "tot sq2 \<le> tot sq1" by blast
        have q2: "queues s2 (w2 @ rq) sq2" using p2 by (simp add: wakeup_post_def)
        from Suc.IH [OF q2, of chan "[]" "sq2 (HASH chan)"] bound [OF t2 q2 HASH_less, of chan] obtain st' ws sq' where
          r: "wakeup_go n chan None s2 = Inr st'" "wakeup_post chan s2 (w2 @ rq) sq2 st' ws sq'"
          "chan \<noteq> 0 \<longrightarrow> (\<forall>i < NPROC. p_of st' p_wchan i \<noteq> chan)" by auto
        have st1': "set_slpq (HASH chan) (last_opt xs) (plink (updp p (\<lambda>r. r\<lparr>p_wchan := 0\<rparr>) st) p) (updp p (\<lambda>r. r\<lparr>p_wchan := 0\<rparr>) st) = st1"
          by (simp add: st1_def)
        have "wakeup_go (Suc n) chan (last_opt xs) st = rbind (if \<not> tst (p_of ?s p_flag p) SLOAD \<and> runout ?s \<noteq> 0
             then wakeup_go n (a_runout (lay ?s)) None (?s\<lparr>runout := 0\<rparr>) else Inr ?s) (wakeup_go n chan None)"
          unfolding wakeup_go.simps d option.case Let_def st1' stat1 slp True by simp
        then have "wakeup_go (Suc n) chan (last_opt xs) st = wakeup_go n chan None s2"
          unfolding i rbind_Inr .
        moreover have "wakeup_post chan st rq sq st' (ws @ w2) sq'"
          by (rule wakeup_post_trans [OF p2 r(2)]) (simp_all add: chans_def)
        ultimately show ?thesis using r by auto
      qed
    qed
  qed
qed simp

lemma wakeup_spec:
  assumes "queues st rq sq"
  shows "\<exists>st' ws sq'. wakeup chan st = Inr st' \<and> wakeup_post chan st rq sq st' ws sq'
    \<and> (chan \<noteq> 0 \<longrightarrow> (\<forall>i < NPROC. p_of st' p_wchan i \<noteq> chan))"
proof -
  have ql: "qlinks st rq sq" using assms by (simp add: queues_def)
  have "tot sq \<le> NPROC" by (rule qlinks_tot [OF ql])
  moreover have "length (sq (HASH chan)) \<le> NPROC" by (rule qlinks_bucket [OF ql HASH_less])
  ultimately have "tot sq * Suc NPROC + length (sq (HASH chan)) < Suc NPROC * Suc NPROC" by simp
  from wakeup_go_spec [OF assms, of chan "[]" "sq (HASH chan)", OF _ _ this] show ?thesis
    unfolding wakeup_def by simp
qed

subsection \<open>Leaving a sleep queue\<close>

lemma unsleep_go_spec:
  assumes "chain (plink st) (slpque st h) (xs @ zs @ p # ys)" and "length zs < n"
  shows "unsleep_go n p h (last_opt xs) st = Inr (set_slpq h (last_opt (xs @ zs)) (plink st p) st)"
  using assms
proof (induction zs arbitrary: xs n)
  case Nil
  then obtain m where "n = Suc m" by (cases n) auto
  then show ?case using chain_deref_hd [of "plink st" "slpque st h" xs p ys] Nil.prems(1) by simp
next
  case (Cons z zs)
  then obtain m where n: "n = Suc m" by (cases n) auto
  have d: "deref (slpque st h) (plink st) (last_opt xs) = Some z"
    using chain_deref_hd [of "plink st" "slpque st h" xs z "zs @ p # ys"] Cons.prems(1) by simp
  have "z \<noteq> p" using chain_distinct [OF Cons.prems(1)] by auto
  moreover have "unsleep_go m p h (last_opt (xs @ [z])) st = Inr (set_slpq h (last_opt ((xs @ [z]) @ zs)) (plink st p) st)"
    using Cons.prems n by (intro Cons.IH) simp_all
  ultimately show ?case by (simp add: n d)
qed

lemma set_slpq_updp_wchan:
  "updp p (\<lambda>r. r\<lparr>p_wchan := 0\<rparr>) (set_slpq h q v st) = set_slpq h q v (updp p (\<lambda>r. r\<lparr>p_wchan := 0\<rparr>) st)"
  by (cases q) (auto simp: set_slpq_def updp_def fun_eq_iff)

text \<open>\<open>unsleep\<close> takes the process, and only it, off its sleep queue.\<close>

lemma unsleep_spec:
  assumes q: "qlinks st rq sq" and p: "p < NPROC"
  shows "\<exists>st' sq'. unsleep p st = Inr st' \<and> qlinks st' rq sq' \<and> sframe st st' \<and> runout st' = runout st
    \<and> p_of st' p_wchan p = 0 \<and> (\<forall>i. i \<noteq> p \<longrightarrow> p_of st' p_wchan i = p_of st p_wchan i)
    \<and> (\<forall>i. p_of st' p_stat i = p_of st p_stat i \<and> p_of st' p_slptime i = p_of st p_slptime i \<and> p_of st' p_pri i = p_of st p_pri i)"
proof (cases "p_of st p_wchan p = 0")
  case True
  with q show ?thesis by (intro exI [of _ st] exI [of _ sq]) (simp add: unsleep_def)
next
  case False
  let ?h = "HASH (p_of st p_wchan p)"
  from qlinksD(5) [OF q p False] obtain xs ys where sq: "sq ?h = xs @ p # ys" by (meson split_list)
  have c: "chain (plink st) (slpque st ?h) (xs @ p # ys)" using qlinksD(3) [OF q HASH_less] sq by metis
  have "length (xs @ p # ys) \<le> NPROC" using qlinks_bucket [OF q HASH_less] sq by metis
  then have len: "length xs < Suc NPROC" by simp
  let ?s = "set_slpq ?h (last_opt xs) (plink st p) (updp p (\<lambda>r. r\<lparr>p_wchan := 0\<rparr>) st)"
  have "unsleep p st = Inr ?s"
    using unsleep_go_spec [of st ?h "[]" xs p ys "Suc NPROC", OF _ len] c False
    by (simp add: unsleep_def set_slpq_updp_wchan del: unsleep_go.simps)
  moreover have "qlinks ?s rq (sq(?h := xs @ ys))" by (rule qlinks_unlink [OF q HASH_less sq])
  moreover have "sframe st ?s" by (rule sframe_trans [OF sframe_updp sframe_set_slpq]) (simp add: sched_only_def)
  ultimately show ?thesis by (intro exI [of _ ?s] exI [of _ "sq(?h := xs @ ys)"]) (simp add: set_slpq_fields set_slpq_place)
qed

end
