(* ===== verification/Runq.thy ===== *)
theory Runq
  imports Sched
begin

text \<open>
  Making processes runnable and choosing one to run (\<open>setrun\<close>, \<open>endtsleep\<close>, \<open>remrq\<close>,
  \<open>swtch\<close> of \<open>sys/kernel/kern_synch.c\<close>): the definitions of theory \<open>Sched\<close> related to the
  lists of queued processes.
\<close>

subsection \<open>setrun\<close>

definition setrun_tail :: "nat \<Rightarrow> 'a kst_scheme \<Rightarrow> 'a kst_scheme" where
  "setrun_tail p st =
     (let st = (if p_of st p_slptime p > 1 then updatepri p st else st);
          st = updp p (\<lambda>r. r\<lparr>p_stat := SRUN\<rparr>) st;
          st = (if tst (p_of st p_flag p) SLOAD then setrq p st else st)
      in if p_of st p_pri p < curpri st then st\<lparr>runrun := runrun st + 1\<rparr> else st)"

lemma setrun_tail_frame: "sframe st (setrun_tail p st)"
proof -
  let ?s1 = "if p_of st p_slptime p > 1 then updatepri p st else st"
  let ?s2 = "updp p (\<lambda>r. r\<lparr>p_stat := SRUN\<rparr>) ?s1"
  let ?s3 = "if tst (p_of ?s2 p_flag p) SLOAD then setrq p ?s2 else ?s2"
  have "sframe st ?s1" by (simp add: updatepri_frame)
  also have "sframe ?s1 ?s2" by (rule sframe_updp) (simp add: sched_only_def)
  also have "sframe ?s2 ?s3" by (simp add: sframe_setrq)
  also have "sframe ?s3 (if p_of ?s3 p_pri p < curpri ?s3 then ?s3\<lparr>runrun := runrun ?s3 + 1\<rparr> else ?s3)" by simp
  finally show ?thesis unfolding setrun_tail_def Let_def .
qed

lemma setrun_tail_fields:
  "i \<noteq> p \<Longrightarrow> procs (setrun_tail p st) i = procs st i" "p_of (setrun_tail p st) p_wchan i = p_of st p_wchan i"
  "p_of (setrun_tail p st) p_stat p = SRUN" "runout (setrun_tail p st) = runout st"
  by (simp_all add: setrun_tail_def Let_def setrq_def updatepri_queues)

lemma qlinks_setrun_tail:
  assumes q: "qlinks st rq sq" and p: "p < NPROC" "p \<notin> set rq" "p_of st p_wchan p = 0"
  shows "qlinks (setrun_tail p st) ((if tst (p_of st p_flag p) SLOAD then [p] else []) @ rq) sq"
proof -
  define s1 where "s1 = (if p_of st p_slptime p > 1 then updatepri p st else st)"
  have f1: "p_of s1 p_wchan i = p_of st p_wchan i" "p_of s1 p_flag i = p_of st p_flag i" for i
    by (simp_all add: s1_def updatepri_queues updatepri_flag)
  have "qlinks s1 rq sq" unfolding s1_def
    by (intro qlinks_cong [OF q]) (simp_all add: updatepri_queues updatepri_flag)
  define s2 where "s2 = updp p (\<lambda>r. r\<lparr>p_stat := SRUN\<rparr>) s1"
  have s2: "qlinks s2 rq sq" unfolding s2_def using \<open>qlinks s1 rq sq\<close> p f1 by (intro qlinks_updp_off) simp_all
  define s3 where "s3 = (if tst (p_of s2 p_flag p) SLOAD then setrq p s2 else s2)"
  have fl: "p_of s2 p_flag p = p_of st p_flag p" by (simp add: s2_def f1)
  have "qlinks s3 ((if tst (p_of st p_flag p) SLOAD then [p] else []) @ rq) sq"
    using s2 p qlinks_setrq [OF s2 p(1,2)] f1 fl by (simp add: s3_def) (simp add: s2_def f1)
  then have "qlinks (if p_of s3 p_pri p < curpri s3 then s3\<lparr>runrun := runrun s3 + 1\<rparr> else s3)
      ((if tst (p_of st p_flag p) SLOAD then [p] else []) @ rq) sq"
    by (rule qlinks_cong) simp_all
  then show ?thesis unfolding setrun_tail_def Let_def s3_def s2_def s1_def .
qed

text \<open>
  \<open>bystander\<close>: a process that is not the one made runnable is unchanged, unless it is the
  swapper, which waits on \<open>runout\<close>.
\<close>

definition bystander :: "'a kst_scheme \<Rightarrow> 'a kst_scheme \<Rightarrow> nat \<Rightarrow> bool" where
  "bystander st st' i \<longleftrightarrow>
     (p_of st' p_wchan i = p_of st p_wchan i \<and> p_of st' p_stat i = p_of st p_stat i)
     \<or> (runout st \<noteq> 0 \<and> p_of st p_wchan i = a_runout (lay st) \<and> p_of st p_wchan i \<noteq> 0 \<and> p_of st' p_wchan i = 0
        \<and> p_of st' p_stat i = (if p_of st p_stat i = SSLEEP then SRUN else p_of st p_stat i))"

lemma setrun_spec:
  assumes q: "queues st rq sq" and p: "p < NPROC"
    and stat: "p_of st p_stat p \<in> {SSLEEP, SSTOP} \<or> (p_of st p_stat p = SIDL \<and> p_of st p_wchan p = 0)"
  shows "\<exists>st' ws sq'. setrun p st = Inr st' \<and> queues st' (ws @ rq) sq' \<and> sframe st st'
    \<and> p_of st' p_stat p = SRUN \<and> p_of st' p_wchan p = 0 \<and> (tst (p_of st p_flag p) SLOAD \<longrightarrow> p \<in> set ws)
    \<and> (\<forall>i. i \<noteq> p \<longrightarrow> bystander st st' i)"
proof -
  have ql: "qlinks st rq sq" and sl: "\<And>i. i < NPROC \<Longrightarrow> p_of st p_stat i = SSLEEP \<Longrightarrow> p_of st p_wchan i \<noteq> 0"
    using q by (simp_all add: queues_def)
  have prq: "p \<notin> set rq" using qlinksD(2) [OF ql, of p] stat by auto
  obtain s1 sq1 where s1: "(if p_of st p_stat p = SSTOP \<or> p_of st p_stat p = SSLEEP then unsleep p st
            else if p_of st p_stat p = SIDL then Inr st else Inl (Panic ''setrun'')) = Inr s1"
    and q1: "qlinks s1 rq sq1" and fr1: "sframe st s1" and ro1: "runout s1 = runout st"
    and w1: "p_of s1 p_wchan p = 0" "\<forall>i. i \<noteq> p \<longrightarrow> p_of s1 p_wchan i = p_of st p_wchan i"
    and st1: "\<forall>i. p_of s1 p_stat i = p_of st p_stat i"
  proof (cases "p_of st p_stat p = SSTOP \<or> p_of st p_stat p = SSLEEP")
    case True
    with unsleep_spec [OF ql p] that show ?thesis by auto
  next
    case False
    with stat have "p_of st p_stat p = SIDL" "p_of st p_wchan p = 0" by auto
    with that [of st sq] ql show ?thesis by auto
  qed
  define s2 where "s2 = setrun_tail p s1"
  let ?w = "if tst (p_of st p_flag p) SLOAD then [p] else []"
  have fr2: "sframe st s2" unfolding s2_def by (rule sframe_trans [OF fr1 setrun_tail_frame])
  have fl: "p_of s1 p_flag p = p_of st p_flag p" by (rule sframe_flag [OF fr1])
  have q2: "qlinks s2 (?w @ rq) sq1" unfolding s2_def using qlinks_setrun_tail [OF q1 p prq w1(1)] fl by simp
  have F2: "p_of s2 p_stat i = (if i = p then SRUN else p_of st p_stat i)"
    "p_of s2 p_wchan i = (if i = p then 0 else p_of st p_wchan i)" "runout s2 = runout st" for i
    using setrun_tail_fields(1) [of i p s1] setrun_tail_fields(2) [of p s1 i] setrun_tail_fields(3,4) [of p s1] w1 st1 ro1
    by (auto simp: s2_def)
  have qs2: "queues s2 (?w @ rq) sq1" using q2 F2 sl by (simp add: queues_def)
  have run: "setrun p st = (if \<not> tst (p_of s2 p_flag p) SLOAD \<and> runout s2 \<noteq> 0
        then wakeup (a_runout (lay s2)) (s2\<lparr>runout := 0\<rparr>) else Inr s2)"
    unfolding setrun_def s1 rbind_Inr s2_def setrun_tail_def Let_def ..
  show ?thesis
  proof (cases "\<not> tst (p_of s2 p_flag p) SLOAD \<and> runout s2 \<noteq> 0")
    case False
    then have "setrun p st = Inr s2" unfolding run by auto
    then show ?thesis using qs2 fr2 F2 by (intro exI [of _ s2] exI [of _ ?w] exI [of _ sq1]) (simp add: bystander_def)
  next
    case True
    let ?s0 = "s2\<lparr>runout := 0\<rparr>" and ?c = "a_runout (lay s2)"
    have q0: "queues ?s0 (?w @ rq) sq1" using qs2 unfolding queues_def by (auto intro: qlinks_cong)
    from wakeup_spec [OF q0, of ?c] obtain st' ws sq' where
      w: "wakeup ?c ?s0 = Inr st'" "wakeup_post ?c ?s0 (?w @ rq) sq1 st' ws sq'" by blast
    have fr0: "sframe st ?s0" using fr2 by (simp add: sframe_def)
    have fr: "sframe st st'" by (rule sframe_trans [OF fr0]) (use w(2) in \<open>simp add: wakeup_post_def\<close>)
    have wk: "woke {?c} ?s0 st'" using w(2) by (simp add: wakeup_post_def chans_def)
    have lay: "lay s2 = lay st" by (rule sframe_lay [OF fr2])
    have "bystander st st' i" if "i \<noteq> p" for i
      using wk [unfolded woke_def, rule_format, of i] that F2 True lay by (auto simp: bystander_def)
    moreover have "p_of st' p_stat p = SRUN" "p_of st' p_wchan p = 0"
      using wk [unfolded woke_def, rule_format, of p] F2 by auto
    moreover have "setrun p st = Inr st'" unfolding run using True w(1) by simp
    moreover have "queues st' ((ws @ ?w) @ rq) sq'" using w(2) by (simp add: wakeup_post_def)
    moreover have "tst (p_of st p_flag p) SLOAD \<longrightarrow> p \<in> set (ws @ ?w)" by simp
    ultimately show ?thesis using fr by blast
  qed
qed

lemma setrun_panics:
  assumes "p_of st p_stat p \<notin> {SSLEEP, SSTOP, SIDL}"
  shows "setrun p st = Inl (Panic ''setrun'')"
  using assms by (simp add: setrun_def)

subsection \<open>endtsleep\<close>

lemma qlinks_flag_upd:
  assumes "qlinks st rq sq" and "\<And>r. p_link (f r) = p_link r \<and> p_stat (f r) = p_stat r \<and> p_wchan (f r) = p_wchan r"
    and "\<And>r. tst (p_flag (f r)) SLOAD = tst (p_flag r) SLOAD"
  shows "qlinks (updp p f st) rq sq"
proof -
  have "plink (updp p f st) i = plink st i" "p_of (updp p f st) p_stat i = p_of st p_stat i"
    "p_of (updp p f st) p_wchan i = p_of st p_wchan i" "tst (p_of (updp p f st) p_flag i) SLOAD = tst (p_of st p_flag i) SLOAD" for i
    using assms(2,3) by simp_all
  then show ?thesis using assms(1) unfolding qlinks_def by simp
qed

text \<open>A timed-out sleeper is runnable again, a stopped one stays stopped; both carry \<open>P_TIMEOUT\<close>.\<close>

lemma endtsleep_spec:
  assumes q: "queues st rq sq" and p: "p < NPROC" and w: "p_of st p_wchan p \<noteq> 0"
  shows "\<exists>st' ws sq'. endtsleep p st = Inr st' \<and> queues st' (ws @ rq) sq' \<and> p_of st' p_wchan p = 0
    \<and> tst (p_of st' p_flag p) P_TIMEOUT
    \<and> p_of st' p_stat p = (if p_of st p_stat p = SSLEEP then SRUN else p_of st p_stat p)"
proof -
  have ql: "qlinks st rq sq" and sl: "\<And>i. i < NPROC \<Longrightarrow> p_of st p_stat i = SSLEEP \<Longrightarrow> p_of st p_wchan i \<noteq> 0"
    using q by (simp_all add: queues_def)
  obtain s1 ws sq1 where s1: "(if p_of st p_stat p = SSLEEP then setrun p st else unsleep p st) = Inr s1"
    and q1: "queues s1 (ws @ rq) sq1" and w1: "p_of s1 p_wchan p = 0"
    and st1: "p_of s1 p_stat p = (if p_of st p_stat p = SSLEEP then SRUN else p_of st p_stat p)"
  proof (cases "p_of st p_stat p = SSLEEP")
    case True
    with setrun_spec [OF q p] that show ?thesis by auto
  next
    case False
    from unsleep_spec [OF ql p] obtain s sq' where u: "unsleep p st = Inr s" "qlinks s rq sq'" "p_of s p_wchan p = 0"
      "\<forall>i. i \<noteq> p \<longrightarrow> p_of s p_wchan i = p_of st p_wchan i" "\<forall>i. p_of s p_stat i = p_of st p_stat i" by auto
    have "p_of s p_wchan i \<noteq> 0" if "i < NPROC" "p_of s p_stat i = SSLEEP" for i
      using that u(4,5) False sl [of i] by (cases "i = p") auto
    then have "queues s ([] @ rq) sq'" using u(2) by (simp add: queues_def)
    with that [of s "[]" sq'] u False show ?thesis by simp
  qed
  let ?f = "\<lambda>r. r\<lparr>p_flag := p_flag r OR P_TIMEOUT\<rparr>"
  have "qlinks (updp p ?f s1) (ws @ rq) sq1"
    using q1 by (intro qlinks_flag_upd) (simp_all add: queues_def tst_bits_or)
  then have "queues (updp p ?f s1) (ws @ rq) sq1" using q1 by (simp add: queues_def)
  moreover have "endtsleep p st = Inr (updp p ?f s1)" using w s1 by (simp add: endtsleep_def)
  moreover have "tst (p_of (updp p ?f s1) p_flag p) P_TIMEOUT" by (simp add: tst_or) (simp add: tst_def)
  ultimately show ?thesis using w1 st1 by (intro exI [of _ "updp p ?f s1"] exI [of _ ws] exI [of _ sq1]) simp
qed

subsection \<open>The run queue\<close>

lemma remrq_go_spec:
  assumes "chain (plink st) p0 (xs @ b # p # ys)" and "length xs < n"
  shows "remrq_go n p p0 st = Inr (updp b (\<lambda>r. r\<lparr>p_link := plink st p\<rparr>) st)"
  using assms
proof (induction xs arbitrary: p0 n)
  case Nil
  then obtain m where "n = Suc m" by (cases n) auto
  with Nil show ?case by simp
next
  case (Cons x xs)
  then obtain m where n: "n = Suc m" by (cases n) auto
  have "plink st x \<noteq> Some p"
    using Cons.prems(1) chain_distinct [OF Cons.prems(1)] by (cases xs) auto
  with Cons n show ?case by simp
qed

lemma remrq_go_absent:
  assumes "chain (plink st) p0 xs" and "p \<notin> set (tl xs)" and "length xs < n"
  shows "remrq_go n p p0 st = Inl (Panic ''remrq'')"
  using assms
proof (induction xs arbitrary: p0 n)
  case Nil
  then obtain m where "n = Suc m" by (cases n) auto
  with Nil show ?case by simp
next
  case (Cons x xs)
  then obtain m where n: "n = Suc m" by (cases n) auto
  have "plink st x \<noteq> Some p" using Cons.prems(1,2) by (cases xs) auto
  moreover have "p \<notin> set (tl xs)" using Cons.prems(2) by (cases xs) auto
  ultimately show ?case using Cons n by simp
qed

lemma remrq_spec:
  assumes q: "qlinks st rq sq" and p: "p \<in> set rq"
  shows "\<exists>st'. remrq p st = Inr st' \<and> qlinks st' (remove1 p rq) sq \<and> sframe st st'
    \<and> (\<forall>i. p_of st' p_stat i = p_of st p_stat i \<and> p_of st' p_wchan i = p_of st p_wchan i)"
proof -
  obtain xs ys where rq: "rq = xs @ p # ys" and px: "p \<notin> set xs" using p by (meson split_list_first)
  have c: "chain (plink st) (qs st) (xs @ p # ys)" using qlinksD(1) [OF q] rq by simp
  have rm: "remove1 p rq = xs @ ys" using rq px by (simp add: remove1_append)
  have mem: "j \<in> set rq" if "j \<in> set (xs @ ys)" for j using that rq by auto
  have off: "j \<notin> set (sq h)" if "j \<in> set rq" "h < SQSIZE" for j h
    using qlinksD(2) [OF q that(1)] qlinksD(4) [OF q that(2), of j] by auto
  show ?thesis
  proof (cases xs rule: rev_cases)
    case Nil
    let ?s = "st\<lparr>qs := plink st p\<rparr>"
    have "remrq p st = Inr ?s" using c Nil by (simp add: remrq_def)
    moreover have "qlinks ?s (xs @ ys) sq"
      using q c Nil mem unfolding qlinks_def by auto
    ultimately show ?thesis using rm by (intro exI [of _ ?s]) simp
  next
    case (snoc zs b)
    let ?s = "updp b (\<lambda>r. r\<lparr>p_link := plink st p\<rparr>) st"
    have c': "chain (plink st) (qs st) (zs @ b # p # ys)" using c snoc by simp
    have len: "length zs < Suc NPROC" using chain_length [OF qlinksD(1) [OF q], of NPROC] qlinksD(2) [OF q] rq snoc by auto
    have "qs st \<noteq> Some p" using c chain_distinct [OF c] snoc by (cases zs) auto
    then have "remrq p st = Inr ?s" using remrq_go_spec [OF c' len] by (simp add: remrq_def del: remrq_go.simps)
    moreover have L: "plink ?s = (plink st)(b := plink st p)" by auto
    have b: "b \<in> set rq" using rq snoc by simp
    have "chain (plink ?s) (qs ?s) (xs @ ys)" unfolding L using chain_unlink [OF c'] snoc by simp
    moreover have "chain (plink ?s) (slpque ?s h) (sq h)" if "h < SQSIZE" for h
      unfolding L using qlinksD(3) [OF q that] off [OF b that] by simp
    ultimately show ?thesis using q mem rm unfolding qlinks_def
      by (intro exI [of _ ?s]) (auto simp: sframe_updp sched_only_def)
  qed
qed

subsection \<open>The choice of the next process\<close>

text \<open>\<open>best pri rq i xs ys\<close>: \<open>i\<close> is the first process of the queue with the least priority value.\<close>

definition best :: "(nat \<Rightarrow> int) \<Rightarrow> nat list \<Rightarrow> nat \<Rightarrow> nat list \<Rightarrow> nat list \<Rightarrow> bool" where
  "best pri rq i xs ys \<longleftrightarrow> rq = xs @ i # ys \<and> (\<forall>j \<in> set xs. pri i < pri j) \<and> (\<forall>j \<in> set ys. pri i \<le> pri j)"

definition scan_inv :: "(nat \<Rightarrow> int) \<Rightarrow> nat list \<Rightarrow> nat option \<Rightarrow> nat option \<Rightarrow> int \<Rightarrow> bool" where
  "scan_inv pri ps pp pq n \<longleftrightarrow>
     (case pp of
        None \<Rightarrow> ps = [] \<and> pq = None \<and> n = 128
      | Some i \<Rightarrow> n = pri i \<and> (\<exists>xs ys. best pri ps i xs ys \<and> pq = last_opt xs))"

lemma scan_inv_step:
  assumes "scan_inv pri ps pp pq n" and "pri i < 128"
  shows "if pri i < n then scan_inv pri (ps @ [i]) (Some i) (last_opt ps) (pri i)
         else scan_inv pri (ps @ [i]) pp pq n"
proof (cases pp)
  case None
  with assms show ?thesis by (auto simp: scan_inv_def best_def intro!: exI [of _ "[]"])
next
  case (Some b)
  with assms obtain xs ys where b: "n = pri b" "best pri ps b xs ys" "pq = last_opt xs" by (auto simp: scan_inv_def)
  show ?thesis
  proof (cases "pri i < n")
    case True
    then have "best pri (ps @ [i]) i ps []" using b by (auto simp: best_def)
    with True show ?thesis by (auto simp: scan_inv_def)
  next
    case False
    then have "best pri (ps @ [i]) b xs (ys @ [i])" using b by (auto simp: best_def)
    with False Some b show ?thesis by (auto simp: scan_inv_def)
  qed
qed

lemma swtch_scan_spec:
  assumes "chain (plink st) (qs st) (ps @ zs)" and "length zs < k"
    and "\<forall>i \<in> set zs. tst (p_of st p_flag i) SLOAD \<and> p_of st p_pri i < 128"
    and "scan_inv (p_of st p_pri) ps pp pq n"
  shows "\<exists>pp' pq' n'. swtch_scan k st (deref (qs st) (plink st) (last_opt ps)) (last_opt ps) pp pq n = Inr (pp', pq', n')
    \<and> scan_inv (p_of st p_pri) (ps @ zs) pp' pq' n'"
  using assms
proof (induction zs arbitrary: ps k pp pq n)
  case Nil
  then obtain m where "k = Suc m" by (cases k) auto
  moreover have "deref (qs st) (plink st) (last_opt ps) = None" using chain_deref [OF Nil.prems(1)] by simp
  ultimately show ?case using Nil.prems by simp
next
  case (Cons i zs)
  then obtain m where k: "k = Suc m" by (cases k) auto
  have d: "deref (qs st) (plink st) (last_opt ps) = Some i" by (rule chain_deref_hd [OF Cons.prems(1)])
  have i: "tst (p_of st p_flag i) SLOAD" "p_of st p_pri i < 128" using Cons.prems(3) by simp_all
  note step = scan_inv_step [OF Cons.prems(4), of i, OF i(2)]
  have IH: "scan_inv (p_of st p_pri) (ps @ [i]) a b c \<Longrightarrow>
      \<exists>pp' pq' n'. swtch_scan m st (plink st i) (Some i) a b c = Inr (pp', pq', n')
      \<and> scan_inv (p_of st p_pri) (ps @ i # zs) pp' pq' n'" for a b c
    using Cons.IH [of "ps @ [i]" m a b c] Cons.prems k by simp
  show ?case
  proof (cases "p_of st p_pri i < n")
    case True
    with IH [of "Some i" "last_opt ps" "p_of st p_pri i"] step i show ?thesis unfolding k d by auto
  next
    case False
    with IH [of pp pq n] step i show ?thesis unfolding k d by auto
  qed
qed

text \<open>\<open>swtch\<close> resumes the first process of least priority value and takes only it off the run queue.\<close>

lemma swtch_pick_spec:
  assumes q: "qlinks st rq sq" and pri: "\<forall>i \<in> set rq. p_of st p_pri i < 128"
  shows "if rq = [] then \<exists>st'. swtch_pick st = Inr (None, st') \<and> qlinks st' [] sq
    else \<exists>i xs ys st' b. best (p_of st p_pri) rq i xs ys \<and> swtch_pick st = Inr (Some (i, b), st')
      \<and> qlinks st' (xs @ ys) sq \<and> curpri st' = schar (p_of st p_pri i) \<and> (b \<longleftrightarrow> tst (p_of st p_flag i) SSWAP)
      \<and> \<not> tst (p_of st' p_flag i) SSWAP
      \<and> (\<forall>j. p_of st' p_stat j = p_of st p_stat j \<and> p_of st' p_wchan j = p_of st p_wchan j)"
proof -
  define s0 where "s0 = st\<lparr>noproc := 0, runrun := 0\<rparr>"
  have s0: "procs s0 = procs st" "qs s0 = qs st" "slpque s0 = slpque st" by (simp_all add: s0_def)
  have q0: "qlinks s0 rq sq" by (rule qlinks_cong [OF q]) (simp_all add: s0)
  have c: "chain (plink s0) (qs s0) ([] @ rq)" using qlinksD(1) [OF q0] by simp
  have "length rq \<le> NPROC" using chain_length [OF qlinksD(1) [OF q]] qlinksD(2) [OF q] by blast
  then have len: "length rq < Suc NPROC" by simp
  have ld: "\<forall>i \<in> set rq. tst (p_of s0 p_flag i) SLOAD \<and> p_of s0 p_pri i < 128" using qlinksD(2) [OF q] pri s0 by simp
  from swtch_scan_spec [OF c len ld, of None None 128] obtain pp pq n where
    scan: "swtch_scan (Suc NPROC) s0 (qs s0) None None None 128 = Inr (pp, pq, n)"
    and inv: "scan_inv (p_of s0 p_pri) rq pp pq n" by (auto simp: scan_inv_def simp del: swtch_scan.simps)
  show ?thesis
  proof (cases pp)
    case None
    then have "rq = []" using inv by (simp add: scan_inv_def)
    moreover have "swtch_pick st = Inr (None, s0)"
      unfolding swtch_pick_def Let_def s0_def [symmetric] scan None by simp
    ultimately show ?thesis using q0 by simp
  next
    case (Some i)
    with inv obtain xs ys where b: "n = p_of st p_pri i" "best (p_of st p_pri) rq i xs ys" "pq = last_opt xs"
      by (auto simp: scan_inv_def s0)
    then have rq: "rq = xs @ i # ys" by (simp add: best_def)
    define s1 where "s1 = (case pq of None \<Rightarrow> s0\<lparr>qs := plink s0 i\<rparr> | Some j \<Rightarrow> updp j (\<lambda>r. r\<lparr>p_link := plink s0 i\<rparr>) s0)"
    have "i \<notin> set xs" using chain_distinct [OF c] rq by simp
    then have rm: "remove1 i rq = xs @ ys" using rq by (simp add: remove1_append)
    have c': "chain (plink s0) (qs s0) (xs @ i # ys)" using c rq by simp
    have "remrq i s0 = Inr s1"
    proof (cases xs rule: rev_cases)
      case Nil
      then show ?thesis using c' b(3) by (simp add: remrq_def s1_def)
    next
      case (snoc zs a)
      have "qs s0 \<noteq> Some i" using c' chain_distinct [OF c'] snoc by (cases zs) auto
      then show ?thesis using remrq_go_spec [of s0 "qs s0" zs a i ys "Suc NPROC"] c' snoc b(3) len rq
        by (simp add: remrq_def s1_def del: remrq_go.simps)
    qed
    with remrq_spec [OF q0, of i] rq rm have q1: "qlinks s1 (xs @ ys) sq" and f1: "sframe s0 s1"
      and w1: "\<forall>j. p_of s1 p_stat j = p_of st p_stat j \<and> p_of s1 p_wchan j = p_of st p_wchan j" by (auto simp: s0)
    define s2 where "s2 = s1\<lparr>curpri := schar n\<rparr>"
    define s3 where "s3 = updp i (\<lambda>r. r\<lparr>p_flag := p_flag r AND NOT SSWAP\<rparr>) s2"
    have "qlinks s2 (xs @ ys) sq" unfolding s2_def by (rule qlinks_cong [OF q1]) simp_all
    moreover have "tst (w AND NOT SSWAP) SLOAD = tst w SLOAD" for w by (rule tst_bits_and) simp
    ultimately have q3: "qlinks s3 (xs @ ys) sq" unfolding s3_def by (intro qlinks_flag_upd) simp_all
    have fl: "p_of s2 p_flag i = p_of st p_flag i" using sframe_flag [OF f1, of i] by (simp add: s2_def s0)
    have "swtch_pick st = Inr (Some (i, tst (p_of s2 p_flag i) SSWAP), s3)"
      unfolding swtch_pick_def Let_def s0_def [symmetric] scan rbind_Inr prod.case Some option.case
        s1_def [symmetric] s2_def [symmetric] s3_def [symmetric] ..
    moreover have "\<not> tst (p_of s3 p_flag i) SSWAP"
    proof -
      have "(w AND NOT SSWAP) AND SSWAP = 0" for w :: u16 by (rule bit_word_eqI) (simp add: bit_simps)
      then show ?thesis by (simp add: s3_def tst_def)
    qed
    ultimately show ?thesis using b rq q3 fl w1 by (auto simp: s3_def s2_def)
  qed
qed

subsection \<open>Properties\<close>

text \<open>A system in which process 1 sleeps on \<open>lbolt\<close> and processes 2 and 3 are runnable.\<close>

definition sched_example :: kst where
  "sched_example = kst0\<lparr>
     procs := (procs kst0)
       (1 := proc0\<lparr>p_stat := SSLEEP, p_flag := SLOAD, p_wchan := 0x80000100\<rparr>,
        2 := proc0\<lparr>p_stat := SRUN, p_flag := SLOAD, p_pri := 60, p_link := Some 3\<rparr>,
        3 := proc0\<lparr>p_stat := SRUN, p_flag := SLOAD, p_pri := 50\<rparr>),
     qs := Some 2, slpque := (\<lambda>_. None)(8 := Some 1)\<rparr>"

lemma HASH_example: "HASH 0x80000100 = 8"
  by code_simp

lemma sched_example_queues: "queues sched_example [2, 3] ((\<lambda>_. [])(8 := [1]))"
  by (simp add: queues_def qlinks_def sched_example_def boot_defs HASH_example tst_def)

text \<open>C15: \<open>wakeup(chan)\<close> on consistent queues returns and keeps them consistent. Afterwards no
  process waits on \<open>chan\<close>; each process that slept on it is runnable, and on the run queue if
  it is in core; each stopped process that waited on it stays stopped; a process that waited on another
  channel is unchanged, except that the swapper may be woken from \<open>runout\<close>.\<close>

theorem wakeup_reaches_sleepers:
  assumes "queues st rq sq" and "chan \<noteq> 0"
  shows "\<exists>st' rq' sq'. wakeup chan st = Inr st' \<and> queues st' rq' sq'
    \<and> (\<forall>i < NPROC. p_of st' p_wchan i \<noteq> chan)
    \<and> (\<forall>i < NPROC. p_of st p_wchan i = chan \<longrightarrow> p_of st' p_wchan i = 0
         \<and> p_of st' p_stat i = (if p_of st p_stat i = SSLEEP then SRUN else p_of st p_stat i)
         \<and> (p_of st p_stat i = SSLEEP \<longrightarrow> tst (p_of st p_flag i) SLOAD \<longrightarrow> i \<in> set rq'))
    \<and> (\<forall>i < NPROC. p_of st p_wchan i \<noteq> chan \<longrightarrow> \<not> (runout st \<noteq> 0 \<and> p_of st p_wchan i = a_runout (lay st)) \<longrightarrow>
         p_of st' p_wchan i = p_of st p_wchan i \<and> p_of st' p_stat i = p_of st p_stat i)"
proof -
  from wakeup_spec [OF assms(1), of chan] assms(2) obtain st' ws sq' where
    w: "wakeup chan st = Inr st'" and post: "wakeup_post chan st rq sq st' ws sq'"
    and none: "\<forall>i < NPROC. p_of st' p_wchan i \<noteq> chan" by auto
  have wk: "woke (chans chan st) st st'" and q: "queues st' (ws @ rq) sq'" using post by (simp_all add: wakeup_post_def)
  note wk' = wk [unfolded woke_def, rule_format]
  have A: "p_of st' p_wchan i = 0 \<and> p_of st' p_stat i = (if p_of st p_stat i = SSLEEP then SRUN else p_of st p_stat i)"
    if "i < NPROC" "p_of st p_wchan i = chan" for i using wk' [of i] none that by auto
  have B: "i \<in> set (ws @ rq)" if "i < NPROC" "p_of st p_wchan i = chan" "p_of st p_stat i = SSLEEP" "tst (p_of st p_flag i) SLOAD" for i
    using A [OF that(1,2)] that post unfolding wakeup_post_def by auto
  have C: "p_of st' p_wchan i = p_of st p_wchan i \<and> p_of st' p_stat i = p_of st p_stat i"
    if "p_of st p_wchan i \<noteq> chan" "\<not> (runout st \<noteq> 0 \<and> p_of st p_wchan i = a_runout (lay st))" for i
    using wk' [of i] that by (auto simp: chans_def split: if_splits)
  show ?thesis using w q none A B C by (intro exI [of _ st'] exI [of _ "ws @ rq"] exI [of _ sq']) simp
qed

theorem wakeup_reaches_sleepers_witness: "\<exists>st'. wakeup 0x80000100 sched_example = Inr st'
    \<and> p_of st' p_stat 1 = SRUN \<and> p_of st' p_wchan 1 = 0"
proof -
  from wakeup_reaches_sleepers [where chan = "0x80000100", OF sched_example_queues] obtain st' where
    w: "wakeup 0x80000100 sched_example = Inr st'" and
    a: "\<forall>i < NPROC. p_of sched_example p_wchan i = 0x80000100 \<longrightarrow> p_of st' p_wchan i = 0
         \<and> p_of st' p_stat i = (if p_of sched_example p_stat i = SSLEEP then SRUN else p_of sched_example p_stat i)" by auto
  have "p_of st' p_wchan 1 = 0 \<and> p_of st' p_stat 1 = SRUN" using a by (simp add: sched_example_def)
  with w show ?thesis by blast
qed

text \<open>C18: \<open>setrun\<close> makes a sleeping, stopped or new process runnable: it returns with consistent
  queues, the process waits on nothing, and is on the run queue if it is in core. For a
  process in any other state it panics.\<close>

theorem setrun_makes_runnable:
  assumes "queues st rq sq" and "p < NPROC" and "p_of st p_stat p = SIDL \<longrightarrow> p_of st p_wchan p = 0"
  shows "if p_of st p_stat p \<in> {SSLEEP, SSTOP, SIDL}
    then \<exists>st' rq' sq'. setrun p st = Inr st' \<and> queues st' rq' sq' \<and> p_of st' p_stat p = SRUN \<and> p_of st' p_wchan p = 0
      \<and> (tst (p_of st p_flag p) SLOAD \<longrightarrow> p \<in> set rq') \<and> (\<forall>i. i \<noteq> p \<longrightarrow> bystander st st' i)
    else setrun p st = Inl (Panic ''setrun'')"
proof (cases "p_of st p_stat p \<in> {SSLEEP, SSTOP, SIDL}")
  case True
  then have "p_of st p_stat p \<in> {SSLEEP, SSTOP} \<or> p_of st p_stat p = SIDL \<and> p_of st p_wchan p = 0" using assms(3) by auto
  from setrun_spec [OF assms(1,2) this] obtain st' ws sq' where
    "setrun p st = Inr st'" "queues st' (ws @ rq) sq'" "p_of st' p_stat p = SRUN" "p_of st' p_wchan p = 0"
    "tst (p_of st p_flag p) SLOAD \<longrightarrow> p \<in> set (ws @ rq)" "\<forall>i. i \<noteq> p \<longrightarrow> bystander st st' i" by auto
  with True show ?thesis by auto
next
  case False
  with setrun_panics [OF False] show ?thesis by simp
qed

theorem setrun_makes_runnable_witness: "\<exists>st' rq'. setrun 1 sched_example = Inr st' \<and> p_of st' p_stat 1 = SRUN
    \<and> 1 \<in> set rq' \<and> (\<exists>sq'. queues st' rq' sq')"
  using setrun_makes_runnable [OF sched_example_queues, of 1]
  by (auto simp: sched_example_def boot_defs tst_def)

text \<open>C17: \<open>swtch\<close> chooses, among the processes on the run queue, the first one with the best
  (least) priority, takes only that one off the queue, and idles only if the queue is empty.\<close>

theorem swtch_picks_best:
  assumes "qlinks st rq sq" and "\<forall>i \<in> set rq. p_of st p_pri i < 128"
  shows "if rq = [] then \<exists>st'. swtch_pick st = Inr (None, st') \<and> qlinks st' [] sq
    else \<exists>i xs ys st' b. best (p_of st p_pri) rq i xs ys \<and> swtch_pick st = Inr (Some (i, b), st')
      \<and> qlinks st' (xs @ ys) sq \<and> curpri st' = schar (p_of st p_pri i) \<and> (b \<longleftrightarrow> tst (p_of st p_flag i) SSWAP)
      \<and> \<not> tst (p_of st' p_flag i) SSWAP
      \<and> (\<forall>j. p_of st' p_stat j = p_of st p_stat j \<and> p_of st' p_wchan j = p_of st p_wchan j)"
  by (rule swtch_pick_spec [OF assms])

theorem swtch_picks_best_witness: "\<exists>i xs ys st' b. best (p_of sched_example p_pri) [2, 3] i xs ys
    \<and> swtch_pick sched_example = Inr (Some (i, b), st')"
  using swtch_picks_best [of sched_example "[2, 3]" "(\<lambda>_. [])(8 := [1])"] sched_example_queues
  by (simp add: queues_def) (auto simp: sched_example_def boot_defs)

text \<open>\<open>remrq\<close> takes exactly the given process off the run queue, and panics if it is not on it.\<close>

theorem remrq_removes:
  assumes "qlinks st rq sq"
  shows "if p \<in> set rq
    then \<exists>st'. remrq p st = Inr st' \<and> qlinks st' (remove1 p rq) sq
      \<and> (\<forall>i. p_of st' p_stat i = p_of st p_stat i \<and> p_of st' p_wchan i = p_of st p_wchan i)
    else remrq p st = Inl (Panic ''remrq'')"
proof (cases "p \<in> set rq")
  case True
  with remrq_spec [OF assms True] show ?thesis by auto
next
  case False
  have c: "chain (plink st) (qs st) rq" by (rule qlinksD(1) [OF assms])
  have "length rq \<le> NPROC" using chain_length [OF c] qlinksD(2) [OF assms] by blast
  then have "remrq_go (Suc NPROC) p (qs st) st = Inl (Panic ''remrq'')"
    using False by (intro remrq_go_absent [OF c]) (cases rq; auto)+
  moreover have "qs st \<noteq> Some p" using c False by (cases rq) auto
  ultimately show ?thesis using False by (simp add: remrq_def del: remrq_go.simps)
qed

theorem remrq_removes_witness: "\<exists>st'. remrq 3 sched_example = Inr st' \<and> qlinks st' [2] ((\<lambda>_. [])(8 := [1]))"
  using remrq_removes [of sched_example "[2, 3]" "(\<lambda>_. [])(8 := [1])" 3] sched_example_queues
  by (auto simp: queues_def)

text \<open>C22: A process that has slept for more than two seconds loses its whole processor usage in
  \<open>updatepri\<close>, however large it was and however short the sleep beyond that: because
  \<open>SCHMAG * a\<close> is \<open>8/10*a\<close>, the usage is not scaled by 0.8 per second but set to 0.\<close>

theorem updatepri_forgets_usage:
  assumes "2 < p_of st p_slptime p" and "p_of st p_slptime p \<le> 127"
  shows "p_of (updatepri p st) p_cpu p = 0"
proof -
  let ?a = "p_of st p_cpu p mod 256" and ?s = "schar (p_of st p_slptime p - 1)"
  have s: "?s = p_of st p_slptime p - 1" "schar (?s - 1) = p_of st p_slptime p - 2"
    using assms by (simp_all add: schar_id)
  have z: "updatepri_loop 0 x = (0, x)" for x by (subst updatepri_loop.simps) simp
  have c: "cdiv 8 10 * ?a = 0" by (simp add: cdiv_def)
  have n: "p_of st p_slptime p - 2 \<noteq> 0" using assms by simp
  have "updatepri_loop ?a ?s = (if ?a \<noteq> 0 then updatepri_loop (cdiv 8 10 * ?a) (schar (?s - 1)) else (?a, ?s))"
    by (subst updatepri_loop.simps) (simp only: Let_def s(2) n if_True simp_thms)
  then have "fst (updatepri_loop ?a ?s) = 0" unfolding c z by (simp split: if_splits)
  then show ?thesis unfolding updatepri_def case_prod_unfold Let_def
    by (simp only: setpri_def Let_def) (simp add: schar_id)
qed

theorem updatepri_forgets_usage_witness:
  "p_of (updatepri 2 (updp 2 (\<lambda>p. p\<lparr>p_slptime := 3, p_cpu := 100\<rparr>) sched_example)) p_cpu 2 = 0"
  using updatepri_forgets_usage [of "updp 2 (\<lambda>p. p\<lparr>p_slptime := 3, p_cpu := 100\<rparr>) sched_example" 2] by simp

end
