(* ===== verification/Memlib.thy ===== *)
theory Memlib
  imports Kstate
begin

text \<open>
  The memory and string routines of the kernel (\<open>sys/pic32/machdep.c\<close>): \<open>bcopy\<close>,
  \<open>memcpy\<close>, \<open>bzero\<close>, \<open>bcmp\<close>, \<open>copystr\<close>, \<open>strlen\<close>, \<open>strncmp\<close>, \<open>ffs\<close>, \<open>addupc\<close>,
  \<open>insque\<close>, \<open>remque\<close>, the address checks and the copies between kernel and user memory.
  Memory is a function from 32-bit addresses to bytes, words are stored with the least
  significant byte first, and pointers and sizes are machine words, so that address
  arithmetic wraps as it does on the machine. The lemmas show that the word-at-a-time
  routines do what their byte-at-a-time definitions do, and what the user copies check.
\<close>

type_synonym mem = "u32 \<Rightarrow> u8"

subsection \<open>Word access and loops\<close>

definition ld32 :: "mem \<Rightarrow> u32 \<Rightarrow> u32" where
  "ld32 m a = ucast (m a) OR push_bit 8 (ucast (m (a + 1))) OR push_bit 16 (ucast (m (a + 2)))
     OR push_bit 24 (ucast (m (a + 3)))"

definition st32 :: "u32 \<Rightarrow> u32 \<Rightarrow> mem \<Rightarrow> mem" where
  "st32 a w m = m(a := ucast w, a + 1 := ucast (drop_bit 8 w), a + 2 := ucast (drop_bit 16 w),
     a + 3 := ucast (drop_bit 24 w))"

definition UNALIGNED :: "u32 \<Rightarrow> bool" where
  "UNALIGNED p \<longleftrightarrow> tst p 3"

lemma unat32_less: "unat w < 4294967296" for w :: u32
  using unsigned_less [of w] by simp

lemma and_3: "unat (p AND 3) = unat p mod 4" for p :: u32
proof -
  have "p AND 3 = take_bit 2 p" by (simp add: take_bit_eq_mask mask_eq_exp_minus_1)
  then show ?thesis by (simp only: unsigned_take_bit_eq) (simp add: take_bit_eq_mod)
qed

lemma UNALIGNED_mod: "UNALIGNED p \<longleftrightarrow> unat p mod 4 \<noteq> 0"
  unfolding UNALIGNED_def tst_def and_3 [symmetric] by (simp only: unat_eq_0)

lemma unat_uminus: "w \<noteq> 0 \<Longrightarrow> unat w + unat (- w) = 4294967296" for w :: u32
proof -
  assume "w \<noteq> 0"
  then have z: "0 < unat w" by (simp add: unat_gt_0)
  have "unat (w + - w) = (unat w + unat (- w)) mod 2 ^ 32" by (simp only: unat_word_ariths) simp
  then have "(unat w + unat (- w)) mod 4294967296 = 0" by simp
  then obtain k where "unat w + unat (- w) = 4294967296 * k" by (auto simp: mod_eq_0_iff_dvd)
  with unat32_less [of w] unat32_less [of "- w"] z have "k = 1" by simp
  with \<open>unat w + unat (- w) = _\<close> show ?thesis by simp
qed

lemma unaligned_step: "UNALIGNED dst \<Longrightarrow> unat (- dst - 1) mod 4 < unat (- dst) mod 4"
proof -
  assume u: "UNALIGNED dst"
  then have z: "dst \<noteq> 0" by (auto simp: UNALIGNED_def)
  obtain k where k: "unat dst + unat (- dst) = 4 * k" using unat_uminus [OF z] by (intro that [of 1073741824]) simp
  have "1 \<le> - dst" using z by (simp add: word_le_nat_alt Suc_le_eq unat_gt_0)
  then have b: "unat (- dst - 1) = unat (- dst) - 1" by (simp add: unat_sub_le)
  have "unat (- dst) mod 4 \<noteq> 0" using u k unfolding UNALIGNED_mod by presburger
  moreover have "v mod 4 \<noteq> 0 \<Longrightarrow> (v - 1) mod 4 < v mod 4" for v :: nat by (cases v) (auto simp: mod_Suc)
  ultimately show ?thesis unfolding b by blast
qed

lemma unat_minus_less: "k \<le> n \<Longrightarrow> 0 < k \<Longrightarrow> unat (n - k) < unat n" for n k :: u32
  by (simp add: unat_sub word_le_nat_alt word_less_nat_alt)

lemma unat_pred_less: "n \<noteq> 0 \<Longrightarrow> unat (n - 1) < unat n" for n :: u32
  by (rule unat_minus_less) (simp_all add: word_le_nat_alt unat_gt_0 Suc_le_eq)

lemma unat_pred2_less: "n \<noteq> 1 \<Longrightarrow> unat (n - 2) < unat (n - 1)" for n :: u32
  using unat_pred_less [of "n - 1"] by simp

text \<open>\<open>bcopy\<close>: four words at a time, one word at a time, then bytes.\<close>

function bcopy_words4 :: "u32 \<Rightarrow> u32 \<Rightarrow> u32 \<Rightarrow> mem \<Rightarrow> u32 \<times> u32 \<times> u32 \<times> mem" where
  "bcopy_words4 src dst n m =
     (if n \<ge> 16
      then let m = st32 dst (ld32 m src) m;
               m = st32 (dst + 4) (ld32 m (src + 4)) m;
               m = st32 (dst + 8) (ld32 m (src + 8)) m;
               m = st32 (dst + 12) (ld32 m (src + 12)) m
           in bcopy_words4 (src + 16) (dst + 16) (n - 16) m
      else (src, dst, n, m))"
  by pat_completeness auto
termination
  by (relation "measure (\<lambda>(src, dst, n, m). unat n)") (simp_all add: unat_minus_less)

function bcopy_words :: "u32 \<Rightarrow> u32 \<Rightarrow> u32 \<Rightarrow> mem \<Rightarrow> u32 \<times> u32 \<times> u32 \<times> mem" where
  "bcopy_words src dst n m =
     (if n \<ge> 4 then bcopy_words (src + 4) (dst + 4) (n - 4) (st32 dst (ld32 m src) m) else (src, dst, n, m))"
  by pat_completeness auto
termination
  by (relation "measure (\<lambda>(src, dst, n, m). unat n)") (simp_all add: unat_minus_less)

function bcopy_bytes :: "u32 \<Rightarrow> u32 \<Rightarrow> u32 \<Rightarrow> mem \<Rightarrow> mem" where
  "bcopy_bytes src dst n m =
     (if n \<noteq> 0 then bcopy_bytes (src + 1) (dst + 1) (n - 1) (m(dst := m src)) else m)"
  by pat_completeness auto
termination
  by (relation "measure (\<lambda>(src, dst, n, m). unat n)") (simp_all add: unat_pred_less)

declare bcopy_words4.simps [simp del] bcopy_words.simps [simp del] bcopy_bytes.simps [simp del]

definition bcopy :: "u32 \<Rightarrow> u32 \<Rightarrow> u32 \<Rightarrow> mem \<Rightarrow> mem" where
  "bcopy src0 dst0 nbytes m =
     (let (src, dst, n, m) =
        (if nbytes \<ge> 16 \<and> \<not> UNALIGNED src0 \<and> \<not> UNALIGNED dst0
         then let (src, dst, n, m) = bcopy_words4 src0 dst0 nbytes m
              in bcopy_words src dst n m
         else (src0, dst0, nbytes, m))
      in bcopy_bytes src dst n m)"

definition memcpy :: "u32 \<Rightarrow> u32 \<Rightarrow> u32 \<Rightarrow> mem \<Rightarrow> u32 \<times> mem" where
  "memcpy dst src nbytes m = (dst, bcopy src dst nbytes m)"

text \<open>
  \<open>bzero\<close>: bytes up to a word boundary (the count is tested only after a byte has been
  written), then words, then bytes. \<open>bzero_head\<close> returns \<open>None\<close> for the early return.
\<close>

function bzero_head :: "u32 \<Rightarrow> u32 \<Rightarrow> mem \<Rightarrow> (u32 \<times> u32) option \<times> mem" where
  "bzero_head dst n m =
     (if UNALIGNED dst
      then let m = m(dst := 0)
           in if n - 1 = 0 then (None, m) else bzero_head (dst + 1) (n - 1) m
      else (Some (dst, n), m))"
  by pat_completeness auto
termination
  by (relation "measure (\<lambda>(dst, n, m). unat (- dst) mod 4)") (simp_all add: unaligned_step)

function bzero_words4 :: "u32 \<Rightarrow> u32 \<Rightarrow> mem \<Rightarrow> u32 \<times> u32 \<times> mem" where
  "bzero_words4 dst n m =
     (if n \<ge> 16
      then bzero_words4 (dst + 16) (n - 16)
             (st32 (dst + 12) 0 (st32 (dst + 8) 0 (st32 (dst + 4) 0 (st32 dst 0 m))))
      else (dst, n, m))"
  by pat_completeness auto
termination
  by (relation "measure (\<lambda>(dst, n, m). unat n)") (simp_all add: unat_minus_less)

function bzero_words :: "u32 \<Rightarrow> u32 \<Rightarrow> mem \<Rightarrow> u32 \<times> u32 \<times> mem" where
  "bzero_words dst n m = (if n \<ge> 4 then bzero_words (dst + 4) (n - 4) (st32 dst 0 m) else (dst, n, m))"
  by pat_completeness auto
termination
  by (relation "measure (\<lambda>(dst, n, m). unat n)") (simp_all add: unat_minus_less)

function bzero_bytes :: "u32 \<Rightarrow> u32 \<Rightarrow> mem \<Rightarrow> mem" where
  "bzero_bytes dst n m = (if n \<noteq> 0 then bzero_bytes (dst + 1) (n - 1) (m(dst := 0)) else m)"
  by pat_completeness auto
termination
  by (relation "measure (\<lambda>(dst, n, m). unat n)") (simp_all add: unat_pred_less)

declare bzero_head.simps [simp del] bzero_words4.simps [simp del] bzero_words.simps [simp del] bzero_bytes.simps [simp del]

definition bzero :: "u32 \<Rightarrow> u32 \<Rightarrow> mem \<Rightarrow> mem" where
  "bzero dst0 nbytes m =
     (case bzero_head dst0 nbytes m of
        (None, m) \<Rightarrow> m
      | (Some (dst, n), m) \<Rightarrow>
          let (dst, n, m) = (if n \<ge> 4 then let (dst, n, m) = bzero_words4 dst n m in bzero_words dst n m
                             else (dst, n, m))
          in bzero_bytes dst n m)"

text \<open>
  \<open>bcmp\<close>: words while they agree, then bytes. The result is the difference of the first two
  bytes that differ.
\<close>

function bcmp_words :: "u32 \<Rightarrow> u32 \<Rightarrow> u32 \<Rightarrow> mem \<Rightarrow> u32 \<times> u32 \<times> u32" where
  "bcmp_words a1 a2 n m =
     (if n \<ge> 4 then if ld32 m a1 \<noteq> ld32 m a2 then (a1, a2, n) else bcmp_words (a1 + 4) (a2 + 4) (n - 4) m
      else (a1, a2, n))"
  by pat_completeness auto
termination
  by (relation "measure (\<lambda>(a1, a2, n, m). unat n)") (simp_all add: unat_minus_less)

function bcmp_bytes :: "u32 \<Rightarrow> u32 \<Rightarrow> u32 \<Rightarrow> mem \<Rightarrow> int" where
  "bcmp_bytes s1 s2 n m =
     (if n \<noteq> 0 then if m s1 \<noteq> m s2 then uint (m s1) - uint (m s2) else bcmp_bytes (s1 + 1) (s2 + 1) (n - 1) m
      else 0)"
  by pat_completeness auto
termination
  by (relation "measure (\<lambda>(s1, s2, n, m). unat n)") (simp_all add: unat_pred_less)

declare bcmp_words.simps [simp del] bcmp_bytes.simps [simp del]

definition bcmp :: "u32 \<Rightarrow> u32 \<Rightarrow> u32 \<Rightarrow> mem \<Rightarrow> int" where
  "bcmp m1 m2 nbytes m =
     (let (s1, s2, n) = (if nbytes \<ge> 16 \<and> \<not> UNALIGNED m1 \<and> \<not> UNALIGNED m2 then bcmp_words m1 m2 nbytes m
                         else (m1, m2, nbytes))
      in bcmp_bytes s1 s2 n m)"

text \<open>
  Strings. \<open>copystr\<close> returns the error, the length copied and the memory. A string without
  a terminating NUL makes \<open>strlen\<close> run for ever, which is \<open>None\<close>. The bytes that \<open>strncmp\<close>
  compares are signed.
\<close>

function copystr_go :: "u32 \<Rightarrow> u32 \<Rightarrow> u32 \<Rightarrow> mem \<Rightarrow> int \<times> u32 \<times> mem" where
  "copystr_go src dest maxlength m =
     (let m = m(dest := m src)
      in if m dest = 0 then (0, dest + 1, m)
         else if maxlength - 1 = 0 then (ENOENT, dest + 1, m)
         else copystr_go (src + 1) (dest + 1) (maxlength - 1) m)"
  by pat_completeness auto
termination
  by (relation "measure (\<lambda>(src, dest, n, m). unat (n - 1))") (auto intro!: unat_pred2_less)

declare copystr_go.simps [simp del]

definition copystr :: "u32 \<Rightarrow> u32 \<Rightarrow> u32 \<Rightarrow> mem \<Rightarrow> int \<times> u32 \<times> mem" where
  "copystr src dest maxlength m =
     (if maxlength \<noteq> 0
      then let (error, dest', m) = copystr_go src dest maxlength m in (error, dest' - dest, m)
      else (ENOENT, 0, m))"

partial_function (option) strlen_go :: "mem \<Rightarrow> u32 \<Rightarrow> u32 \<Rightarrow> u32 option" where
  "strlen_go m s0 s = (if m s \<noteq> 0 then strlen_go m s0 (s + 1) else Some (s + 1 - s0 - 1))"

definition strlen :: "u32 \<Rightarrow> mem \<Rightarrow> u32 option" where
  "strlen s m = strlen_go m s s"

function strncmp_go :: "u32 \<Rightarrow> u32 \<Rightarrow> u32 \<Rightarrow> mem \<Rightarrow> int" where
  "strncmp_go s1 s2 n m =
     (let tmp = sint (m s2); ret = sint (m s1) - tmp
      in if ret = 0 \<and> tmp \<noteq> 0 \<and> n - 1 \<noteq> 0 then strncmp_go (s1 + 1) (s2 + 1) (n - 1) m else ret)"
  by pat_completeness auto
termination
  by (relation "measure (\<lambda>(s1, s2, n, m). unat (n - 1))") (auto intro!: unat_pred2_less)

declare strncmp_go.simps [simp del]

definition strncmp :: "u32 \<Rightarrow> u32 \<Rightarrow> u32 \<Rightarrow> mem \<Rightarrow> int" where
  "strncmp s1 s2 n m = (if n = 0 then 0 else strncmp_go s1 s2 n m)"

text \<open>
  \<open>mips_clz\<close> is the machine instruction that counts leading zeros. \<open>ffs\<close> takes and returns
  an unsigned word, converted to \<open>int\<close> on return.
\<close>

definition mips_clz :: "u32 \<Rightarrow> nat" where
  "mips_clz w = length (takeWhile (\<lambda>n. \<not> bit w n) (rev [0..<32]))"

definition ffs :: "u32 \<Rightarrow> nat" where
  "ffs i = (if i \<noteq> 0 then 32 - mips_clz (i AND - i) else 0)"

text \<open>The counters that \<open>addupc\<close> increments are words; \<open>pr_base[indx]\<close> is \<open>4 * indx\<close> bytes past \<open>pr_base\<close>.\<close>

definition addupc :: "u32 \<Rightarrow> uprof \<Rightarrow> int \<Rightarrow> mem \<Rightarrow> mem" where
  "addupc pc pbuf ticks m =
     (if pc < pr_off pbuf then m
      else let indx = pc - pr_off pbuf;
               indx = drop_bit 16 (indx * pr_scale pbuf)
           in if indx \<ge> pr_size pbuf then m
              else let a = pr_base pbuf + 4 * indx in st32 a (ld32 m a + of_int ticks) m)"

text \<open>Doubly linked queues: the two link fields of the elements.\<close>

record que =
  q_next :: "nat \<Rightarrow> nat"
  q_prev :: "nat \<Rightarrow> nat"

definition insque :: "nat \<Rightarrow> nat \<Rightarrow> que \<Rightarrow> que" where
  "insque e prev q =
     (let q = q\<lparr>q_prev := (q_prev q)(e := prev)\<rparr>;
          q = q\<lparr>q_next := (q_next q)(e := q_next q prev)\<rparr>;
          q = q\<lparr>q_prev := (q_prev q)(q_next q prev := e)\<rparr>
      in q\<lparr>q_next := (q_next q)(prev := e)\<rparr>)"

definition remque :: "nat \<Rightarrow> que \<Rightarrow> que" where
  "remque e q =
     (let q = q\<lparr>q_next := (q_next q)(q_prev q e := q_next q e)\<rparr>
      in q\<lparr>q_prev := (q_prev q)(q_next q e := q_prev q e)\<rparr>)"

text \<open>Address checks (the region bounds are those of \<open>sys/pic32/machparam.h\<close>) and user copies.\<close>

abbreviation (input) USER_FLASH_START :: u32 where "USER_FLASH_START \<equiv> 0x9d030000"
abbreviation (input) USER_FLASH_END :: u32 where "USER_FLASH_END \<equiv> 0x9d080000"
abbreviation (input) USER_DATA_START :: u32 where "USER_DATA_START \<equiv> 0x7f008000"
abbreviation (input) USER_DATA_END :: u32 where "USER_DATA_END \<equiv> 0x7f020000"

abbreviation (input) KERNEL_DATA_START :: u32 where "KERNEL_DATA_START \<equiv> 0x80000000"
abbreviation (input) KERNEL_DATA_END :: u32 where "KERNEL_DATA_END \<equiv> 0x80008000"
abbreviation (input) KERNEL_FLASH_START :: u32 where "KERNEL_FLASH_START \<equiv> 0x9d000000"

definition baduaddr :: "u32 \<Rightarrow> bool" where
  "baduaddr addr =
     (if addr \<ge> USER_FLASH_START \<and> addr < USER_FLASH_END then False
      else if addr \<ge> USER_DATA_START \<and> addr < USER_DATA_END then False
      else True)"

definition badkaddr :: "u32 \<Rightarrow> bool" where
  "badkaddr addr =
     (if addr \<ge> KERNEL_DATA_START \<and> addr < KERNEL_DATA_END then False
      else if addr \<ge> KERNEL_FLASH_START \<and> addr < KERNEL_FLASH_START + 0x80000 then False
      else True)"

definition copyout :: "u32 \<Rightarrow> u32 \<Rightarrow> u32 \<Rightarrow> mem \<Rightarrow> int \<times> mem" where
  "copyout from to nbytes m =
     (if baduaddr to \<or> baduaddr (to + nbytes - 1) then (EFAULT, m) else (0, bcopy from to nbytes m))"

definition copyin :: "u32 \<Rightarrow> u32 \<Rightarrow> u32 \<Rightarrow> mem \<Rightarrow> int \<times> mem" where
  "copyin from to nbytes m =
     (if baduaddr from \<or> baduaddr (from + nbytes - 1) then (EFAULT, m) else (0, bcopy from to nbytes m))"

subsection \<open>Copying\<close>

text \<open>The copy as one simultaneous update: byte \<open>k\<close> of the destination becomes byte \<open>k\<close> of the source.\<close>

definition cpy :: "mem \<Rightarrow> u32 \<Rightarrow> u32 \<Rightarrow> nat \<Rightarrow> mem" where
  "cpy m s d n = (\<lambda>a. if unat (a - d) < n then m (s + (a - d)) else m a)"

lemma unat_sub_wrap: "x < y \<Longrightarrow> unat (x - y) = 4294967296 + unat x - unat y" for x y :: u32
proof -
  assume xy: "x < y"
  then have "y - x \<noteq> 0" by auto
  from unat_uminus [OF this] have "unat (y - x) + unat (x - y) = 4294967296" by simp
  moreover have "unat (y - x) = unat y - unat x" using xy by (simp add: unat_sub_le)
  moreover have "unat x < unat y" using xy by (simp add: word_less_nat_alt)
  ultimately show ?thesis by simp
qed

lemma unat_sub_if: "unat (x - y) = (if y \<le> x then unat x - unat y else 4294967296 + unat x - unat y)" for x y :: u32
  by (simp add: unat_sub_wrap unat_sub_le)

lemma unat_of_nat32: "n < 4294967296 \<Longrightarrow> unat (of_nat n :: u32) = n"
  by (simp add: unat_of_nat)

text \<open>A forward copy in pieces is the whole copy unless the destination lies inside the source.\<close>

definition forward :: "u32 \<Rightarrow> u32 \<Rightarrow> nat \<Rightarrow> bool" where
  "forward s d n \<longleftrightarrow> d = s \<or> n \<le> unat (d - s)"

lemma cpy_step:
  assumes fw: "forward s d (unat k + j)" and b: "unat k + j \<le> 4294967296"
  shows "cpy (cpy m s d (unat k)) (s + k) (d + k) j = cpy m s d (unat k + j)"
proof
  fix a
  define x where "x = a - d"
  have ax: "a - (d + k) = x - k" "s + k + (x - k) = s + x" by (simp_all add: x_def)
  have x: "unat x < 4294967296" by (rule unat32_less)
  consider "unat x < unat k" | "unat k \<le> unat x" "unat x < unat k + j" | "unat k + j \<le> unat x" by linarith
  then show "cpy (cpy m s d (unat k)) (s + k) (d + k) j a = cpy m s d (unat k + j) a"
  proof cases
    case 1
    then have "\<not> unat (x - k) < j" using b by (simp add: unat_sub_if word_le_nat_alt)
    with 1 show ?thesis by (simp add: cpy_def ax flip: x_def)
  next
    case 2
    then have j: "unat (x - k) < j" by (simp add: unat_sub_if word_le_nat_alt)
    have "\<not> unat (s + x - d) < unat k"
    proof (cases "d = s")
      case True
      with 2 show ?thesis by simp
    next
      case False
      with fw have y: "unat k + j \<le> unat (d - s)" by (simp add: forward_def)
      define z where "z = d - s"
      have e: "s + x - d = x - z" by (simp add: z_def)
      show ?thesis unfolding e using y 2 unat32_less [of z] unfolding z_def [symmetric]
        by (simp add: unat_sub_if word_le_nat_alt)
    qed
    with 2 j show ?thesis by (simp add: cpy_def ax flip: x_def)
  next
    case 3
    then have "\<not> unat (x - k) < j" by (simp add: unat_sub_if word_le_nat_alt)
    with 3 show ?thesis by (simp add: cpy_def ax flip: x_def)
  qed
qed

lemma forward_le: "forward s d n \<Longrightarrow> k \<le> n \<Longrightarrow> forward s d k"
  by (auto simp: forward_def)

lemma forward_shift [simp]: "forward (s + k) (d + k) n = forward s d n"
  by (simp add: forward_def)

lemma cpy_0 [simp]: "cpy m s d 0 = m"
  by (simp add: cpy_def)

lemma cpy_hd [simp]: "cpy m s d (Suc k) d = m s"
  by (simp add: cpy_def)

lemma cpy_byte: "m(d := m s) = cpy m s d 1"
proof
  fix a
  have "unat (a - d) = 0 \<longleftrightarrow> a = d" by (simp add: unat_eq_0)
  then show "(m(d := m s)) a = cpy m s d 1 a" by (auto simp: cpy_def less_Suc_eq)
qed

lemma ld32_bytes:
  "ucast (ld32 m a) = m a" "ucast (drop_bit 8 (ld32 m a)) = m (a + 1)"
  "ucast (drop_bit 16 (ld32 m a)) = m (a + 2)" "ucast (drop_bit 24 (ld32 m a)) = m (a + 3)"
  by (rule bit_word_eqI; auto simp: ld32_def bit_simps dest: bit_imp_le_length)+

lemma less4_cases: "unat (a - d) < 4 \<longleftrightarrow> a = d \<or> a = d + 1 \<or> a = d + 2 \<or> a = d + 3" for a d :: u32
proof
  assume "unat (a - d) < 4"
  then have "unat (a - d) = 0 \<or> unat (a - d) = 1 \<or> unat (a - d) = 2 \<or> unat (a - d) = 3" by linarith
  moreover have "x = of_nat n" if "unat x = n" for x :: u32 and n by (simp flip: that)
  ultimately have "a - d = of_nat 0 \<or> a - d = of_nat 1 \<or> a - d = of_nat 2 \<or> a - d = of_nat 3" by blast
  then show "a = d \<or> a = d + 1 \<or> a = d + 2 \<or> a = d + 3" by (auto simp: diff_eq_eq add.commute)
qed auto

lemma cpy_word: "st32 d (ld32 m s) m = cpy m s d 4"
proof
  fix a
  have distinct: "d \<noteq> d + 1" "d \<noteq> d + 2" "d \<noteq> d + 3" "d + 1 \<noteq> d + 2" "d + 1 \<noteq> d + 3" "d + 2 \<noteq> d + 3" by simp_all
  show "st32 d (ld32 m s) m a = cpy m s d 4 a"
    unfolding cpy_def less4_cases using distinct by (auto simp: st32_def ld32_bytes)
qed

lemma unat_le_add: "k \<le> n \<Longrightarrow> unat k + unat (n - k) = unat n" for k n :: u32
  by (simp add: unat_sub_le word_le_nat_alt)

lemma cpy_step_word:
  assumes "forward s d (unat n)" and "k \<le> n"
  shows "cpy (cpy m s d (unat k)) (s + k) (d + k) (unat (n - k)) = cpy m s d (unat n)"
  using cpy_step [of s d k "unat (n - k)" m] assms unat32_less [of n] by (simp add: unat_le_add)

lemma forward_rest: "forward s d (unat n) \<Longrightarrow> k \<le> n \<Longrightarrow> forward s d (unat (n - k))" for n k :: u32
  by (erule forward_le) (simp add: unat_sub_le)

lemma bcopy_bytes_cpy:
  "forward s d (unat n) \<Longrightarrow> bcopy_bytes s d n m = cpy m s d (unat n)"
proof (induction s d n m rule: bcopy_bytes.induct)
  case (1 s d n m)
  show ?case
  proof (cases "n = 0")
    case False
    then have n: "1 \<le> n" by (simp add: word_le_nat_alt Suc_le_eq unat_gt_0)
    have "bcopy_bytes (s + 1) (d + 1) (n - 1) (m(d := m s)) = cpy (m(d := m s)) (s + 1) (d + 1) (unat (n - 1))"
      by (rule 1(1) [OF False]) (simp add: forward_rest 1(2) n)
    also have "\<dots> = cpy m s d (unat n)"
      using cpy_step_word [OF 1(2) n, of m] by (simp add: cpy_byte)
    finally show ?thesis using False by (simp add: bcopy_bytes.simps [of s d n])
  qed (simp add: bcopy_bytes.simps)
qed

text \<open>What the word loops have done when they stop: a first part of the copy.\<close>

definition copied :: "u32 \<Rightarrow> u32 \<Rightarrow> u32 \<Rightarrow> mem \<Rightarrow> u32 \<times> u32 \<times> u32 \<times> mem \<Rightarrow> bool" where
  "copied s d n m r \<longleftrightarrow> (\<exists>k \<le> n. r = (s + k, d + k, n - k, cpy m s d (unat k)))"

lemma copied_start: "copied s d n m (s, d, n, m)"
  by (simp add: copied_def exI [of _ 0])

lemma le_diff_word: "c \<le> n \<Longrightarrow> k \<le> n - c \<Longrightarrow> c + k \<le> n \<and> unat (c + k) = unat c + unat k" for c k n :: u32
proof -
  assume c: "c \<le> n" and k: "k \<le> n - c"
  then have "unat c + unat k \<le> unat n" by (simp add: word_le_nat_alt unat_sub_le)
  moreover from this have "unat (c + k) = unat c + unat k" using unat32_less [of n] by (intro unat_add_no_wrap) simp
  ultimately show ?thesis by (simp add: word_le_nat_alt)
qed

lemma copied_step:
  assumes "forward s d (unat n)" and "c \<le> n" and "copied (s + c) (d + c) (n - c) (cpy m s d (unat c)) r"
  shows "copied s d n m r"
proof -
  from assms(3) obtain k where k: "k \<le> n - c"
    and r: "r = (s + c + k, d + c + k, n - c - k, cpy (cpy m s d (unat c)) (s + c) (d + c) (unat k))"
    by (auto simp: copied_def)
  note ck = le_diff_word [OF assms(2) k]
  have "forward s d (unat c + unat k)" using assms(1) ck by (auto intro: forward_le simp: word_le_nat_alt)
  then have "cpy (cpy m s d (unat c)) (s + c) (d + c) (unat k) = cpy m s d (unat (c + k))"
    using cpy_step [of s d c "unat k" m] ck unat32_less [of "c + k"] by simp
  then show ?thesis unfolding copied_def r using ck by (intro exI [of _ "c + k"]) (simp add: algebra_simps)
qed

lemma bcopy_words_copied: "forward s d (unat n) \<Longrightarrow> copied s d n m (bcopy_words s d n m)"
proof (induction s d n m rule: bcopy_words.induct)
  case (1 s d n m)
  show ?case
  proof (cases "4 \<le> n")
    case True
    then have "copied (s + 4) (d + 4) (n - 4) (cpy m s d (unat (4 :: u32))) (bcopy_words s d n m)"
      using 1 by (subst bcopy_words.simps) (simp add: cpy_word forward_rest)
    with 1(2) True show ?thesis by (rule copied_step)
  qed (subst bcopy_words.simps; simp add: copied_start)
qed

lemma cpy_words4:
  assumes "forward s d 16"
  shows "(let m = st32 d (ld32 m s) m; m = st32 (d + 4) (ld32 m (s + 4)) m;
    m = st32 (d + 8) (ld32 m (s + 8)) m in st32 (d + 12) (ld32 m (s + 12)) m) = cpy m s d 16"
proof -
  have "cpy (cpy m s d 4) (s + 4) (d + 4) 4 = cpy m s d 8"
    using cpy_step [of s d 4 4 m] forward_le [OF assms] by simp
  moreover have "cpy (cpy m s d 8) (s + 8) (d + 8) 4 = cpy m s d 12"
    using cpy_step [of s d 8 4 m] forward_le [OF assms] by simp
  moreover have "cpy (cpy m s d 12) (s + 12) (d + 12) 4 = cpy m s d 16"
    using cpy_step [of s d 12 4 m] assms by simp
  ultimately show ?thesis by (simp add: cpy_word Let_def)
qed

lemma bcopy_words4_copied: "forward s d (unat n) \<Longrightarrow> copied s d n m (bcopy_words4 s d n m)"
proof (induction s d n m rule: bcopy_words4.induct)
  case (1 s d n m)
  show ?case
  proof (cases "16 \<le> n")
    case True
    have "forward s d 16" using 1(2) True by (auto intro: forward_le simp: word_le_nat_alt)
    note four = cpy_words4 [OF this, of m, unfolded Let_def]
    have "copied (s + 16) (d + 16) (n - 16) (cpy m s d 16) (bcopy_words4 (s + 16) (d + 16) (n - 16) (cpy m s d 16))"
      using 1(1) [OF True refl refl refl refl] 1(2) True by (simp add: four forward_rest)
    then have "copied s d n m (bcopy_words4 (s + 16) (d + 16) (n - 16) (cpy m s d 16))"
      using copied_step [OF 1(2) True, of m] by simp
    then show ?thesis using True by (subst bcopy_words4.simps) (simp add: Let_def four)
  qed (subst bcopy_words4.simps; simp add: copied_start)
qed

lemma bcopy_cpy:
  assumes "forward src dst (unat n)"
  shows "bcopy src dst n m = cpy m src dst (unat n)"
proof (cases "n \<ge> 16 \<and> \<not> UNALIGNED src \<and> \<not> UNALIGNED dst")
  case False
  then show ?thesis using bcopy_bytes_cpy [OF assms] by (auto simp: bcopy_def)
next
  case True
  from bcopy_words4_copied [OF assms, of m] obtain k where k: "k \<le> n"
    and w4: "bcopy_words4 src dst n m = (src + k, dst + k, n - k, cpy m src dst (unat k))" by (auto simp: copied_def)
  have "copied src dst n m (bcopy_words (src + k) (dst + k) (n - k) (cpy m src dst (unat k)))"
    using assms k by (intro copied_step [OF assms k] bcopy_words_copied) (simp add: forward_rest)
  then obtain j where j: "j \<le> n"
    and w: "bcopy_words (src + k) (dst + k) (n - k) (cpy m src dst (unat k)) = (src + j, dst + j, n - j, cpy m src dst (unat j))"
    by (auto simp: copied_def)
  have "bcopy_bytes (src + j) (dst + j) (n - j) (cpy m src dst (unat j)) = cpy m src dst (unat n)"
    using assms j by (subst bcopy_bytes_cpy) (simp_all add: forward_rest cpy_step_word)
  with True show ?thesis by (simp add: bcopy_def w4 w)
qed

subsection \<open>Zeroing\<close>

definition zro :: "mem \<Rightarrow> u32 \<Rightarrow> nat \<Rightarrow> mem" where
  "zro m d n = (\<lambda>a. if unat (a - d) < n then 0 else m a)"

lemma zro_step:
  assumes "unat k + j \<le> 4294967296"
  shows "zro (zro m d (unat k)) (d + k) j = zro m d (unat k + j)"
proof
  fix a
  define x where "x = a - d"
  have ax: "a - (d + k) = x - k" by (simp add: x_def)
  have "unat x < unat k \<Longrightarrow> \<not> unat (x - k) < j" and "unat k \<le> unat x \<Longrightarrow> unat (x - k) < j \<longleftrightarrow> unat x < unat k + j"
    using assms unat32_less [of x] by (auto simp: unat_sub_if word_le_nat_alt)
  then show "zro (zro m d (unat k)) (d + k) j a = zro m d (unat k + j) a"
    unfolding zro_def ax x_def [symmetric] by (cases "unat x < unat k") auto
qed

lemma zro_step_word: "k \<le> n \<Longrightarrow> zro (zro m d (unat k)) (d + k) (unat (n - k)) = zro m d (unat n)"
  using zro_step [of k "unat (n - k)" m d] unat32_less [of n] by (simp add: unat_le_add)

lemma zro_0 [simp]: "zro m d 0 = m"
  by (simp add: zro_def)

lemma zro_byte: "m(d := 0) = zro m d 1"
proof
  fix a
  have "unat (a - d) = 0 \<longleftrightarrow> a = d" by (simp add: unat_eq_0)
  then show "(m(d := 0)) a = zro m d 1 a" by (auto simp: zro_def less_Suc_eq)
qed

lemma zro_word: "st32 d 0 m = zro m d 4"
proof
  fix a
  show "st32 d 0 m a = zro m d 4 a" unfolding zro_def less4_cases by (auto simp: st32_def)
qed

lemma one_le: "n \<noteq> 0 \<Longrightarrow> 1 \<le> n" for n :: u32
  by (simp add: word_le_nat_alt Suc_le_eq unat_gt_0)

lemma bzero_bytes_zro: "bzero_bytes d n m = zro m d (unat n)"
proof (induction d n m rule: bzero_bytes.induct)
  case (1 d n m)
  show ?case
  proof (cases "n = 0")
    case False
    have "bzero_bytes d n m = zro (m(d := 0)) (d + 1) (unat (n - 1))"
      unfolding 1 [OF False, symmetric] using False by (subst bzero_bytes.simps) simp
    also have "\<dots> = zro m d (unat n)" using zro_step_word [OF one_le [OF False], of m d] by (simp add: zro_byte)
    finally show ?thesis .
  qed (simp add: bzero_bytes.simps)
qed

definition zeroed :: "u32 \<Rightarrow> u32 \<Rightarrow> mem \<Rightarrow> u32 \<times> u32 \<times> mem \<Rightarrow> bool" where
  "zeroed d n m r \<longleftrightarrow> (\<exists>k \<le> n. r = (d + k, n - k, zro m d (unat k)))"

lemma zeroed_start: "zeroed d n m (d, n, m)"
  by (simp add: zeroed_def exI [of _ 0])

lemma zeroed_step:
  assumes "c \<le> n" and "zeroed (d + c) (n - c) (zro m d (unat c)) r"
  shows "zeroed d n m r"
proof -
  from assms(2) obtain k where k: "k \<le> n - c"
    and r: "r = (d + c + k, n - c - k, zro (zro m d (unat c)) (d + c) (unat k))" by (auto simp: zeroed_def)
  note ck = le_diff_word [OF assms(1) k]
  have "zro (zro m d (unat c)) (d + c) (unat k) = zro m d (unat (c + k))"
    using zro_step [of c "unat k" m d] ck unat32_less [of "c + k"] by simp
  then show ?thesis unfolding zeroed_def r using ck by (intro exI [of _ "c + k"]) (simp add: algebra_simps)
qed

lemma bzero_words_zeroed: "zeroed d n m (bzero_words d n m)"
proof (induction d n m rule: bzero_words.induct)
  case (1 d n m)
  show ?case
  proof (cases "4 \<le> n")
    case True
    then have "zeroed (d + 4) (n - 4) (zro m d (unat (4 :: u32))) (bzero_words d n m)"
      using 1 by (subst bzero_words.simps) (simp add: zro_word)
    with True show ?thesis by (rule zeroed_step)
  qed (subst bzero_words.simps; simp add: zeroed_start)
qed

lemma bzero_words4_zeroed: "zeroed d n m (bzero_words4 d n m)"
proof (induction d n m rule: bzero_words4.induct)
  case (1 d n m)
  have four: "st32 (d + 12) 0 (st32 (d + 8) 0 (st32 (d + 4) 0 (st32 d 0 m))) = zro m d 16"
    using zro_step [of 4 4 m d] zro_step [of 8 4 m d] zro_step [of 12 4 m d] by (simp add: zro_word)
  show ?case
  proof (cases "16 \<le> n")
    case True
    then have "zeroed (d + 16) (n - 16) (zro m d (unat (16 :: u32))) (bzero_words4 d n m)"
      using 1 by (subst bzero_words4.simps) (simp add: four)
    with True show ?thesis by (rule zeroed_step)
  qed (subst bzero_words4.simps; simp add: zeroed_start)
qed

lemma bzero_head_zeroed:
  "n \<noteq> 0 \<Longrightarrow> (case bzero_head d n m of
     (None, m') \<Rightarrow> m' = zro m d (unat n)
   | (Some (d', n'), m') \<Rightarrow> zeroed d n m (d', n', m') \<and> \<not> UNALIGNED d')"
proof (induction d n m rule: bzero_head.induct)
  case (1 d n m)
  note n1 = one_le [OF 1(2)]
  show ?case
  proof (cases "UNALIGNED d")
    case False
    then show ?thesis by (subst bzero_head.simps) (simp add: zeroed_start)
  next
    case True
    show ?thesis
    proof (cases "n - 1 = 0")
      case True': True
      then have "n = 1" by simp
      with True show ?thesis by (subst bzero_head.simps) (simp add: zro_byte)
    next
      case False
      have h: "bzero_head d n m = bzero_head (d + 1) (n - 1) (zro m d 1)"
        using True False by (subst bzero_head.simps) (simp add: zro_byte Let_def)
      have "case bzero_head (d + 1) (n - 1) (zro m d 1) of
         (None, m') \<Rightarrow> m' = zro (zro m d 1) (d + 1) (unat (n - 1))
       | (Some (d', n'), m') \<Rightarrow> zeroed (d + 1) (n - 1) (zro m d 1) (d', n', m') \<and> \<not> UNALIGNED d'"
        by (rule 1(1) [OF True refl False False, unfolded zro_byte])
      then show ?thesis unfolding h using zro_step_word [OF n1, of m d] zeroed_step [OF n1, of d m]
        by (auto split: option.splits)
    qed
  qed
qed

lemma bzero_zro:
  assumes "n \<noteq> 0 \<or> \<not> UNALIGNED dst"
  shows "bzero dst n m = zro m dst (unat n)"
proof (cases "bzero_head dst n m")
  case (Pair r m1)
  have rest: "(let (d2, n2, m2) = (if n1 \<ge> 4 then let (d, k, m) = bzero_words4 d1 n1 m1 in bzero_words d k m else (d1, n1, m1))
      in bzero_bytes d2 n2 m2) = zro m dst (unat n)"
    if z: "zeroed dst n m (d1, n1, m1)" for d1 n1
  proof -
    from z obtain k1 where k1: "k1 \<le> n" "d1 = dst + k1" "n1 = n - k1" "m1 = zro m dst (unat k1)" by (auto simp: zeroed_def)
    have "zeroed dst n m (if n1 \<ge> 4 then let (d, k, m) = bzero_words4 d1 n1 m1 in bzero_words d k m else (d1, n1, m1))"
    proof (cases "n1 \<ge> 4")
      case True
      from bzero_words4_zeroed [of d1 n1 m1] k1 have z4: "zeroed dst n m (bzero_words4 d1 n1 m1)" by (auto intro: zeroed_step)
      then obtain k where k: "k \<le> n" "bzero_words4 d1 n1 m1 = (dst + k, n - k, zro m dst (unat k))" by (auto simp: zeroed_def)
      with True show ?thesis using zeroed_step [OF k(1) bzero_words_zeroed] by simp
    qed (use z in simp)
    then obtain k where "k \<le> n" "(if n1 \<ge> 4 then let (d, k, m) = bzero_words4 d1 n1 m1 in bzero_words d k m else (d1, n1, m1))
        = (dst + k, n - k, zro m dst (unat k))" by (auto simp: zeroed_def)
    then show ?thesis by (simp add: bzero_bytes_zro zro_step_word)
  qed
  show ?thesis
  proof (cases "n = 0")
    case True
    with assms have "bzero_head dst n m = (Some (dst, n), m)" by (subst bzero_head.simps) simp
    with Pair have "r = Some (dst, n)" "m1 = m" by simp_all
    with Pair rest [of dst n] zeroed_start show ?thesis unfolding bzero_def by auto
  next
    case False
    note h = bzero_head_zeroed [OF False, of m dst, unfolded Pair]
    show ?thesis
    proof (cases r)
      case None
      with h show ?thesis by (simp add: bzero_def Pair)
    next
      case (Some p)
      obtain a b where p: "p = (a, b)" by (cases p)
      with h Some have "zeroed dst n m (a, b, m1)" by simp
      from rest [OF this] show ?thesis by (simp only: bzero_def Pair Some p prod.case option.case)
    qed
  qed
qed

subsection \<open>Comparing\<close>

text \<open>The first position below \<open>k\<close> with a property, and how it moves when the start is advanced.\<close>

definition first_at :: "(u32 \<Rightarrow> bool) \<Rightarrow> nat \<Rightarrow> nat option" where
  "first_at P k = find (\<lambda>i. P (of_nat i)) [0..<k]"

lemma first_at_0 [simp]: "first_at P 0 = None"
  by (simp add: first_at_def)

lemma find_map: "find P (map f xs) = map_option f (find (\<lambda>x. P (f x)) xs)"
  by (induction xs) simp_all

lemma first_at_Suc: "first_at P (Suc k) = (if P 0 then Some 0 else map_option Suc (first_at (\<lambda>i. P (i + 1)) k))"
proof -
  have "[0..<Suc k] = 0 # map Suc [0..<k]" by (simp add: map_Suc_upt upt_conv_Cons del: upt_Suc)
  then show ?thesis by (simp add: first_at_def find_map add.commute)
qed

lemma first_at_Some: "first_at P k = Some i \<longleftrightarrow> i < k \<and> P (of_nat i) \<and> (\<forall>j < i. \<not> P (of_nat j))"
  by (auto simp: first_at_def find_Some_iff)

lemma first_at_None: "first_at P k = None \<longleftrightarrow> (\<forall>i < k. \<not> P (of_nat i))"
  by (auto simp: first_at_def find_None_iff)

lemma first_at_cong: "(\<And>i. i < k \<Longrightarrow> P (of_nat i) = Q (of_nat i)) \<Longrightarrow> first_at P k = first_at Q k"
  unfolding first_at_def by (rule find_cong) auto

lemma first_at_word: "n \<noteq> 0 \<Longrightarrow> first_at P (unat n)
    = (if P 0 then Some 0 else map_option Suc (first_at (\<lambda>i. P (i + 1)) (unat (n - 1))))" for n :: u32
  using first_at_Suc [of P "unat (n - 1)"] unat_le_add [OF one_le, of n] by simp

definition bcmp_ref :: "u32 \<Rightarrow> u32 \<Rightarrow> nat \<Rightarrow> mem \<Rightarrow> int" where
  "bcmp_ref s1 s2 k m =
     (case first_at (\<lambda>i. m (s1 + i) \<noteq> m (s2 + i)) k of
        None \<Rightarrow> 0 | Some i \<Rightarrow> uint (m (s1 + of_nat i)) - uint (m (s2 + of_nat i)))"

lemma bcmp_bytes_ref: "bcmp_bytes s1 s2 n m = bcmp_ref s1 s2 (unat n) m"
proof (induction s1 s2 n m rule: bcmp_bytes.induct)
  case (1 s1 s2 n m)
  show ?case
  proof (cases "n = 0")
    case False
    then show ?thesis using 1 [OF False]
      by (subst bcmp_bytes.simps) (auto simp: bcmp_ref_def first_at_word add_ac split: option.splits)
  qed (simp add: bcmp_bytes.simps bcmp_ref_def)
qed

lemma bcmp_bytes_skip:
  assumes "m s1 = m s2" and "1 \<le> n"
  shows "bcmp_bytes s1 s2 n m = bcmp_bytes (s1 + 1) (s2 + 1) (n - 1) m"
proof -
  have "n \<noteq> 0" using assms(2) by auto
  with assms(1) show ?thesis by (subst bcmp_bytes.simps) simp
qed

lemma bcmp_bytes_skip4:
  assumes "ld32 m s1 = ld32 m s2" and "4 \<le> n"
  shows "bcmp_bytes s1 s2 n m = bcmp_bytes (s1 + 4) (s2 + 4) (n - 4) m"
proof -
  have le: "1 \<le> n" "1 \<le> n - 1" "1 \<le> n - 2" "1 \<le> n - 3" using assms(2) by (simp_all add: word_le_nat_alt unat_sub_if)
  have "m s1 = m s2" "m (s1 + 1) = m (s2 + 1)" "m (s1 + 2) = m (s2 + 2)" "m (s1 + 3) = m (s2 + 3)"
    using ld32_bytes [of m s1] ld32_bytes [of m s2] assms(1) by simp_all
  then show ?thesis using bcmp_bytes_skip [of m s1 s2 n] bcmp_bytes_skip [of m "s1 + 1" "s2 + 1" "n - 1"]
    bcmp_bytes_skip [of m "s1 + 2" "s2 + 2" "n - 2"] bcmp_bytes_skip [of m "s1 + 3" "s2 + 3" "n - 3"] le
    by (simp add: add.commute)
qed

lemma bcmp_words_skip: "(case bcmp_words s1 s2 n m of (t1, t2, k) \<Rightarrow> bcmp_bytes t1 t2 k m) = bcmp_bytes s1 s2 n m"
proof (induction s1 s2 n m rule: bcmp_words.induct)
  case (1 s1 s2 n m)
  show ?case
  proof (cases "4 \<le> n \<and> ld32 m s1 = ld32 m s2")
    case True
    then show ?thesis using 1 bcmp_bytes_skip4 [of m s1 s2 n] by (subst bcmp_words.simps) simp
  qed (subst bcmp_words.simps; auto)
qed

lemma bcmp_refines: "bcmp s1 s2 n m = bcmp_ref s1 s2 (unat n) m"
  using bcmp_words_skip [of m s1 s2 n] by (simp add: bcmp_def bcmp_bytes_ref [symmetric])

subsection \<open>Strings\<close>

lemma copystr_go_spec:
  assumes "forward s d (unat n)" and "n \<noteq> 0"
  shows "copystr_go s d n m =
    (case first_at (\<lambda>i. m (s + i) = 0) (unat n) of
       None \<Rightarrow> (ENOENT, d + n, cpy m s d (unat n))
     | Some k \<Rightarrow> (0, d + of_nat (Suc k), cpy m s d (Suc k)))"
  using assms
proof (induction s d n m rule: copystr_go.induct)
  case (1 s d n m)
  let ?m = "m(d := m s)"
  note n1 = one_le [OF 1(3)]
  have un: "unat n = Suc (unat (n - 1))" using unat_le_add [OF n1] by simp
  consider "m s = 0" | "m s \<noteq> 0" "n = 1" | "m s \<noteq> 0" "n \<noteq> 1" by blast
  then show ?case
  proof cases
    case 1
    with cpy_byte [of m d s] show ?thesis by (subst copystr_go.simps) (simp add: un first_at_Suc)
  next
    case 2
    with cpy_byte [of m d s] show ?thesis by (subst copystr_go.simps) (simp add: first_at_Suc)
  next
    case 3
    then have n0: "n - 1 \<noteq> 0" by simp
    have same: "?m (s + 1 + of_nat i) = m (s + 1 + of_nat i)" if "i < unat (n - 1)" for i
    proof (cases "d = s")
      case False
      with 1(2) have "unat n \<le> unat (d - s)" by (simp add: forward_def)
      moreover have "unat (of_nat (Suc i) :: u32) = Suc i" using that un unat32_less [of n] by (intro unat_of_nat32) simp
      ultimately have "d - s \<noteq> of_nat (Suc i)" using that un by auto
      then have "s + 1 + of_nat i \<noteq> d" by (auto simp: algebra_simps)
      then show ?thesis by simp
    qed simp
    have fw: "forward (s + 1) (d + 1) (unat (n - 1))" using 1(2) n1 by (simp add: forward_rest)
    have st: "copystr_go s d n m = copystr_go (s + 1) (d + 1) (n - 1) ?m"
      using 3 by (subst copystr_go.simps) (simp add: Let_def)
    have ih: "copystr_go (s + 1) (d + 1) (n - 1) ?m =
      (case first_at (\<lambda>i. ?m (s + 1 + i) = 0) (unat (n - 1)) of
         None \<Rightarrow> (ENOENT, d + 1 + (n - 1), cpy ?m (s + 1) (d + 1) (unat (n - 1)))
       | Some k \<Rightarrow> (0, d + 1 + of_nat (Suc k), cpy ?m (s + 1) (d + 1) (Suc k)))"
      using 3 n0 by (intro 1(1) [OF refl _ _ fw n0]) simp_all
    have fa: "first_at (\<lambda>i. ?m (s + 1 + i) = 0) (unat (n - 1)) = first_at (\<lambda>i. m (s + (i + 1)) = 0) (unat (n - 1))"
      by (rule first_at_cong) (simp only: same, simp add: add_ac)
    show ?thesis
    proof (cases "first_at (\<lambda>i. m (s + (i + 1)) = 0) (unat (n - 1))")
      case None
      have "cpy ?m (s + 1) (d + 1) (unat (n - 1)) = cpy m s d (unat n)"
        using cpy_step_word [OF 1(2) n1, of m] by (simp add: cpy_byte)
      with None show ?thesis unfolding st ih fa first_at_word [OF 1(3)] using 3 by simp
    next
      case (Some k)
      then have "k < unat (n - 1)" by (simp add: first_at_Some)
      then have "forward s d (unat (1 :: u32) + Suc k)" using 1(2) un by (auto intro: forward_le)
      then have "cpy ?m (s + 1) (d + 1) (Suc k) = cpy m s d (Suc (Suc k))"
        using cpy_step [of s d 1 "Suc k" m] \<open>k < _\<close> unat32_less [of n] un by (simp add: cpy_byte)
      with Some show ?thesis unfolding st ih fa first_at_word [OF 1(3)] using 3 by simp
    qed
  qed
qed

lemma copystr_spec:
  assumes "forward s d (unat n)"
  shows "copystr s d n m =
    (case first_at (\<lambda>i. m (s + i) = 0) (unat n) of
       None \<Rightarrow> (ENOENT, n, cpy m s d (unat n))
     | Some k \<Rightarrow> (0, of_nat (Suc k), cpy m s d (Suc k)))"
  using copystr_go_spec [OF assms] by (cases "n = 0") (auto simp: copystr_def split: option.splits)

lemma strlen_go_spec: "m (s + of_nat k) = 0 \<Longrightarrow> \<forall>i < k. m (s + of_nat i) \<noteq> 0 \<Longrightarrow> strlen_go m s0 s = Some (s + of_nat k - s0)"
proof (induction k arbitrary: s)
  case 0
  then show ?case by (subst strlen_go.simps) simp
next
  case (Suc k)
  from Suc.prems(2) have "m (s + of_nat 0) \<noteq> 0" by blast
  then have "m s \<noteq> 0" by simp
  moreover have "\<forall>i < k. m (s + 1 + of_nat i) \<noteq> 0"
  proof (intro allI impI)
    fix i assume "i < k"
    with Suc.prems(2) [rule_format, of "Suc i"] show "m (s + 1 + of_nat i) \<noteq> 0" by (simp add: add_ac)
  qed
  ultimately show ?case using Suc.IH [of "s + 1"] Suc.prems(1) by (subst strlen_go.simps) (simp add: add_ac)
qed

lemma strncmp_go_spec:
  "n \<noteq> 0 \<Longrightarrow> strncmp_go s1 s2 n m =
    (case first_at (\<lambda>i. m (s1 + i) \<noteq> m (s2 + i) \<or> m (s2 + i) = 0) (unat n) of
       None \<Rightarrow> 0 | Some i \<Rightarrow> sint (m (s1 + of_nat i)) - sint (m (s2 + of_nat i)))"
proof (induction s1 s2 n m rule: strncmp_go.induct)
  case (1 s1 s2 n m)
  have sint_inj: "sint x = sint y \<longleftrightarrow> x = y" for x y :: u8 using word_eq_iff_signed [of x y] by blast
  have sint_0: "sint x = 0 \<longleftrightarrow> x = 0" for x :: u8 using sint_inj [of x 0] by simp
  note sint_eq = sint_inj sint_0
  show ?case
  proof (cases "m s1 = m s2 \<and> m s2 \<noteq> 0 \<and> n - 1 \<noteq> 0")
    case True
    then have "strncmp_go s1 s2 n m = strncmp_go (s1 + 1) (s2 + 1) (n - 1) m"
      by (subst strncmp_go.simps) (simp add: sint_eq)
    also have "\<dots> = (case first_at (\<lambda>i. m (s1 + 1 + i) \<noteq> m (s2 + 1 + i) \<or> m (s2 + 1 + i) = 0) (unat (n - 1)) of
       None \<Rightarrow> 0 | Some i \<Rightarrow> sint (m (s1 + 1 + of_nat i)) - sint (m (s2 + 1 + of_nat i)))"
      using True by (intro 1(1) [OF refl refl]) (simp_all add: sint_eq)
    finally show ?thesis using True by (simp add: first_at_word [OF 1(2)] sint_eq add_ac split: option.splits)
  next
    case False
    then have "strncmp_go s1 s2 n m = sint (m s1) - sint (m s2)" by (subst strncmp_go.simps) (auto simp: sint_eq)
    with False show ?thesis by (cases "n = 1") (auto simp: first_at_word [OF 1(2)] first_at_Suc sint_eq)
  qed
qed

subsection \<open>Least set bit\<close>

lemma lowest_bit: "i \<noteq> 0 \<Longrightarrow> \<exists>k < 32. bit i k \<and> (\<forall>j < k. \<not> bit i j)" for i :: u32
proof -
  assume "i \<noteq> 0"
  then have "\<exists>n. bit i n" by (auto simp: bit_eq_iff)
  then obtain k where k: "bit i k" "\<forall>j < k. \<not> bit i j" using exists_least_iff [of "bit i"] by blast
  moreover have "k < 32" using bit_imp_le_length [OF k(1)] by simp
  ultimately show ?thesis by blast
qed

lemma and_uminus:
  fixes i :: u32
  assumes "bit i k" and "\<forall>j < k. \<not> bit i j"
  shows "i AND - i = push_bit k 1"
proof -
  define q where "q = drop_bit k i"
  have i: "i = push_bit k q"
  proof (rule bit_word_eqI)
    fix n assume "n < LENGTH(32)"
    then show "bit i n = bit (push_bit k q) n" using assms(2) by (cases "n < k") (auto simp: q_def bit_simps)
  qed
  have odd: "odd q" using assms(1) by (simp add: q_def bit_drop_bit_eq flip: bit_0)
  have "- q = NOT q + 1" by (simp add: not_eq_complement)
  also have "\<dots> = NOT q OR 1" using odd by (simp add: or_one_eq)
  finally have "q AND - q = q AND (NOT q OR 1)" by simp
  also have "\<dots> = q AND 1" by (rule bit_word_eqI) (auto simp: bit_simps)
  also have "\<dots> = 1" using odd by (simp add: and_one_eq odd_iff_mod_2_eq_one)
  finally have q1: "q AND - q = 1" .
  have "- i = push_bit k (- q)" by (simp add: i push_bit_eq_mult)
  then have "i AND - i = push_bit k (q AND - q)" by (simp add: i push_bit_and)
  then show ?thesis by (simp add: q1)
qed

lemma mips_clz_power:
  assumes "k < 32"
  shows "mips_clz (push_bit k 1) = 31 - k"
proof -
  have "[0..<32] = [0..<k] @ k # [Suc k..<32]"
    using assms by (metis less_imp_le_nat upt_add_eq_append upt_conv_Cons zero_le le_add_diff_inverse plus_nat.add_0)
  then have "takeWhile (\<lambda>n. \<not> bit (push_bit k 1 :: u32) n) (rev [0..<32]) = rev [Suc k..<32]"
    using assms by (simp add: takeWhile_append takeWhile_eq_all_conv bit_simps)
  then show ?thesis by (simp add: mips_clz_def)
qed

lemma ffs_spec: "i \<noteq> 0 \<Longrightarrow> \<exists>k < 32. ffs i = Suc k \<and> bit i k \<and> (\<forall>j < k. \<not> bit i j)"
proof -
  assume i: "i \<noteq> 0"
  from lowest_bit [OF i] obtain k where k: "k < 32" "bit i k" "\<forall>j < k. \<not> bit i j" by blast
  have "ffs i = 32 - (31 - k)"
    unfolding ffs_def and_uminus [OF k(2,3)] mips_clz_power [OF k(1)] using i by (rule if_P)
  with k(1) have "ffs i = Suc k" by simp
  with k show ?thesis by blast
qed

lemma ffs_0 [simp]: "ffs 0 = 0"
  by (simp add: ffs_def)

subsection \<open>Doubly linked queues\<close>

text \<open>
  \<open>links q a bs z\<close>: from \<open>a\<close> the elements \<open>bs\<close> follow and then \<open>z\<close>, linked both ways. A queue is
  a ring.
\<close>

fun links :: "que \<Rightarrow> nat \<Rightarrow> nat list \<Rightarrow> nat \<Rightarrow> bool" where
  "links q a [] z \<longleftrightarrow> q_next q a = z \<and> q_prev q z = a"
| "links q a (b # bs) z \<longleftrightarrow> q_next q a = b \<and> q_prev q b = a \<and> links q b bs z"

definition ring :: "que \<Rightarrow> nat list \<Rightarrow> bool" where
  "ring q xs \<longleftrightarrow> distinct xs \<and> (case xs of [] \<Rightarrow> False | x # ys \<Rightarrow> links q x ys x)"

lemma links_append: "links q a (bs @ c # cs) z \<longleftrightarrow> links q a bs c \<and> links q c cs z"
  by (induction bs arbitrary: a) auto

lemma ring_rotate: "ring q (x # xs) \<Longrightarrow> ring q (xs @ [x])"
  by (cases xs) (auto simp: ring_def links_append)

lemma links_frame:
  "(\<And>x. x \<in> insert a (set bs) \<Longrightarrow> q_next q' x = q_next q x) \<Longrightarrow> (\<And>x. x \<in> insert z (set bs) \<Longrightarrow> q_prev q' x = q_prev q x)
   \<Longrightarrow> links q' a bs z = links q a bs z"
  by (induction bs arbitrary: a) auto

lemma insque_ring:
  assumes "ring q (p # xs)" and "e \<notin> set (p # xs)"
  shows "ring (insque e p q) (p # e # xs)"
proof (cases xs)
  case Nil
  with assms show ?thesis by (auto simp: ring_def insque_def Let_def)
next
  case (Cons b bs)
  with assms have l: "q_next q p = b" "links q b bs p" and d: "distinct (p # e # b # bs)" by (auto simp: ring_def)
  have "links (insque e p q) b bs p = links q b bs p"
    using d l(1) by (intro links_frame) (auto simp: insque_def Let_def)
  with l d Cons show ?thesis by (auto simp: ring_def insque_def Let_def)
qed

lemma remque_ring:
  assumes "ring q (p # e # xs)"
  shows "ring (remque e q) (p # xs)"
proof (cases xs)
  case Nil
  with assms show ?thesis by (auto simp: ring_def remque_def Let_def)
next
  case (Cons b bs)
  with assms have l: "q_next q p = e" "q_prev q e = p" "q_next q e = b" "q_prev q b = e" "links q b bs p"
    and d: "distinct (p # e # b # bs)" by (auto simp: ring_def)
  have "links (remque e q) b bs p = links q b bs p"
    using d l by (intro links_frame) (auto simp: remque_def Let_def)
  with l d Cons show ?thesis by (auto simp: ring_def remque_def Let_def)
qed

subsection \<open>Kernel objects in user memory\<close>

text \<open>
  The kernel copies structures to and from user memory. A structure is given by its bytes,
  words with the least significant byte first; \<open>copyout_obj\<close> and \<open>copyin_obj\<close> are \<open>copyout\<close>
  and \<open>copyin\<close> for an object outside user memory.
\<close>

primrec mstore :: "u8 list \<Rightarrow> u32 \<Rightarrow> mem \<Rightarrow> mem" where
  "mstore [] a m = m"
| "mstore (b # bs) a m = mstore bs (a + 1) (m(a := b))"

definition mload :: "mem \<Rightarrow> u32 \<Rightarrow> nat \<Rightarrow> u8 list" where
  "mload m a n = map (\<lambda>i. m (a + of_nat i)) [0..<n]"

definition le32 :: "u32 \<Rightarrow> u8 list" where
  "le32 w = [ucast w, ucast (drop_bit 8 w), ucast (drop_bit 16 w), ucast (drop_bit 24 w)]"

definition copyout_obj :: "u8 list \<Rightarrow> u32 \<Rightarrow> mem \<Rightarrow> int \<times> mem" where
  "copyout_obj bs to m =
     (if baduaddr to \<or> baduaddr (to + of_nat (length bs) - 1) then (EFAULT, m) else (0, mstore bs to m))"

definition copyin_obj :: "u32 \<Rightarrow> nat \<Rightarrow> mem \<Rightarrow> int \<times> u8 list" where
  "copyin_obj from n m =
     (if baduaddr from \<or> baduaddr (from + of_nat n - 1) then (EFAULT, []) else (0, mload m from n))"

lemma mload_length [simp]: "length (mload m a n) = n"
  by (simp add: mload_def)

lemma mload_Suc: "mload m a (Suc n) = m a # mload m (a + 1) n"
proof -
  have "[0..<Suc n] = 0 # map Suc [0..<n]" by (simp add: map_Suc_upt upt_conv_Cons del: upt_Suc)
  then show ?thesis by (simp add: mload_def add_ac del: upt_Suc)
qed

lemma mload_upd:
  assumes "\<And>i. i < n \<Longrightarrow> a + of_nat i \<noteq> d"
  shows "mload (m(d := b)) a n = mload m a n"
  unfolding mload_def by (rule map_cong) (auto simp: assms)

lemma mstore_cpy:
  "forward s d n \<Longrightarrow> n \<le> 4294967296 \<Longrightarrow> mstore (mload m s n) d m = cpy m s d n"
proof (induction n arbitrary: s d m)
  case (Suc n)
  have fw: "forward (s + 1) (d + 1) n" using Suc.prems(1) by (simp add: forward_le)
  have "mload (m(d := m s)) (s + 1) n = mload m (s + 1) n"
  proof (cases "d = s")
    case False
    have "s + 1 + of_nat i \<noteq> d" if "i < n" for i
    proof -
      have "Suc n \<le> unat (d - s)" using Suc.prems(1) False by (simp add: forward_def)
      moreover have "unat (of_nat (Suc i) :: u32) = Suc i" using that Suc.prems(2) by (intro unat_of_nat32) simp
      ultimately have "d - s \<noteq> of_nat (Suc i)" using that by auto
      then show ?thesis by (auto simp: algebra_simps)
    qed
    then show ?thesis by (intro mload_upd) simp
  qed simp
  then have "mstore (mload m s (Suc n)) d m = mstore (mload (m(d := m s)) (s + 1) n) (d + 1) (m(d := m s))"
    by (simp add: mload_Suc)
  also have "\<dots> = cpy (cpy m s d (unat (1 :: u32))) (s + 1) (d + 1) n"
    using Suc.IH [OF fw] Suc.prems(2) by (simp add: cpy_byte)
  also have "\<dots> = cpy m s d (Suc n)" using cpy_step [of s d 1 n m] Suc.prems by simp
  finally show ?case .
qed (simp add: mload_def)

lemma mload_cpy:
  assumes "n \<le> 4294967296"
  shows "mload (cpy m s d n) d n = mload m s n"
  unfolding mload_def
proof (rule map_cong)
  fix i assume "i \<in> set [0..<n]"
  then have "unat (of_nat i :: u32) = i" "i < n" using assms by (auto intro: unat_of_nat32)
  then show "cpy m s d n (d + of_nat i) = m (s + of_nat i)" by (simp add: cpy_def)
qed simp

text \<open>The object versions are the memory versions for an object stored in kernel memory.\<close>

lemma copyout_obj_refines:
  assumes "forward from to (unat n)"
  shows "copyout from to n m = copyout_obj (mload m from (unat n)) to m"
  using mstore_cpy [OF assms, of m] bcopy_cpy [OF assms, of m] unat32_less [of n]
  by (simp add: copyout_def copyout_obj_def)

lemma copyin_obj_refines:
  assumes "forward from to (unat n)"
  shows "fst (copyin from to n m) = fst (copyin_obj from (unat n) m)"
    and "fst (copyin from to n m) = 0 \<Longrightarrow> mload (snd (copyin from to n m)) to (unat n) = snd (copyin_obj from (unat n) m)"
  using bcopy_cpy [OF assms, of m] mload_cpy [of "unat n"] unat32_less [of n]
  by (auto simp: copyin_def copyin_obj_def split: if_splits)

lemma le32_length [simp]: "length (le32 w) = 4"
  by (simp add: le32_def)

lemma ld32_st32: "ld32 (st32 a w m) a = w"
proof -
  have "a \<noteq> a + 1" "a \<noteq> a + 2" "a \<noteq> a + 3" "a + 1 \<noteq> a + 2" "a + 1 \<noteq> a + 3" "a + 2 \<noteq> a + 3" by simp_all
  note neq = this
  show ?thesis
  proof (rule bit_word_eqI)
    fix n assume "n < LENGTH(32)"
    then consider "n < 8" | "8 \<le> n" "n < 16" | "16 \<le> n" "n < 24" | "24 \<le> n" "n < 32" by fastforce
    then show "bit (ld32 (st32 a w m) a) n = bit w n"
      unfolding ld32_def st32_def using neq by cases (auto simp: bit_simps)
  qed
qed

text \<open>The words of a byte string.\<close>

fun words_le :: "u8 list \<Rightarrow> u32 list" where
  "words_le (a # b # c # d # bs) = (ucast a OR push_bit 8 (ucast b) OR push_bit 16 (ucast c) OR push_bit 24 (ucast d)) # words_le bs"
| "words_le bs = []"

lemma words_le_concat: "words_le (concat (map le32 gs)) = gs"
proof (induction gs)
  case (Cons g gs)
  have "ucast (ucast g :: u8) OR push_bit 8 (ucast (ucast (drop_bit 8 g) :: u8))
      OR push_bit 16 (ucast (ucast (drop_bit 16 g) :: u8)) OR push_bit 24 (ucast (ucast (drop_bit 24 g) :: u8)) = g"
    using ld32_st32 [of 0 g "\<lambda>_. 0"] by (simp add: ld32_def st32_def)
  with Cons show ?case by (simp add: le32_def)
qed simp

lemma length_concat_le32: "length (concat (map le32 gs)) = 4 * length gs"
  by (induction gs) simp_all

lemma mstore_other: "(\<And>i. i < length bs \<Longrightarrow> b \<noteq> a + of_nat i) \<Longrightarrow> mstore bs a m b = m b"
proof (induction bs arbitrary: a m)
  case (Cons x bs)
  have "b \<noteq> a" using Cons.prems [of 0] by simp
  moreover have "b \<noteq> a + 1 + of_nat i" if "i < length bs" for i using Cons.prems [of "Suc i"] that by (simp add: add_ac)
  ultimately show ?case using Cons.IH [of "a + 1"] by simp
qed simp

lemma mload_mstore: "length bs < 4294967296 \<Longrightarrow> mload (mstore bs a m) a (length bs) = bs"
proof (induction bs arbitrary: a m)
  case Nil
  then show ?case by (simp add: mload_def)
next
  case (Cons x bs)
  have "mstore bs (a + 1) (m(a := x)) a = x"
  proof (subst mstore_other)
    fix i assume "i < length bs"
    then have "unat (of_nat (Suc i) :: u32) = Suc i" using Cons.prems by (intro unat_of_nat32) simp
    then have "(of_nat (Suc i) :: u32) \<noteq> 0" by auto
    then show "a \<noteq> a + 1 + of_nat i" by (simp add: add_ac)
  qed simp
  with Cons show ?case by (simp add: mload_Suc)
qed

text \<open>Structures made of words, copied to and from the user memory of the state.\<close>

definition copyoutw :: "u32 list \<Rightarrow> u32 \<Rightarrow> 'a kst_scheme \<Rightarrow> int \<times> 'a kst_scheme" where
  "copyoutw ws to st = (let (e, m) = copyout_obj (concat (map le32 ws)) to (umem st) in (e, st\<lparr>umem := m\<rparr>))"

definition copyinw :: "u32 \<Rightarrow> nat \<Rightarrow> 'a kst_scheme \<Rightarrow> int \<times> u32 list" where
  "copyinw from n st = (let (e, bs) = copyin_obj from (4 * n) (umem st) in (e, words_le bs))"

lemma copyoutw_error: "fst (copyoutw ws to st) = 0 \<or> fst (copyoutw ws to st) = EFAULT"
  by (simp add: copyoutw_def copyout_obj_def)

lemma copyoutw_frame: "snd (copyoutw ws to st) = st\<lparr>umem := umem (snd (copyoutw ws to st))\<rparr>"
  by (simp add: copyoutw_def case_prod_unfold Let_def)

lemma copyoutw_copyinw:
  assumes "copyoutw ws to st = (0, st')" and "4 * length ws < 4294967296"
  shows "copyinw to (length ws) st' = (0, ws)"
proof -
  let ?bs = "concat (map le32 ws)"
  have ok: "\<not> baduaddr to" "\<not> baduaddr (to + of_nat (4 * length ws) - 1)" and m: "umem st' = mstore ?bs to (umem st)"
    using assms(1) by (auto simp: copyoutw_def copyout_obj_def length_concat_le32 Let_def split: if_splits)
  have "mload (umem st') to (4 * length ws) = ?bs"
    using mload_mstore [of ?bs to "umem st"] assms(2) by (simp add: m length_concat_le32)
  with ok show ?thesis by (simp add: copyinw_def copyin_obj_def words_le_concat)
qed

subsection \<open>Properties\<close>

text \<open>C25: \<open>bcopy\<close>, with its loops over four words, one word and one byte, copies exactly the given
  number of bytes and changes nothing else, for every alignment and length, unless the
  destination starts inside the source; in particular a copy towards lower addresses may overlap.\<close>

theorem bcopy_copies:
  assumes "dst = src \<or> unat n \<le> unat (dst - src)"
  shows "bcopy src dst n m = (\<lambda>a. if unat (a - dst) < unat n then m (src + (a - dst)) else m a)"
  using bcopy_cpy [of src dst n m] assms by (simp add: forward_def cpy_def)

theorem bcopy_copies_witness: "bcopy 0x80000004 0x80000000 0x10 (\<lambda>a. ucast a)
    = (\<lambda>a. if unat (a - 0x80000000) < 16 then ucast (0x80000004 + (a - 0x80000000)) else ucast a)"
  using bcopy_copies [of "0x80000000" "0x80000004" "0x10" "\<lambda>a. ucast a"] by simp

text \<open>\<open>bzero\<close> with a length of 0 and a destination that is not word aligned clears the
  whole address space: it writes a byte before it tests the length, and the length wraps.
  With any other arguments it clears exactly the given bytes.\<close>

theorem bzero_zero_length:
  "bzero dst n m = (if n = 0 \<and> UNALIGNED dst then (\<lambda>a. 0) else (\<lambda>a. if unat (a - dst) < unat n then 0 else m a))"
proof (cases "n = 0 \<and> UNALIGNED dst")
  case False
  then show ?thesis using bzero_zro [of n dst m] by (auto simp: zro_def)
next
  case True
  then have "bzero_head dst n m = bzero_head (dst + 1) (- 1) (m(dst := 0))" by (subst bzero_head.simps) simp
  then have "bzero dst n m = bzero (dst + 1) (- 1) (m(dst := 0))" by (simp only: bzero_def)
  also have "\<dots> = zro (m(dst := 0)) (dst + 1) (unat (- 1 :: u32))" by (rule bzero_zro) simp
  also have "unat (- 1 :: u32) = 4294967295" using unat_uminus [of 1] by simp
  also have "zro (m(dst := 0)) (dst + 1) 4294967295 = zro m dst 4294967296"
    using zro_step [of 1 4294967295 m dst] by (simp add: zro_byte)
  also have "\<dots> = (\<lambda>a. 0)" using unat32_less by (simp add: zro_def)
  finally show ?thesis using True by simp
qed

text \<open>\<open>bcmp\<close> compares byte by byte although it reads words: it returns 0 exactly if all bytes
  agree, and otherwise the difference of the first two bytes that differ.\<close>

theorem bcmp_compares:
  "(bcmp s1 s2 n m = 0 \<longleftrightarrow> (\<forall>i < unat n. m (s1 + of_nat i) = m (s2 + of_nat i)))
   \<and> (\<forall>i < unat n. m (s1 + of_nat i) \<noteq> m (s2 + of_nat i) \<and> (\<forall>j < i. m (s1 + of_nat j) = m (s2 + of_nat j))
        \<longrightarrow> bcmp s1 s2 n m = uint (m (s1 + of_nat i)) - uint (m (s2 + of_nat i)))"
proof -
  let ?P = "\<lambda>i. m (s1 + i) \<noteq> m (s2 + i)"
  have b: "bcmp s1 s2 n m = (case first_at ?P (unat n) of
      None \<Rightarrow> 0 | Some i \<Rightarrow> uint (m (s1 + of_nat i)) - uint (m (s2 + of_nat i)))"
    by (simp add: bcmp_refines bcmp_ref_def)
  show ?thesis
  proof (cases "first_at ?P (unat n)")
    case None
    then have "\<forall>i < unat n. \<not> ?P (of_nat i)" by (simp add: first_at_None)
    then show ?thesis unfolding b None by auto
  next
    case (Some k)
    then have k: "k < unat n" "?P (of_nat k)" "\<forall>j < k. \<not> ?P (of_nat j)" by (simp_all add: first_at_Some)
    then have v: "uint (m (s1 + of_nat k)) - uint (m (s2 + of_nat k)) \<noteq> 0" by (simp add: word_uint_eq_iff)
    have u: "i = k" if "?P (of_nat i)" "\<forall>j < i. \<not> ?P (of_nat j)" for i
      using that k by (meson nat_neq_iff)
    show ?thesis unfolding b Some option.case
    proof (intro conjI allI impI)
      show "(uint (m (s1 + of_nat k)) - uint (m (s2 + of_nat k)) = 0) = (\<forall>i < unat n. m (s1 + of_nat i) = m (s2 + of_nat i))"
        using v k(1,2) by blast
    next
      fix i assume "m (s1 + of_nat i) \<noteq> m (s2 + of_nat i) \<and> (\<forall>j < i. m (s1 + of_nat j) = m (s2 + of_nat j))"
      then have "i = k" using u [of i] by simp
      then show "uint (m (s1 + of_nat k)) - uint (m (s2 + of_nat k)) = uint (m (s1 + of_nat i)) - uint (m (s2 + of_nat i))" by simp
    qed
  qed
qed

theorem bcmp_compares_witness: "bcmp 0 16 16 (\<lambda>a. if a = 16 then 7 else 0) = - 7"
  using bcmp_compares [of 0 16 16 "\<lambda>a. if a = 16 then 7 else 0", THEN conjunct2, rule_format, of 0] by simp

text \<open>C26: \<open>copystr\<close> copies a string with its terminating NUL if it fits, and reports its length;
  if there is no NUL within the limit it copies the limit's bytes and returns \<open>ENOENT\<close>. It
  never writes past the limit.\<close>

theorem copystr_copies:
  assumes "dst = src \<or> unat n \<le> unat (dst - src)"
  shows "(\<forall>k < unat n. m (src + of_nat k) = 0 \<and> (\<forall>j < k. m (src + of_nat j) \<noteq> 0) \<longrightarrow>
      copystr src dst n m = (0, of_nat (Suc k), cpy m src dst (Suc k)))
    \<and> ((\<forall>k < unat n. m (src + of_nat k) \<noteq> 0) \<longrightarrow> copystr src dst n m = (ENOENT, n, cpy m src dst (unat n)))"
proof -
  have fw: "forward src dst (unat n)" using assms by (simp add: forward_def)
  show ?thesis
  proof (intro conjI allI impI)
    fix k assume "k < unat n" "m (src + of_nat k) = 0 \<and> (\<forall>j < k. m (src + of_nat j) \<noteq> 0)"
    then have "first_at (\<lambda>i. m (src + i) = 0) (unat n) = Some k" by (simp add: first_at_Some)
    then show "copystr src dst n m = (0, of_nat (Suc k), cpy m src dst (Suc k))" by (simp add: copystr_spec [OF fw])
  next
    assume "\<forall>k < unat n. m (src + of_nat k) \<noteq> 0"
    then have "first_at (\<lambda>i. m (src + i) = 0) (unat n) = None" by (simp add: first_at_None)
    then show "copystr src dst n m = (ENOENT, n, cpy m src dst (unat n))" by (simp add: copystr_spec [OF fw])
  qed
qed

theorem copystr_copies_witness:
  "copystr 0 16 8 (\<lambda>a. if a = 1 then 0 else 65) = (0, 2, cpy (\<lambda>a. if a = 1 then 0 else 65) 0 16 (Suc 1))"
  using copystr_copies [of 16 0 8 "\<lambda>a. if a = 1 then 0 else 65", THEN conjunct1, rule_format, of 1] by simp

text \<open>C27: A successful \<open>copyout\<close> of at most \<open>0x1e010000\<close> bytes (the distance between the two user
  regions), not starting inside its source, changes user memory only; a failed one returns \<open>EFAULT\<close> and
  changes nothing.\<close>

theorem copyout_guard:
  assumes "0 < n" and "n \<le> 0x1e010000" and "dst = src \<or> unat n \<le> unat (dst - src)"
  shows "case copyout src dst n m of (error, m') \<Rightarrow>
     (error = 0 \<longrightarrow> (\<forall>a. m' a \<noteq> m a \<longrightarrow> \<not> baduaddr a)) \<and> (error \<noteq> 0 \<longrightarrow> error = EFAULT \<and> m' = m)"
proof (cases "baduaddr dst \<or> baduaddr (dst + n - 1)")
  case False
  have "\<not> baduaddr a" if "unat (a - dst) < unat n" for a
  proof -
    define x where "x = a - dst"
    define y where "y = n - 1"
    have y: "unat y = unat n - 1" using assms(1) by (simp add: y_def unat_sub_le word_le_nat_alt word_less_nat_alt)
    have e: "a = dst + x" "dst + n - 1 = dst + y" by (simp_all add: x_def y_def)
    have xy: "unat x \<le> unat y" "unat y < 0x1e010000" using that assms(1,2) y
      by (simp_all add: x_def word_le_nat_alt word_less_nat_alt)
    have d: "\<not> baduaddr dst" "\<not> baduaddr (dst + y)" using False e by simp_all
    then have "unat dst < 0x9d080000" by (auto simp: baduaddr_def word_le_nat_alt word_less_nat_alt split: if_splits)
    then have "unat (dst + x) = unat dst + unat x" "unat (dst + y) = unat dst + unat y"
      using xy by (simp_all add: unat_add_no_wrap)
    with d xy show ?thesis unfolding e(1) baduaddr_def by (auto simp: word_le_nat_alt word_less_nat_alt split: if_splits)
  qed
  then show ?thesis using False bcopy_cpy [of src dst n m] assms(3) by (auto simp: copyout_def forward_def cpy_def)
qed (simp add: copyout_def)

theorem copyout_guard_witness: "case copyout 0x80001000 0x7f008000 16 (\<lambda>a. ucast a) of (error, m') \<Rightarrow>
     error = 0 \<and> (\<forall>a. m' a \<noteq> ucast a \<longrightarrow> \<not> baduaddr a)"
proof -
  have "fst (copyout 0x80001000 0x7f008000 16 (\<lambda>a. ucast a)) = 0" by (simp add: copyout_def baduaddr_def)
  then show ?thesis using copyout_guard [of 16 "0x7f008000" "0x80001000" "\<lambda>a. ucast a"] by (auto split: prod.splits)
qed


text \<open>On a ring of queue elements \<open>insque\<close> puts the element after its predecessor and \<open>remque\<close>
  takes it out again: the ring is the one before the insertion.\<close>

theorem insque_remque:
  assumes "ring q (p # xs)" and "e \<notin> set (p # xs)"
  shows "ring (insque e p q) (p # e # xs) \<and> ring (remque e (insque e p q)) (p # xs)"
  using insque_ring [OF assms] remque_ring by blast

theorem insque_remque_witness:
  "ring (remque 3 (insque 3 0 \<lparr>q_next = (\<lambda>_. 0), q_prev = (\<lambda>_. 0)\<rparr>)) [0]"
  using insque_remque [of "\<lparr>q_next = (\<lambda>_. 0), q_prev = (\<lambda>_. 0)\<rparr>" 0 "[]" 3] by (simp add: ring_def)

end
