(* ===== verification/Fsdata.thy ===== *)
theory Fsdata
  imports Prelude
begin

text \<open>
  The file system structures in core: the superblock (\<open>sys/include/fs.h\<close>), the inode
  (\<open>sys/include/inode.h\<close>) and the mount entry (\<open>sys/include/mount.h\<close>). The alternatives of a
  union are separate fields. An inode refers to its file system by its index in the
  mount table, and links to other inodes by their index in the inode table.
\<close>

record fs =
  fs_magic1 :: u32
  fs_isize :: u32
  fs_fsize :: u32
  fs_swapsz :: u32
  fs_nfree :: int
  fs_free :: "int list"
  fs_ninode :: int
  fs_inode :: "u32 list"
  fs_flock :: int
  fs_fmod :: int
  fs_ilock :: int
  fs_ronly :: int
  fs_time :: int
  fs_tfree :: u32
  fs_tinode :: u32
  fs_fsmnt :: string
  fs_lasti :: u32
  fs_nbehind :: u32
  fs_flags :: u32
  fs_magic2 :: u32

record inode =
  i_forw :: nat
  i_back :: nat
  i_flag :: u32
  i_count :: u32
  i_dev :: int
  i_number :: u32
  i_id :: u32
  i_fs :: nat
  i_shlockc :: int
  i_exlockc :: int
  i_rsel :: "nat option"
  i_wsel :: "nat option"
  i_addr :: "int list"
  i_rdev :: int
  i_lastr :: int
  i_mode :: u16
  i_nlink :: u16
  i_uid :: u32
  i_gid :: u32
  i_size :: int
  i_flags :: u32
  i_atime :: int
  i_mtime :: int
  i_ctime :: int

abbreviation (input) IFMT :: u16 where "IFMT \<equiv> 0xf000"
abbreviation (input) IFCHR :: u16 where "IFCHR \<equiv> 0x2000"
abbreviation (input) IFDIR :: u16 where "IFDIR \<equiv> 0x4000"
abbreviation (input) IFBLK :: u16 where "IFBLK \<equiv> 0x6000"
abbreviation (input) IFREG :: u16 where "IFREG \<equiv> 0x8000"
abbreviation (input) IREAD :: u16 where "IREAD \<equiv> 0x100"
abbreviation (input) IWRITE :: u16 where "IWRITE \<equiv> 0x80"
abbreviation (input) IEXEC :: u16 where "IEXEC \<equiv> 0x40"
abbreviation (input) IMMUTABLE :: u32 where "IMMUTABLE \<equiv> 0x0202"

text \<open>The table of mounted file systems (\<open>sys/include/mount.h\<close>), without the names.\<close>

record mount =
  m_dev :: int
  m_filsys :: fs
  m_inodp :: "nat option"

definition fs0 :: fs where
  "fs0 = \<lparr>fs_magic1 = 0, fs_isize = 0, fs_fsize = 0, fs_swapsz = 0, fs_nfree = 0, fs_free = replicate 200 0,
     fs_ninode = 0, fs_inode = replicate 32 0, fs_flock = 0, fs_fmod = 0, fs_ilock = 0, fs_ronly = 0, fs_time = 0,
     fs_tfree = 0, fs_tinode = 0, fs_fsmnt = [], fs_lasti = 0, fs_nbehind = 0, fs_flags = 0, fs_magic2 = 0\<rparr>"

definition inode0 :: inode where
  "inode0 = \<lparr>i_forw = 0, i_back = 0, i_flag = 0, i_count = 0, i_dev = 0, i_number = 0, i_id = 0, i_fs = 0,
     i_shlockc = 0, i_exlockc = 0, i_rsel = None, i_wsel = None, i_addr = replicate 7 0, i_rdev = 0, i_lastr = 0,
     i_mode = 0, i_nlink = 0, i_uid = 0, i_gid = 0, i_size = 0, i_flags = 0, i_atime = 0, i_mtime = 0, i_ctime = 0\<rparr>"

end
