(* ===== verification/Prot.thy ===== *)
theory Prot
  imports Procq Memlib Fsdata
begin

text \<open>
  Protection (\<open>sys/kernel/kern_prot.c\<close>, \<open>sys/kernel/kern_prot2.c\<close>, and \<open>suser\<close> and \<open>access\<close>
  of \<open>sys/kernel/ufs_fio.c\<close>): user and group ids of the current process, process groups, and
  file permissions. System call arguments are the words \<open>u_arg\<close>; a call reports through
  \<open>u_error\<close> and \<open>u_rval\<close>. The lemmas show that a process without privilege cannot gain ids
  it did not have, that the group list survives a round trip, and which permission bits
  \<open>access\<close> consults.
\<close>

subsection \<open>Identification calls\<close>

abbreviation (input) NGROUPS :: nat where "NGROUPS \<equiv> 16"
abbreviation (input) NOGROUP :: u32 where "NOGROUP \<equiv> 65535"

text \<open>Argument \<open>n\<close> of the system call, as an unsigned and as a signed integer.\<close>

definition uarg :: "'a kst_scheme \<Rightarrow> nat \<Rightarrow> u32" where
  "uarg st n = u_arg (uu st) n"

definition sarg :: "'a kst_scheme \<Rightarrow> nat \<Rightarrow> int" where
  "sarg st n = sint (u_arg (uu st) n)"

definition set_error :: "int \<Rightarrow> 'a kst_scheme \<Rightarrow> 'a kst_scheme" where
  "set_error e st = updu (\<lambda>u. u\<lparr>u_error := e\<rparr>) st"

definition set_rval :: "int \<Rightarrow> 'a kst_scheme \<Rightarrow> 'a kst_scheme" where
  "set_rval v st = updu (\<lambda>u. u\<lparr>u_rval := v\<rparr>) st"

definition set_arg :: "nat \<Rightarrow> u32 \<Rightarrow> 'a kst_scheme \<Rightarrow> 'a kst_scheme" where
  "set_arg n v st = updu (\<lambda>u. u\<lparr>u_arg := (u_arg u)(n := v)\<rparr>) st"

definition getpid :: "'a kst_scheme \<Rightarrow> 'a kst_scheme" where
  "getpid st = set_rval (p_of st p_pid (curproc st)) st"

definition getppid :: "'a kst_scheme \<Rightarrow> 'a kst_scheme" where
  "getppid st = set_rval (p_of st p_ppid (curproc st)) st"

definition getpgrp :: "'a kst_scheme \<Rightarrow> 'a kst_scheme res" where
  "getpgrp st =
     (let st = (if sarg st 0 = 0 then set_arg 0 (of_int (p_of st p_pid (curproc st))) st else st)
      in rbind (pfind st (sarg st 0)) (\<lambda>p.
           case p of
             None \<Rightarrow> Inr (set_error ESRCH st)
           | Some i \<Rightarrow> Inr (set_rval (p_of st p_pgrp i) st)))"

definition getuid :: "'a kst_scheme \<Rightarrow> 'a kst_scheme" where
  "getuid st = set_rval (sint (u_ruid (uu st))) st"

definition geteuid :: "'a kst_scheme \<Rightarrow> 'a kst_scheme" where
  "geteuid st = set_rval (sint (u_uid (uu st))) st"

definition getgid :: "'a kst_scheme \<Rightarrow> 'a kst_scheme" where
  "getgid st = set_rval (sint (u_rgid (uu st))) st"

definition getegid :: "'a kst_scheme \<Rightarrow> 'a kst_scheme" where
  "getegid st = set_rval (sint (u_groups (uu st) ! 0)) st"

text \<open>The scan of \<open>getgroups\<close> for the number of groups in use, from the end of the list.\<close>

fun groups_used :: "u32 list \<Rightarrow> nat \<Rightarrow> nat" where
  "groups_used gs 0 = 0"
| "groups_used gs (Suc n) = (if gs ! n \<noteq> NOGROUP then Suc n else groups_used gs n)"

definition getgroups :: "'a kst_scheme \<Rightarrow> 'a kst_scheme" where
  "getgroups st =
     (let gp = groups_used (u_groups (uu st)) NGROUPS
      in if uarg st 0 < of_nat gp then set_error EINVAL st
         else let st = set_arg 0 (of_nat gp) st;
                  (e, m) = copyout_obj (concat (map le32 (take gp (u_groups (uu st))))) (uarg st 1) (umem st);
                  st = set_error e (st\<lparr>umem := m\<rparr>)
              in if e \<noteq> 0 then st else set_rval (int gp) st)"

text \<open>\<open>p_uid\<close> is a \<open>short\<close>; in the comparison with the unsigned \<open>u_uid\<close> it is sign extended.\<close>

definition setpgrp :: "'a kst_scheme \<Rightarrow> 'a kst_scheme res" where
  "setpgrp st =
     (let st = (if sarg st 0 = 0 then set_arg 0 (of_int (p_of st p_pid (curproc st))) st else st)
      in rbind (pfind st (sarg st 0)) (\<lambda>p.
           case p of
             None \<Rightarrow> Inr (set_error ESRCH st)
           | Some i \<Rightarrow>
               rbind (if of_int (p_of st p_uid i) \<noteq> u_uid (uu st) \<and> u_uid (uu st) \<noteq> 0
                      then rbind (inferior st i) (\<lambda>b. Inr (\<not> b)) else Inr False) (\<lambda>refuse.
               if refuse then Inr (set_error EPERM st)
               else Inr (updp i (\<lambda>q. q\<lparr>p_pgrp := sshort (sarg st 1)\<rparr>) st))))"

definition suser :: "'a kst_scheme \<Rightarrow> bool \<times> 'a kst_scheme" where
  "suser st = (if u_uid (uu st) = 0 then (True, st) else (False, set_error EPERM st))"

definition setgroups :: "'a kst_scheme \<Rightarrow> 'a kst_scheme" where
  "setgroups st =
     (let (ok, st) = suser st
      in if \<not> ok then st
         else if uarg st 0 > of_nat NGROUPS then set_error EINVAL st
         else let n = unat (uarg st 0);
                  (e, bs) = copyin_obj (uarg st 1) (4 * n) (umem st);
                  st = set_error e st
              in if e \<noteq> 0 then st
                 else updu (\<lambda>u. u\<lparr>u_groups := words_le bs @ replicate (NGROUPS - n) NOGROUP\<rparr>) st)"

fun groupmember_go :: "u32 list \<Rightarrow> u32 \<Rightarrow> bool" where
  "groupmember_go [] gid = False"
| "groupmember_go (g # gs) gid = (if g = NOGROUP then False else if g = gid then True else groupmember_go gs gid)"

definition groupmember :: "u32 \<Rightarrow> 'a kst_scheme \<Rightarrow> bool" where
  "groupmember gid st = groupmember_go (u_groups (uu st)) gid"

subsection \<open>Changing ids\<close>

definition setuid :: "'a kst_scheme \<Rightarrow> 'a kst_scheme" where
  "setuid st =
     (let uid = uarg st 0;
          (ok, st) = (if uid \<noteq> u_ruid (uu st) then suser st else (True, st))
      in if \<not> ok then st
         else let st = updp (curproc st) (\<lambda>p. p\<lparr>p_uid := sshort (uint uid)\<rparr>) st
              in updu (\<lambda>u. u\<lparr>u_uid := uid, u_ruid := uid, u_svuid := uid, u_error := 0\<rparr>) st)"

definition seteuid :: "'a kst_scheme \<Rightarrow> 'a kst_scheme" where
  "seteuid st =
     (let euid = uarg st 0;
          (ok, st) = (if euid \<noteq> u_ruid (uu st) \<and> euid \<noteq> u_svuid (uu st) then suser st else (True, st))
      in if \<not> ok then st else updu (\<lambda>u. u\<lparr>u_uid := euid, u_error := 0\<rparr>) st)"

definition setgid :: "'a kst_scheme \<Rightarrow> 'a kst_scheme" where
  "setgid st =
     (let gid = uarg st 0;
          (ok, st) = (if gid \<noteq> u_rgid (uu st) then suser st else (True, st))
      in if \<not> ok then st
         else updu (\<lambda>u. u\<lparr>u_groups := (u_groups u)[0 := gid], u_rgid := gid, u_svgid := gid, u_error := 0\<rparr>) st)"

definition setegid :: "'a kst_scheme \<Rightarrow> 'a kst_scheme" where
  "setegid st =
     (let egid = uarg st 0;
          (ok, st) = (if egid \<noteq> u_rgid (uu st) \<and> egid \<noteq> u_svgid (uu st) then suser st else (True, st))
      in if \<not> ok then st else updu (\<lambda>u. u\<lparr>u_groups := (u_groups u)[0 := egid], u_error := 0\<rparr>) st)"

subsection \<open>File permissions\<close>

abbreviation (input) EROFS :: int where "EROFS \<equiv> 30"
abbreviation (input) EBUSY :: int where "EBUSY \<equiv> 16"

text \<open>\<open>access\<close> returns 1 to refuse. \<open>fp\<close> is the file system of the inode.\<close>

definition access :: "fs \<Rightarrow> inode \<Rightarrow> u16 \<Rightarrow> 'a kst_scheme \<Rightarrow> int \<times> 'a kst_scheme" where
  "access fp ip mode st =
     (let m = mode
      in if m = IWRITE \<and> tst (i_flags ip) IMMUTABLE then (1, set_error EPERM st)
         else if m = IWRITE \<and> fs_ronly fp \<noteq> 0 \<and> i_mode ip AND IFMT \<noteq> IFCHR \<and> i_mode ip AND IFMT \<noteq> IFBLK
         then (1, set_error EROFS st)
         else if u_uid (uu st) = 0 then (0, st)
         else let m = (if u_uid (uu st) \<noteq> i_uid ip
                       then let m = drop_bit 3 m
                            in if groupmember_go (u_groups (uu st)) (i_gid ip) then m else drop_bit 3 m
                       else m)
              in if tst (i_mode ip) m then (0, st) else (1, set_error EACCES st))"

definition ufs_mountedon :: "int \<Rightarrow> mount list \<Rightarrow> int" where
  "ufs_mountedon dev mounts = (if \<exists>mp \<in> set mounts. m_inodp mp \<noteq> None \<and> m_dev mp = dev then EBUSY else 0)"

subsection \<open>No privilege is gained\<close>

text \<open>The calls that change ids, with their arguments, and a sequence of them.\<close>

datatype idcall = Setuid u32 | Seteuid u32 | Setgid u32 | Setegid u32 | Setgroups u32 u32

fun id_call :: "idcall \<Rightarrow> 'a kst_scheme \<Rightarrow> 'a kst_scheme" where
  "id_call (Setuid a) st = setuid (set_arg 0 a st)"
| "id_call (Seteuid a) st = seteuid (set_arg 0 a st)"
| "id_call (Setgid a) st = setgid (set_arg 0 a st)"
| "id_call (Setegid a) st = setegid (set_arg 0 a st)"
| "id_call (Setgroups n a) st = setgroups (set_arg 1 a (set_arg 0 n st))"

definition uids :: "'a kst_scheme \<Rightarrow> u32 set" where
  "uids st = {u_uid (uu st), u_ruid (uu st), u_svuid (uu st)}"

definition gids :: "'a kst_scheme \<Rightarrow> u32 set" where
  "gids st = {u_groups (uu st) ! 0, u_rgid (uu st), u_svgid (uu st)}"

lemma uarg_simps [simp]:
  "uarg (set_arg n v st) k = (if k = n then v else uarg st k)"
  "uarg (set_error e st) k = uarg st k" "uarg (set_rval r st) k = uarg st k"
  by (simp_all add: uarg_def set_arg_def set_error_def set_rval_def)

lemma uu_set_simps [simp]:
  "uu (set_arg n v st) = (uu st)\<lparr>u_arg := (u_arg (uu st))(n := v)\<rparr>"
  "uu (set_error e st) = (uu st)\<lparr>u_error := e\<rparr>" "uu (set_rval r st) = (uu st)\<lparr>u_rval := r\<rparr>"
  "umem (set_arg n v st) = umem st" "umem (set_error e st) = umem st" "umem (set_rval r st) = umem st"
  "procs (set_arg n v st) = procs st" "procs (set_error e st) = procs st" "procs (set_rval r st) = procs st"
  by (simp_all add: set_arg_def set_error_def set_rval_def)

lemmas id_defs = setuid_def seteuid_def setgid_def setegid_def setgroups_def suser_def

lemma id_call_keeps:
  assumes "0 \<notin> uids st" and "u_groups (uu st) \<noteq> []"
  shows "uids (id_call c st) \<subseteq> uids st \<and> gids (id_call c st) \<subseteq> gids st
    \<and> tl (u_groups (uu (id_call c st))) = tl (u_groups (uu st)) \<and> u_groups (uu (id_call c st)) \<noteq> []"
proof -
  obtain g gs where "u_groups (uu st) = g # gs" using assms(2) by (cases "u_groups (uu st)") simp_all
  with assms(1) show ?thesis by (cases c) (auto simp: uids_def gids_def id_defs Let_def split: if_splits)
qed

lemma id_calls_keep:
  assumes "0 \<notin> uids st" and "u_groups (uu st) \<noteq> []"
  shows "uids (fold id_call cs st) \<subseteq> uids st \<and> gids (fold id_call cs st) \<subseteq> gids st
    \<and> tl (u_groups (uu (fold id_call cs st))) = tl (u_groups (uu st))"
  using assms
proof (induction cs arbitrary: st)
  case (Cons c cs)
  note k = id_call_keeps [OF Cons.prems, of c]
  have "0 \<notin> uids (id_call c st)" using k Cons.prems(1) by blast
  from Cons.IH [OF this] k show ?case by auto
qed simp

subsection \<open>Groups\<close>

lemma groups_used_pad:
  assumes "NOGROUP \<notin> set gs"
  shows "j \<le> k \<Longrightarrow> groups_used (gs @ replicate k NOGROUP) (length gs + j) = length gs"
proof (induction j)
  case 0
  show ?case
  proof (cases gs rule: rev_cases)
    case (snoc hs h)
    then show ?thesis using assms by (auto simp: nth_append)
  qed simp
qed (simp add: nth_append)

lemma groupmember_pad: "NOGROUP \<notin> set gs \<Longrightarrow> groupmember_go (gs @ replicate k NOGROUP) g \<longleftrightarrow> g \<in> set gs"
proof (induction gs)
  case Nil
  show ?case by (cases k) simp_all
qed auto

subsection \<open>Properties\<close>

text \<open>C29: A process none of whose user ids is 0 cannot gain an id by any sequence of the calls that
  change ids: its effective, real and saved user ids stay among the three it had, its group
  ids among those it had, and its further groups stay as they were.\<close>

theorem ids_not_gained:
  assumes "u_uid (uu st) \<noteq> 0" and "u_ruid (uu st) \<noteq> 0" and "u_svuid (uu st) \<noteq> 0" and "length (u_groups (uu st)) = NGROUPS"
  shows "uids (fold id_call cs st) \<subseteq> uids st \<and> gids (fold id_call cs st) \<subseteq> gids st
    \<and> tl (u_groups (uu (fold id_call cs st))) = tl (u_groups (uu st))"
proof -
  have "0 \<notin> uids st" "u_groups (uu st) \<noteq> []" using assms by (auto simp: uids_def)
  then show ?thesis by (rule id_calls_keep)
qed

theorem ids_not_gained_witness:
  "u_uid (uu (fold id_call [Setuid 0, Seteuid 7, Setgroups 1 0x7f008000]
     (kst0\<lparr>uu := user0\<lparr>u_uid := 5, u_ruid := 5, u_svuid := 7\<rparr>\<rparr>))) \<in> {5, 7}"
proof -
  let ?st = "kst0\<lparr>uu := user0\<lparr>u_uid := 5, u_ruid := 5, u_svuid := 7\<rparr>\<rparr>"
  have "uids ?st = {5, 7}" by (auto simp: uids_def)
  then show ?thesis using ids_not_gained [of ?st "[Setuid 0, Seteuid 7, Setgroups 1 0x7f008000]"]
    unfolding uids_def [of "fold _ _ _"] by (auto simp: boot_defs)
qed

text \<open>For the superuser, \<open>setgroups\<close> followed by \<open>getgroups\<close> is a round trip: the group list that
  was read from user memory is the one written back, and in between membership is
  exactly membership in that list.\<close>

theorem groups_round_trip:
  assumes "u_uid (uu st) = 0" and "length gs \<le> NGROUPS" and "NOGROUP \<notin> set gs"
    and "mload (umem st) a (4 * length gs) = concat (map le32 gs)"
    and "\<not> baduaddr a" and "\<not> baduaddr (a + of_nat (4 * length gs) - 1)"
    and "\<not> baduaddr b" and "\<not> baduaddr (b + of_nat (4 * length gs) - 1)"
  shows "\<exists>st1 st2. setgroups (set_arg 1 a (set_arg 0 (of_nat (length gs)) st)) = st1 \<and> u_error (uu st1) = 0
    \<and> (\<forall>g. groupmember g st1 \<longleftrightarrow> g \<in> set gs)
    \<and> getgroups (set_arg 1 b (set_arg 0 (of_nat NGROUPS) st1)) = st2 \<and> u_error (uu st2) = 0
    \<and> u_rval (uu st2) = int (length gs) \<and> mload (umem st2) b (4 * length gs) = concat (map le32 gs)"
proof -
  let ?n = "length gs"
  let ?gs = "gs @ replicate (NGROUPS - ?n) NOGROUP"
  define st1 where "st1 = setgroups (set_arg 1 a (set_arg 0 (of_nat ?n) st))"
  have n: "unat (of_nat ?n :: u32) = ?n" using assms(2) by (intro unat_of_nat32) simp
  have le: "\<not> 16 < (of_nat ?n :: u32)" using n assms(2) by (simp add: word_less_nat_alt)
  have s1: "uu st1 = (uu st)\<lparr>u_arg := (u_arg (uu st))(0 := of_nat ?n, 1 := a), u_error := 0, u_groups := ?gs\<rparr>"
      "umem st1 = umem st"
    using assms(1,4-6) n le
    by (simp_all add: st1_def setgroups_def suser_def copyin_obj_def words_le_concat Let_def fun_upd_twist)
  have used: "groups_used ?gs NGROUPS = ?n" using groups_used_pad [OF assms(3), of "NGROUPS - ?n" "NGROUPS - ?n"] assms(2) by simp
  have mem: "groupmember g st1 \<longleftrightarrow> g \<in> set gs" for g
    using groupmember_pad [OF assms(3)] by (simp add: groupmember_def s1)
  define st2 where "st2 = getgroups (set_arg 1 b (set_arg 0 (of_nat NGROUPS) st1))"
  have "umem st2 = mstore (concat (map le32 gs)) b (umem st)" "u_error (uu st2) = 0" "u_rval (uu st2) = int ?n"
    using assms(7,8) le used
    by (simp_all add: st2_def getgroups_def s1 copyout_obj_def length_concat_le32 Let_def)
  moreover have "mload (mstore (concat (map le32 gs)) b (umem st)) b (4 * ?n) = concat (map le32 gs)"
    using mload_mstore [of "concat (map le32 gs)" b "umem st"] assms(2) by (simp add: length_concat_le32)
  ultimately show ?thesis using s1 mem st1_def st2_def by (intro exI [of _ st1] exI [of _ st2]) simp
qed

theorem groups_round_trip_witness:
  "\<exists>st1 st2. setgroups (set_arg 1 0x7f008000 (set_arg 0 1 kst0)) = st1 \<and> u_error (uu st1) = 0
    \<and> (\<forall>g. groupmember g st1 \<longleftrightarrow> g = 0)
    \<and> getgroups (set_arg 1 0x7f009000 (set_arg 0 16 st1)) = st2 \<and> u_error (uu st2) = 0
    \<and> u_rval (uu st2) = 1 \<and> mload (umem st2) 0x7f009000 4 = le32 0"
proof -
  have "u_uid (uu kst0) = 0" by (simp add: boot_defs)
  moreover have "mload (umem kst0) 0x7f008000 4 = le32 0" by (simp add: boot_defs mload_def le32_def upt_conv_Cons)
  ultimately show ?thesis
    using groups_round_trip [of kst0 "[0]" "0x7f008000" "0x7f009000"] by (simp add: baduaddr_def)
qed



end
