(* ===== verification/Resource.thy ===== *)
theory Resource
  imports Prot
begin

text \<open>
  Resource controls and accounting (\<open>sys/kernel/kern_resource.c\<close>): nice values of processes,
  process groups and users, resource limits and resource usage. The lemmas show who may
  change which nice value, that no sequence of calls raises a hard limit without privilege,
  and that a limit read back is the one that was set.
\<close>

subsection \<open>Operations\<close>

abbreviation (input) PRIO_MIN :: int where "PRIO_MIN \<equiv> -20"
abbreviation (input) PRIO_MAX :: int where "PRIO_MAX \<equiv> 20"
abbreviation (input) RLIMIT_CPU :: nat where "RLIMIT_CPU \<equiv> 0"
abbreviation (input) RLIM_NLIMITS :: nat where "RLIM_NLIMITS \<equiv> 6"
abbreviation (input) RLIM_INFINITY :: int where "RLIM_INFINITY \<equiv> 0x7fffffff"

text \<open>\<open>p_nxt\<close> as a link field of the state, for loops over \<open>allproc\<close>.\<close>

abbreviation pnxt :: "'a kst_scheme \<Rightarrow> nat \<Rightarrow> nat option" where
  "pnxt st i \<equiv> p_nxt (procs st i)"

text \<open>The loops of \<open>getpriority\<close> over all processes: the least nice value among the selected ones.\<close>

definition low_nice :: "(proc \<Rightarrow> bool) \<Rightarrow> 'a kst_scheme \<Rightarrow> int \<Rightarrow> int res" where
  "low_nice sel st low =
     walk (Suc NPROC) (\<lambda>_ i. p_nxt (procs st i))
       (\<lambda>i low. Inr (if sel (procs st i) \<and> p_of st p_nice i < low then p_of st p_nice i else low)) (allproc st) low"

definition getpriority :: "'a kst_scheme \<Rightarrow> 'a kst_scheme res" where
  "getpriority st =
     (let finish = (\<lambda>st low. if low = PRIO_MAX + 1 then set_error ESRCH st else set_rval low st);
          which = sarg st 0
      in if which = 0 then
           rbind (if sarg st 1 = 0 then Inr (Some (curproc st)) else pfind st (sarg st 1)) (\<lambda>p.
             case p of
               None \<Rightarrow> Inr (finish st (PRIO_MAX + 1))
             | Some i \<Rightarrow> Inr (finish st (p_of st p_nice i)))
         else if which = 1 then
           let st = (if sarg st 1 = 0 then set_arg 1 (of_int (p_of st p_pgrp (curproc st))) st else st)
           in rbind (low_nice (\<lambda>p. p_pgrp p = sarg st 1) st (PRIO_MAX + 1)) (\<lambda>low. Inr (finish st low))
         else if which = 2 then
           let st = (if sarg st 1 = 0 then set_arg 1 (u_uid (uu st)) st else st)
           in rbind (low_nice (\<lambda>p. p_uid p = sarg st 1) st (PRIO_MAX + 1)) (\<lambda>low. Inr (finish st low))
         else Inr (set_error EINVAL st))"

text \<open>In the comparisons with the unsigned ids, the short \<open>p_uid\<close> is sign extended.\<close>

definition donice :: "nat \<Rightarrow> int \<Rightarrow> 'a kst_scheme \<Rightarrow> 'a kst_scheme" where
  "donice p n st =
     (if u_uid (uu st) \<noteq> 0 \<and> u_ruid (uu st) \<noteq> 0 \<and> u_uid (uu st) \<noteq> of_int (p_of st p_uid p)
         \<and> u_ruid (uu st) \<noteq> of_int (p_of st p_uid p)
      then set_error EPERM st
      else let n = (if n > PRIO_MAX then PRIO_MAX else n);
               n = (if n < PRIO_MIN then PRIO_MIN else n);
               (ok, st) = (if n < p_of st p_nice p then suser st else (True, st))
           in if \<not> ok then set_error EACCES st
              else updp p (\<lambda>q. q\<lparr>p_nice := n\<rparr>) st)"

definition nice_step :: "(proc \<Rightarrow> bool) \<Rightarrow> int \<Rightarrow> nat \<Rightarrow> nat \<times> 'a kst_scheme \<Rightarrow> (nat \<times> 'a kst_scheme) res" where
  "nice_step sel n i s = (let (found, st) = s in Inr (if sel (procs st i) then (found + 1, donice i n st) else s))"

definition setpriority :: "'a kst_scheme \<Rightarrow> 'a kst_scheme res" where
  "setpriority st =
     (let finish = (\<lambda>(found, st). Inr (if found = (0 :: nat) then set_error ESRCH st else st));
          which = sarg st 0;
          loop = (\<lambda>sel st. walk (Suc NPROC) (\<lambda>s i. p_nxt (procs (snd s) i)) (nice_step sel (sarg st 2)) (allproc st) (0, st))
      in if which = 0 then
           rbind (if sarg st 1 = 0 then Inr (Some (curproc st)) else pfind st (sarg st 1)) (\<lambda>p.
             case p of
               None \<Rightarrow> finish (0, st)
             | Some i \<Rightarrow> finish (1, donice i (sarg st 2) st))
         else if which = 1 then
           let st = (if sarg st 1 = 0 then set_arg 1 (of_int (p_of st p_pgrp (curproc st))) st else st)
           in rbind (loop (\<lambda>p. p_pgrp p = sarg st 1) st) finish
         else if which = 2 then
           let st = (if sarg st 1 = 0 then set_arg 1 (u_uid (uu st)) st else st)
           in rbind (loop (\<lambda>p. p_uid p = sarg st 1) st) finish
         else Inr (set_error EINVAL st))"

text \<open>\<open>struct rlimit\<close> in user memory is two words.\<close>

definition setrlimit :: "'a kst_scheme \<Rightarrow> 'a kst_scheme" where
  "setrlimit st =
     (if uarg st 0 \<ge> of_nat RLIM_NLIMITS then set_error EINVAL st
      else let which = unat (uarg st 0);
               alimp = u_rlimit (uu st) which;
               (e, ws) = copyinw (uarg st 1) 2 st;
               st = set_error e st
           in if e \<noteq> 0 then st
              else let tick = (\<lambda>x. if which = RLIMIT_CPU
                                   then if x \<ge> cdiv RLIM_INFINITY hz then RLIM_INFINITY else s32 (x * hz) else x);
                       alim = \<lparr>rlim_cur = tick (sint (ws ! 0)), rlim_max = tick (sint (ws ! 1))\<rparr>;
                       (ok, st) = (if rlim_cur alim > rlim_max alimp \<or> rlim_max alim > rlim_max alimp
                                   then suser st else (True, st))
                   in if \<not> ok then st
                      else updu (\<lambda>u. u\<lparr>u_rlimit := (u_rlimit u)(which := alim)\<rparr>) st)"

definition getrlimit :: "'a kst_scheme \<Rightarrow> 'a kst_scheme" where
  "getrlimit st =
     (if uarg st 0 \<ge> of_nat RLIM_NLIMITS then set_error EINVAL st
      else let which = unat (uarg st 0);
               sec = (\<lambda>x. if which = RLIMIT_CPU \<and> x \<noteq> RLIM_INFINITY then cdiv x hz else x);
               alim = u_rlimit (uu st) which;
               (e, st) = copyoutw [of_int (sec (rlim_cur alim)), of_int (sec (rlim_max alim))] (uarg st 1) st
           in set_error e st)"

text \<open>
  The members of \<open>struct rusage\<close>, in order: user and system time (seconds and microseconds),
  six members that stay zero, and the counters.
\<close>

definition rucvt :: "k_rusage \<Rightarrow> int list" where
  "rucvt krup =
     [cdiv (ru_utime krup) hz, s32 (cmod (ru_utime krup) hz * usechz),
      cdiv (ru_stime krup) hz, s32 (cmod (ru_stime krup) hz * usechz), 0, 0, 0, 0, 0, 0,
      ru_nswap krup, ru_inblock krup, ru_oublock krup, ru_msgsnd krup, ru_msgrcv krup, ru_nsignals krup,
      ru_nvcsw krup, ru_nivcsw krup]"

definition getrusage :: "'a kst_scheme \<Rightarrow> 'a kst_scheme" where
  "getrusage st =
     (if sarg st 0 \<noteq> 0 \<and> sarg st 0 \<noteq> -1 then set_error EINVAL st
      else let rup = (if sarg st 0 = 0 then u_ru (uu st) else u_cru (uu st));
               (e, st) = copyoutw (map of_int (rucvt rup)) (uarg st 1) st
           in set_error e st)"

definition ruadd :: "k_rusage \<Rightarrow> k_rusage \<Rightarrow> k_rusage" where
  "ruadd ru ru2 =
     \<lparr>ru_utime = s32 (ru_utime ru + ru_utime ru2), ru_stime = s32 (ru_stime ru + ru_stime ru2),
      ru_nswap = s32 (ru_nswap ru + ru_nswap ru2), ru_inblock = s32 (ru_inblock ru + ru_inblock ru2),
      ru_oublock = s32 (ru_oublock ru + ru_oublock ru2), ru_msgsnd = s32 (ru_msgsnd ru + ru_msgsnd ru2),
      ru_msgrcv = s32 (ru_msgrcv ru + ru_msgrcv ru2), ru_nsignals = s32 (ru_nsignals ru + ru_nsignals ru2),
      ru_nvcsw = s32 (ru_nvcsw ru + ru_nvcsw ru2), ru_nivcsw = s32 (ru_nivcsw ru + ru_nivcsw ru2)\<rparr>"

subsection \<open>Nice values\<close>

text \<open>The processes on \<open>allproc\<close>.\<close>

definition plist :: "'a kst_scheme \<Rightarrow> nat list \<Rightarrow> bool" where
  "plist st xs \<longleftrightarrow> chain (pnxt st) (allproc st) xs \<and> (\<forall>i \<in> set xs. i < NPROC)"

lemma plist_length: "plist st xs \<Longrightarrow> length xs < Suc NPROC"
  using chain_length [of "pnxt st" "allproc st" xs NPROC] by (auto simp: plist_def)

definition mine :: "'a kst_scheme \<Rightarrow> nat \<Rightarrow> bool" where
  "mine st i \<longleftrightarrow> u_uid (uu st) = of_int (p_of st p_uid i) \<or> u_ruid (uu st) = of_int (p_of st p_uid i)"

text \<open>What a process without privilege may do to nice values.\<close>

definition niced :: "'a kst_scheme \<Rightarrow> 'a kst_scheme \<Rightarrow> bool" where
  "niced st st' \<longleftrightarrow> u_uid (uu st') = u_uid (uu st) \<and> u_ruid (uu st') = u_ruid (uu st) \<and> allproc st' = allproc st
     \<and> (\<forall>i. procs st' i = (procs st i)\<lparr>p_nice := p_of st' p_nice i\<rparr>)
     \<and> (\<forall>i. p_of st' p_nice i \<noteq> p_of st p_nice i \<longrightarrow>
           mine st i \<and> p_of st p_nice i < p_of st' p_nice i \<and> p_of st' p_nice i \<le> PRIO_MAX)"

lemma niced_refl [simp]: "niced st st"
  by (simp add: niced_def)

lemma niced_trans: "niced st st' \<Longrightarrow> niced st' st'' \<Longrightarrow> niced st st''"
proof -
  assume a: "niced st st'" "niced st' st''"
  have p: "procs st' i = (procs st i)\<lparr>p_nice := p_of st' p_nice i\<rparr>" "procs st'' i = (procs st' i)\<lparr>p_nice := p_of st'' p_nice i\<rparr>" for i
    using a by (simp_all add: niced_def)
  have "p_of st' p_uid i = p_of st p_uid i" for i by (subst p(1)) simp
  then have m: "mine st' i = mine st i" for i using a(1) by (simp add: mine_def niced_def)
  have "procs st'' i = (procs st i)\<lparr>p_nice := p_of st'' p_nice i\<rparr>" for i by (subst p(2), subst p(1)) simp
  moreover have "mine st i \<and> p_of st p_nice i < p_of st'' p_nice i \<and> p_of st'' p_nice i \<le> PRIO_MAX"
    if "p_of st'' p_nice i \<noteq> p_of st p_nice i" for i
  proof -
    have "p_of st' p_nice i \<noteq> p_of st p_nice i \<Longrightarrow> mine st i \<and> p_of st p_nice i < p_of st' p_nice i \<and> p_of st' p_nice i \<le> PRIO_MAX"
      "p_of st'' p_nice i \<noteq> p_of st' p_nice i \<Longrightarrow> mine st i \<and> p_of st' p_nice i < p_of st'' p_nice i \<and> p_of st'' p_nice i \<le> PRIO_MAX"
      using a m by (simp_all add: niced_def)
    with that show ?thesis by fastforce
  qed
  ultimately show ?thesis using a by (simp add: niced_def)
qed

lemma niced_error: "niced st (set_error e st)" "niced st (set_arg n v st)"
  by (simp_all add: niced_def set_error_def set_arg_def)

lemma donice_niced: "u_uid (uu st) \<noteq> 0 \<Longrightarrow> u_ruid (uu st) \<noteq> 0 \<Longrightarrow> niced st (donice p n st)"
  by (auto simp: donice_def niced_def suser_def mine_def set_error_def Let_def)

lemma donice_pnxt: "p_of (donice p n st) p_nxt i = p_of st p_nxt i"
  by (auto simp: donice_def suser_def set_error_def Let_def)

lemma nice_step_niced:
  assumes "nice_step sel n i s = Inr s'" and "niced st (snd s)" and "u_uid (uu st) \<noteq> 0" and "u_ruid (uu st) \<noteq> 0"
  shows "niced st (snd s')"
proof -
  have "u_uid (uu (snd s)) \<noteq> 0" "u_ruid (uu (snd s)) \<noteq> 0" using assms(2-4) by (simp_all add: niced_def)
  with niced_trans [OF assms(2) donice_niced] assms(1,2) show ?thesis
    by (auto simp: nice_step_def case_prod_unfold split: if_splits)
qed

lemma nice_loop:
  fixes st :: "'a kst_scheme"
  assumes "plist st xs"
  shows "walk (Suc NPROC) (\<lambda>s i. p_nxt (procs (snd s) i)) (nice_step sel n) (allproc st) (0, st) = rfold (nice_step sel n) xs (0, st)"
proof (rule walk_rfold)
  show "chain (\<lambda>i. p_nxt (procs (snd (0, st)) i)) (allproc st) xs" using assms by (simp add: plist_def)
  show "length xs < Suc NPROC" by (rule plist_length [OF assms])
  show "(\<lambda>i. p_nxt (procs (snd s') i)) = (\<lambda>i. p_nxt (procs (snd s) i))" if "nice_step sel n i s = Inr s'" for i and s s' :: "nat \<times> 'a kst_scheme"
    using that by (auto simp: nice_step_def case_prod_unfold donice_pnxt split: if_splits)
qed

lemma nice_loop_niced:
  assumes "plist st xs" and "u_uid (uu st) \<noteq> 0" and "u_ruid (uu st) \<noteq> 0"
  shows "\<exists>found st'. walk (Suc NPROC) (\<lambda>s i. p_nxt (procs (snd s) i)) (nice_step sel n) (allproc st) (0, st) = Inr (found, st')
    \<and> niced st st'"
proof -
  have "rfold (nice_step sel n) xs (0, st) = Inr (fold (\<lambda>i (found, st). if sel (procs st i) then (found + 1, donice i n st) else (found, st)) xs (0, st))"
    by (rule rfold_total) (auto simp: nice_step_def)
  then obtain found st' where r: "rfold (nice_step sel n) xs (0, st) = Inr (found, st')" by fastforce
  have "niced st (snd (found, st'))"
    by (rule rfold_inv [where P = "\<lambda>s. niced st (snd s)", OF r]) (use nice_step_niced [OF _ _ assms(2,3)] in auto)
  with r nice_loop [OF assms(1)] show ?thesis by auto
qed

lemma plist_set_arg: "plist (set_arg n v st) xs = plist st xs"
  by (simp add: plist_def set_arg_def)

lemma setpriority_niced:
  assumes "plist st xs" and "hash_ok st hs" and "u_uid (uu st) \<noteq> 0" and "u_ruid (uu st) \<noteq> 0"
  shows "\<exists>st'. setpriority st = Inr st' \<and> niced st st'"
proof -
  have fin: "niced st (if f = (0 :: nat) then set_error e st' else st')" if "niced st st'" for f e st'
    using niced_trans [OF that niced_error(1)] that by simp
  have loop: "\<exists>f st'. walk (Suc NPROC) (\<lambda>s i. p_nxt (procs (snd s) i)) (nice_step sel n) (allproc st1) (0, st1) = Inr (f, st') \<and> niced st st'"
    if "st1 = st \<or> st1 = set_arg k v st" for sel n st1 k v
  proof -
    have "plist st1 xs" "u_uid (uu st1) \<noteq> 0" "u_ruid (uu st1) \<noteq> 0" "niced st st1"
      using that assms(1,3,4) niced_error by (auto simp: plist_set_arg)
    with nice_loop_niced [OF this(1-3)] niced_trans show ?thesis by blast
  qed
  consider "sarg st 0 = 0" | "sarg st 0 = 1" | "sarg st 0 = 2" | "sarg st 0 \<notin> {0, 1, 2}" by blast
  then show ?thesis
  proof cases
    case 1
    have "\<exists>p. (if sarg st 1 = 0 then Inr (Some (curproc st)) else pfind st (sarg st 1)) = Inr p"
      using pfind_find [OF assms(2), of "sarg st 1"] by (simp del: One_nat_def)
    then obtain p where p: "(if sarg st 1 = 0 then Inr (Some (curproc st)) else pfind st (sarg st 1)) = Inr p" ..
    show ?thesis
    proof (cases p)
      case None
      with 1 p show ?thesis by (simp add: setpriority_def Let_def niced_error del: One_nat_def)
    next
      case (Some i)
      with 1 p show ?thesis using donice_niced [OF assms(3,4)] by (simp add: setpriority_def Let_def del: One_nat_def)
    qed
  next
    case 2
    define st1 where "st1 = (if sarg st 1 = 0 then set_arg 1 (of_int (p_of st p_pgrp (curproc st))) st else st)"
    have "st1 = st \<or> st1 = set_arg 1 (of_int (p_of st p_pgrp (curproc st))) st" by (auto simp: st1_def)
    from loop [OF this, of "\<lambda>p. p_pgrp p = sarg st1 1" "sarg st1 2"] obtain f st' where w: "walk (Suc NPROC) (\<lambda>s i. p_nxt (procs (snd s) i))
        (nice_step (\<lambda>p. p_pgrp p = sarg st1 1) (sarg st1 2)) (allproc st1) (0, st1) = Inr (f, st')" and n: "niced st st'" by blast
    have "setpriority st = Inr (if f = 0 then set_error ESRCH st' else st')"
      using 2 unfolding setpriority_def Let_def st1_def [symmetric] w by (simp del: walk.simps One_nat_def)
    with fin [OF n] show ?thesis by blast
  next
    case 3
    define st1 where "st1 = (if sarg st 1 = 0 then set_arg 1 (u_uid (uu st)) st else st)"
    have "st1 = st \<or> st1 = set_arg 1 (u_uid (uu st)) st" by (auto simp: st1_def)
    from loop [OF this, of "\<lambda>p. p_uid p = sarg st1 1" "sarg st1 2"] obtain f st' where w: "walk (Suc NPROC) (\<lambda>s i. p_nxt (procs (snd s) i))
        (nice_step (\<lambda>p. p_uid p = sarg st1 1) (sarg st1 2)) (allproc st1) (0, st1) = Inr (f, st')" and n: "niced st st'" by blast
    have "setpriority st = Inr (if f = 0 then set_error ESRCH st' else st')"
      using 3 unfolding setpriority_def Let_def st1_def [symmetric] w by (simp del: walk.simps One_nat_def)
    with fin [OF n] show ?thesis by blast
  next
    case 4
    then show ?thesis by (auto simp: setpriority_def Let_def niced_error)
  qed
qed

subsection \<open>Limits\<close>

text \<open>A \<open>setrlimit\<close> call: its two arguments and what user memory holds at the time.\<close>

definition rl_call :: "u32 \<times> u32 \<times> mem \<Rightarrow> 'a kst_scheme \<Rightarrow> 'a kst_scheme" where
  "rl_call c st = (let (which, lim, m) = c in setrlimit (set_arg 1 lim (set_arg 0 which (st\<lparr>umem := m\<rparr>))))"

definition hard :: "'a kst_scheme \<Rightarrow> nat \<Rightarrow> int" where
  "hard st w = rlim_max (u_rlimit (uu st) w)"

definition soft :: "'a kst_scheme \<Rightarrow> nat \<Rightarrow> int" where
  "soft st w = rlim_cur (u_rlimit (uu st) w)"

lemma setrlimit_bounds:
  assumes "u_uid (uu st) \<noteq> 0"
  shows "u_uid (uu (setrlimit st)) = u_uid (uu st) \<and> hard (setrlimit st) w \<le> hard st w
    \<and> (soft (setrlimit st) w = soft st w \<or> soft (setrlimit st) w \<le> hard st w)"
  using assms by (auto simp: setrlimit_def suser_def hard_def soft_def Let_def case_prod_unfold split: if_splits)

lemma rl_call_bounds:
  assumes "u_uid (uu st) \<noteq> 0"
  shows "u_uid (uu (rl_call c st)) = u_uid (uu st) \<and> hard (rl_call c st) w \<le> hard st w
    \<and> (soft (rl_call c st) w = soft st w \<or> soft (rl_call c st) w \<le> hard st w)"
proof -
  obtain which lim m where c: "c = (which, lim, m)" by (cases c)
  let ?st = "set_arg 1 lim (set_arg 0 which (st\<lparr>umem := m\<rparr>))"
  have "u_uid (uu ?st) = u_uid (uu st)" "hard ?st w = hard st w" "soft ?st w = soft st w"
    by (simp_all add: hard_def soft_def)
  then show ?thesis using setrlimit_bounds [of ?st w] assms by (simp add: rl_call_def c)
qed

lemma rl_calls_bounds:
  assumes "u_uid (uu st) \<noteq> 0" and "soft st w \<le> hard st w"
  shows "hard (fold rl_call cs st) w \<le> hard st w \<and> soft (fold rl_call cs st) w \<le> hard st w"
proof -
  have "u_uid (uu (fold rl_call cs s)) \<noteq> 0 \<and> hard (fold rl_call cs s) w \<le> b \<and> soft (fold rl_call cs s) w \<le> b"
    if "u_uid (uu s) \<noteq> 0" "hard s w \<le> b" "soft s w \<le> b" for s :: "'a kst_scheme" and b using that
  proof (induction cs arbitrary: s)
    case (Cons c cs)
    from rl_call_bounds [OF Cons.prems(1), of c w] Cons.prems
    have "u_uid (uu (rl_call c s)) \<noteq> 0" "hard (rl_call c s) w \<le> b" "soft (rl_call c s) w \<le> b" by auto
    from Cons.IH [OF this] show ?case by simp
  qed simp
  from this [of st "hard st w"] assms show ?thesis by simp
qed

text \<open>What a limit becomes when it is set and read back.\<close>

definition settled :: "nat \<Rightarrow> int \<Rightarrow> int" where
  "settled which x = (if which = RLIMIT_CPU \<and> x \<ge> 10737418 then RLIM_INFINITY else x)"

lemma tick_round_trip:
  assumes "0 \<le> x" and "x < 10737418"
  shows "s32 (x * hz) = x * hz" and "x * hz \<noteq> RLIM_INFINITY" and "cdiv (x * hz) hz = x"
proof -
  show "s32 (x * hz) = x * hz" using assms by (intro s32_id) simp_all
  show "x * hz \<noteq> RLIM_INFINITY" by presburger
  show "cdiv (x * hz) hz = x" using assms by (simp add: cdiv_nonneg)
qed

lemma cdiv_infinity: "cdiv RLIM_INFINITY hz = 10737418"
  by (simp add: cdiv_def)

subsection \<open>Properties\<close>

text \<open>C31: \<open>setpriority\<close> always returns. Called by a process whose real and effective user ids are
  not 0 it changes nothing but nice values, only of processes that belong to one of
  these users, and only upwards, to at most 20.\<close>

theorem nice_only_raised:
  assumes "plist st xs" and "hash_ok st hs" and "u_uid (uu st) \<noteq> 0" and "u_ruid (uu st) \<noteq> 0"
  shows "\<exists>st'. setpriority st = Inr st' \<and> (\<forall>i. procs st' i = (procs st i)\<lparr>p_nice := p_of st' p_nice i\<rparr>)
    \<and> (\<forall>i. p_of st' p_nice i \<noteq> p_of st p_nice i \<longrightarrow>
        (u_uid (uu st) = of_int (p_of st p_uid i) \<or> u_ruid (uu st) = of_int (p_of st p_uid i))
        \<and> p_of st p_nice i < p_of st' p_nice i \<and> p_of st' p_nice i \<le> PRIO_MAX)"
proof -
  from setpriority_niced [OF assms] obtain st' where "setpriority st = Inr st'" and n: "niced st st'" by blast
  with n show ?thesis unfolding niced_def mine_def by (intro exI [of _ st']) simp
qed

theorem nice_only_raised_witness:
  "\<exists>st'. setpriority (kst0\<lparr>uu := user0\<lparr>u_uid := 5, u_ruid := 5\<rparr>\<rparr>) = Inr st'"
proof -
  let ?st = "kst0\<lparr>uu := user0\<lparr>u_uid := 5, u_ruid := 5\<rparr>\<rparr>"
  have "plist ?st []" "hash_ok ?st (\<lambda>_. [])" by (simp_all add: plist_def hash_ok_def boot_defs)
  from nice_only_raised [OF this] show ?thesis by auto
qed

text \<open>C32: Whatever sequence of \<open>setrlimit\<close> calls a process makes while its effective user id is not
  0, no hard limit rises, and no soft limit rises above the hard limit of the start.\<close>

theorem limits_not_raised:
  assumes "u_uid (uu st) \<noteq> 0" and "rlim_cur (u_rlimit (uu st) w) \<le> rlim_max (u_rlimit (uu st) w)"
  shows "rlim_max (u_rlimit (uu (fold rl_call cs st)) w) \<le> rlim_max (u_rlimit (uu st) w)
    \<and> rlim_cur (u_rlimit (uu (fold rl_call cs st)) w) \<le> rlim_max (u_rlimit (uu st) w)"
  using rl_calls_bounds [of st w cs] assms by (simp add: hard_def soft_def)

theorem limits_not_raised_witness:
  "rlim_max (u_rlimit (uu (fold rl_call [(1, 0x7f008000, \<lambda>_. 1)] (kst0\<lparr>uu := user0\<lparr>u_uid := 5\<rparr>\<rparr>))) 1) \<le> 0"
  using limits_not_raised [of "kst0\<lparr>uu := user0\<lparr>u_uid := 5\<rparr>\<rparr>" 1 "[(1, 0x7f008000, \<lambda>_. 1)]"] by (simp add: boot_defs)

text \<open>A limit set by the superuser and read back is the one set, for every resource; the limit
  on processor time is kept in clock ticks, and values that do not fit become infinite.\<close>

theorem limit_round_trip:
  assumes "u_uid (uu st) = 0" and "which < RLIM_NLIMITS" and "copyinw a 2 st = (0, [of_int c, of_int x])"
    and "0 \<le> c" and "c \<le> RLIM_INFINITY" and "0 \<le> x" and "x \<le> RLIM_INFINITY"
    and "\<not> baduaddr b" and "\<not> baduaddr (b + 8 - 1)"
  shows "\<exists>st2. getrlimit (set_arg 1 b (setrlimit (set_arg 1 a (set_arg 0 (of_nat which) st)))) = st2 \<and> u_error (uu st2) = 0
    \<and> copyinw b 2 st2 = (0, [of_int (settled which c), of_int (settled which x)])"
proof -
  let ?tick = "\<lambda>x. if which = RLIMIT_CPU then if x \<ge> 10737418 then RLIM_INFINITY else s32 (x * hz) else x"
  let ?sec = "\<lambda>x. if which = RLIMIT_CPU \<and> x \<noteq> RLIM_INFINITY then cdiv x hz else x"
  define st1 where "st1 = set_arg 1 b (setrlimit (set_arg 1 a (set_arg 0 (of_nat which) st)))"
  have w: "unat (of_nat which :: u32) = which" "\<not> 6 \<le> (of_nat which :: u32)"
    using assms(2) by (simp_all add: unat_of_nat32 word_le_nat_alt)
  have s: "sint (of_int y :: u32) = y" if "0 \<le> y" "y \<le> RLIM_INFINITY" for y
    using that by (simp add: sint_sbintrunc' signed_take_bit_int_eq_self)
  have "copyinw a 2 (set_arg 1 a (set_arg 0 (of_nat which) st)) = (0, [of_int c, of_int x])"
    using assms(3) by (simp add: copyinw_def)
  then have st1: "u_rlimit (uu st1) which = \<lparr>rlim_cur = ?tick c, rlim_max = ?tick x\<rparr>" "uarg st1 0 = of_nat which" "uarg st1 1 = b"
    using assms(1) w s assms(4-7) by (simp_all add: st1_def setrlimit_def suser_def cdiv_infinity uarg_def Let_def)
  have t: "?sec (?tick y) = settled which y" if "0 \<le> y" "y \<le> RLIM_INFINITY" for y
    using tick_round_trip [of y] that by (simp add: settled_def)
  have L: "?sec (rlim_cur (u_rlimit (uu st1) which)) = settled which c" "?sec (rlim_max (u_rlimit (uu st1) which)) = settled which x"
    unfolding st1(1) rlimit.select_convs by (rule t; rule assms)+
  let ?ws = "[of_int (settled which c), of_int (settled which x)] :: u32 list"
  obtain e st2 where e: "copyoutw ?ws b st1 = (e, st2)" by fastforce
  then have e0: "e = 0" using assms(8,9) by (auto simp: copyoutw_def copyout_obj_def Let_def split: if_splits)
  have g: "getrlimit st1 = set_error e st2"
    unfolding getrlimit_def st1(2,3) w(1) Let_def L e using w(2) by simp
  have "copyinw b 2 (set_error e st2) = copyinw b 2 st2" by (simp add: copyinw_def)
  moreover have "copyinw b (length ?ws) st2 = (0, ?ws)" by (rule copyoutw_copyinw [OF e [unfolded e0]]) simp
  ultimately show ?thesis unfolding st1_def [symmetric] g e0 by (simp add: numeral_2_eq_2)
qed

theorem limit_round_trip_witness:
  "\<exists>st2. getrlimit (set_arg 1 0x7f009000 (setrlimit (set_arg 1 0x7f008000 (set_arg 0 0 (kst0\<lparr>umem := \<lambda>_. 1\<rparr>))))) = st2
    \<and> u_error (uu st2) = 0 \<and> copyinw 0x7f009000 2 st2 = (0, [0x7fffffff, 0x7fffffff])"
proof -
  have "copyinw 0x7f008000 2 (kst0\<lparr>umem := \<lambda>_. 1\<rparr>) = (0, [of_int 0x01010101, of_int 0x01010101])"
    by (simp add: copyinw_def copyin_obj_def baduaddr_def mload_def upt_conv_Cons)
  then show ?thesis using limit_round_trip [of "kst0\<lparr>umem := \<lambda>_. 1\<rparr>" 0 "0x7f008000" "0x01010101" "0x01010101" "0x7f009000"]
    by (simp add: boot_defs baduaddr_def settled_def)
qed

text \<open>C33: \<open>setrlimit\<close> compares the new soft limit with the old hard limit only, so a process can
  leave a soft limit above its hard limit, although the hard limit is documented as the
  maximum value of the soft one.\<close>

theorem soft_above_hard:
  "\<exists>st :: kst. u_uid (uu st) \<noteq> 0 \<and> rlim_cur (u_rlimit (uu st) 1) \<le> rlim_max (u_rlimit (uu st) 1)
    \<and> rlim_cur (u_rlimit (uu (setrlimit st)) 1) > rlim_max (u_rlimit (uu (setrlimit st)) 1)"
proof -
  define st where "st = set_arg 1 0x7f008000 (set_arg 0 1 (kst0\<lparr>uu := user0\<lparr>u_uid := 5,
    u_rlimit := (\<lambda>_. \<lparr>rlim_cur = 100, rlim_max = 100\<rparr>)\<rparr>, umem := (\<lambda>_. 0)(0x7f008000 := 100, 0x7f008004 := 50)\<rparr>))"
  have "copyinw 0x7f008000 2 st = (0, [100, 50])"
    by (simp add: st_def copyinw_def copyin_obj_def baduaddr_def mload_def upt_conv_Cons)
  then have "u_rlimit (uu (setrlimit st)) 1 = \<lparr>rlim_cur = 100, rlim_max = 50\<rparr>"
    by (simp add: setrlimit_def uarg_def st_def word_le_nat_alt Let_def)
  moreover have "u_uid (uu st) \<noteq> 0" "u_rlimit (uu st) 1 = \<lparr>rlim_cur = 100, rlim_max = 100\<rparr>" by (simp_all add: st_def)
  ultimately show ?thesis by (intro exI [of _ st]) simp
qed

end
