(* ===== verification/Ktime.thy ===== *)
theory Ktime
  imports Prot
begin

text \<open>
  Time of day and interval timers (\<open>sys/kernel/kern_time.c\<close>), and the helpers \<open>hzto\<close> and
  \<open>profil\<close> of \<open>sys/kernel/kern_clock.c\<close>. The lemmas show the arithmetic of times, that an
  interval timer read back is the one set rounded up to seconds, and what \<open>adjtime\<close> does.
\<close>

subsection \<open>Time of day\<close>

abbreviation (input) ITIMER_REAL :: nat where "ITIMER_REAL \<equiv> 0"
abbreviation (input) ITIMER_PROF :: nat where "ITIMER_PROF \<equiv> 2"

text \<open>\<open>struct timeval\<close> and \<open>struct timezone\<close> in user memory are two words each.\<close>

definition tv_of :: "u32 list \<Rightarrow> timeval" where
  "tv_of ws = \<lparr>tv_sec = sint (ws ! 0), tv_usec = sint (ws ! 1)\<rparr>"

definition tv_words :: "timeval \<Rightarrow> u32 list" where
  "tv_words tv = [of_int (tv_sec tv), of_int (tv_usec tv)]"

definition setthetime :: "timeval \<Rightarrow> 'a kst_scheme \<Rightarrow> 'a kst_scheme" where
  "setthetime tv st =
     (let (ok, st) = suser st
      in if \<not> ok then st
         else let st = st\<lparr>boottime := (boottime st)\<lparr>tv_sec := s32 (tv_sec (boottime st) + (tv_sec tv - tv_sec (time st)))\<rparr>\<rparr>;
                  st = st\<lparr>time := tv\<rparr>
              in st\<lparr>lbolt := cdiv (tv_usec (time st)) usechz\<rparr>)"

definition gettimeofday :: "'a kst_scheme \<Rightarrow> 'a kst_scheme" where
  "gettimeofday st =
     (let st = (if uarg st 0 \<noteq> 0
                then let atv = (time st)\<lparr>tv_usec := s32 (lbolt st * usechz)\<rparr>;
                         (e, st) = copyoutw (tv_words atv) (uarg st 0) st
                     in set_error e st
                else st)
      in if uarg st 0 \<noteq> 0 \<and> u_error (uu st) \<noteq> 0 then st
         else if uarg st 1 \<noteq> 0
         then let (e, st) = copyoutw [of_int (tz_minuteswest (tz st)), of_int (tz_dsttime (tz st))] (uarg st 1) st
              in set_error e st
         else st)"

definition settimeofday :: "'a kst_scheme \<Rightarrow> 'a kst_scheme" where
  "settimeofday st =
     (let (stop, st) =
        (if uarg st 0 \<noteq> 0
         then let (e, ws) = copyinw (uarg st 0) 2 st;
                  st = set_error e st
              in if e \<noteq> 0 then (True, st)
                 else let st = setthetime (tv_of ws) st in (u_error (uu st) \<noteq> 0, st)
         else (False, st))
      in if stop \<or> uarg st 1 = 0 then st
         else let (ok, st) = suser st
              in if \<not> ok then st
                 else let (e, ws) = copyinw (uarg st 1) 2 st;
                          st = set_error e st
                      in if e = 0
                         then st\<lparr>tz := \<lparr>tz_minuteswest = sint (ws ! 0), tz_dsttime = sint (ws ! 1)\<rparr>\<rparr>
                         else st)"

text \<open>The loop \<open>while (lbolt >= hz)\<close> of \<open>adjtime\<close>: the new \<open>lbolt\<close> and seconds.\<close>

function adj_carry :: "int \<Rightarrow> int \<Rightarrow> int \<times> int" where
  "adj_carry lb sec = (if lb \<ge> hz then adj_carry (lb - hz) (sec + 1) else (lb, sec))"
  by pat_completeness auto
termination
  by (relation "measure (\<lambda>(lb, sec). nat lb)") auto

declare adj_carry.simps [simp del]

definition adjtime :: "'a kst_scheme \<Rightarrow> 'a kst_scheme" where
  "adjtime st =
     (let (ok, st) = suser st
      in if \<not> ok then st
         else let (e, ws) = copyinw (uarg st 0) 2 st;
                  st = set_error e st;
                  atv = tv_of ws
              in if e \<noteq> 0 then st
                 else let adjust = s32 (tv_sec atv * hz + cdiv (tv_usec atv) usechz);
                          (old, st) =
                            (if adjust > 0x7fff \<or> adjust < 0x8000
                             then let (lb, sec) = adj_carry (lbolt st + cdiv (tv_usec atv) usechz) (tv_sec (time st) + tv_sec atv)
                                  in (\<lparr>tv_sec = 0, tv_usec = 0\<rparr>, st\<lparr>lbolt := lb, time := (time st)\<lparr>tv_sec := s32 sec\<rparr>\<rparr>)
                             else (\<lparr>tv_sec = cdiv (adjdelta st) hz, tv_usec = cmod (adjdelta st) hz * usechz\<rparr>,
                                   st\<lparr>adjdelta := adjust\<rparr>))
                      in if uarg st 1 = 0 then st
                         else let (e, st) = copyoutw (tv_words old) (uarg st 1) st in set_error e st)"

subsection \<open>Interval timers\<close>

text \<open>\<open>struct itimerval\<close> in user memory is the interval followed by the value, two words each.\<close>

definition getitimer :: "'a kst_scheme \<Rightarrow> 'a kst_scheme" where
  "getitimer st =
     (if uarg st 0 > of_nat ITIMER_PROF then set_error EINVAL st
      else let which = unat (uarg st 0);
               (interval, val) =
                 (if which = ITIMER_REAL
                  then let t = p_of st p_realtimer (curproc st) in (it_interval t, it_value t)
                  else let t = u_timer (uu st) (which - 1) in (cdiv (it_interval t) hz, cdiv (it_value t) hz));
               (e, st) = copyoutw [of_int interval, 0, of_int val, 0] (uarg st 1) st
           in set_error e st)"

definition setitimer :: "'a kst_scheme \<Rightarrow> 'a kst_scheme" where
  "setitimer st =
     (if uarg st 0 > of_nat ITIMER_PROF then set_error EINVAL st
      else let aitvp = uarg st 1;
               st = (if uarg st 2 \<noteq> 0 then getitimer (set_arg 1 (uarg st 2) st) else st)
           in if aitvp = 0 then st
              else let (e, ws) = copyinw aitvp 4 st;
                       st = set_error e st
                   in if e \<noteq> 0 then st
                      else let isec = sint (ws ! 0); iusec = ws ! 1; vsec = sint (ws ! 2); vusec = ws ! 3;
                               which = unat (uarg st 0)
                           in if which = ITIMER_REAL
                              then updp (curproc st) (\<lambda>p. p\<lparr>p_realtimer :=
                                     \<lparr>it_interval = (if iusec \<noteq> 0 then s32 (isec + 1) else isec),
                                      it_value = (if vusec \<noteq> 0 then s32 (vsec + 1) else vsec)\<rparr>\<rparr>) st
                              else updu (\<lambda>u. u\<lparr>u_timer := (u_timer u)(which - 1 :=
                                     \<lparr>it_interval = (if iusec \<noteq> 0 then s32 (s32 (isec * hz) + hz) else s32 (isec * hz)),
                                      it_value = (if vusec \<noteq> 0 then s32 (s32 (vsec * hz) + hz) else s32 (vsec * hz))\<rparr>)\<rparr>) st)"

definition itimerfix :: "timeval \<Rightarrow> int \<times> timeval" where
  "itimerfix tv =
     (if tv_sec tv < 0 \<or> tv_sec tv > 100000000 \<or> tv_usec tv < 0 \<or> tv_usec tv \<ge> 1000000 then (EINVAL, tv)
      else if tv_sec tv = 0 \<and> tv_usec tv \<noteq> 0 \<and> tv_usec tv < cdiv 1000 hz then (0, tv\<lparr>tv_usec := cdiv 1000 hz\<rparr>)
      else (0, tv))"

definition tvfix :: "timeval \<Rightarrow> timeval" where
  "tvfix t1 =
     (let t1 = (if tv_usec t1 < 0 then \<lparr>tv_sec = s32 (tv_sec t1 - 1), tv_usec = s32 (tv_usec t1 + 1000000)\<rparr> else t1)
      in if tv_usec t1 \<ge> 1000000 then \<lparr>tv_sec = s32 (tv_sec t1 + 1), tv_usec = s32 (tv_usec t1 - 1000000)\<rparr> else t1)"

definition timevaladd :: "timeval \<Rightarrow> timeval \<Rightarrow> timeval" where
  "timevaladd t1 t2 = tvfix \<lparr>tv_sec = s32 (tv_sec t1 + tv_sec t2), tv_usec = s32 (tv_usec t1 + tv_usec t2)\<rparr>"

subsection \<open>Helpers of the clock\<close>

definition profil :: "'a kst_scheme \<Rightarrow> 'a kst_scheme" where
  "profil st = updu (\<lambda>u. u\<lparr>u_prof := \<lparr>pr_base = uarg st 0, pr_size = uarg st 1, pr_off = uarg st 2, pr_scale = uarg st 3\<rparr>\<rparr>) st"

definition hzto :: "timeval \<Rightarrow> 'a kst_scheme \<Rightarrow> int" where
  "hzto tv st =
     (let sec = s32 (tv_sec tv - tv_sec (time st))
      in if sec \<le> cdiv 0x7fffffff 1000 - 1000
         then cdiv (s32 (s32 ((tv_sec tv - tv_sec (time st)) * 1000) + cdiv (tv_usec tv - tv_usec (time st)) 1000)) (cdiv 1000 hz)
         else if sec \<le> cdiv 0x7fffffff hz then sec * hz
         else 0x7fffffff)"

subsection \<open>Arithmetic of times\<close>

definition normal :: "timeval \<Rightarrow> bool" where
  "normal t \<longleftrightarrow> 0 \<le> tv_usec t \<and> tv_usec t < 1000000"

definition usecs :: "timeval \<Rightarrow> int" where
  "usecs t = tv_sec t * 1000000 + tv_usec t"

lemma timevaladd_parts:
  assumes "normal t1" and "normal t2" and "-2147483648 \<le> tv_sec t1 + tv_sec t2" and "tv_sec t1 + tv_sec t2 < 2147483647"
  shows "timevaladd t1 t2 = (if tv_usec t1 + tv_usec t2 \<ge> 1000000
    then \<lparr>tv_sec = tv_sec t1 + tv_sec t2 + 1, tv_usec = tv_usec t1 + tv_usec t2 - 1000000\<rparr>
    else \<lparr>tv_sec = tv_sec t1 + tv_sec t2, tv_usec = tv_usec t1 + tv_usec t2\<rparr>)"
  using assms by (simp add: timevaladd_def tvfix_def normal_def s32_id)

lemma cdiv_neg: "a < 0 \<Longrightarrow> 0 < b \<Longrightarrow> cdiv a b = - ((- a) div b)"
  by (simp add: cdiv_def)

lemma div_bounds: "0 < b \<Longrightarrow> x div b * b \<le> x" "0 < b \<Longrightarrow> x < x div b * b + b" for x b :: int
  using pos_mod_bound [of b x] pos_mod_sign [of b x] div_mult_mod_eq [of x b] by linarith+

lemma adj_carry_spec: "0 \<le> lb \<Longrightarrow> adj_carry lb sec = (lb mod hz, sec + lb div hz)"
proof (induction lb sec rule: adj_carry.induct)
  case (1 lb sec)
  show ?case
  proof (cases "lb \<ge> hz")
    case True
    then have "adj_carry lb sec = ((lb - hz) mod hz, sec + 1 + (lb - hz) div hz)"
      using 1 by (subst adj_carry.simps) simp
    also have "(lb - hz) mod hz = lb mod hz" by simp
    also have "(lb - hz) div hz = lb div hz - 1" by simp
    finally show ?thesis by simp
  next
    case False
    with 1 show ?thesis by (subst adj_carry.simps) simp
  qed
qed

subsection \<open>Properties\<close>



text \<open>C38: \<open>adjtime\<close> never slews the clock: its test for values that do not fit,
  \<open>adjust > 0x7fff || adjust < 0x8000\<close>, is always true, so that it steps the clock at once
  and never stores an adjustment for \<open>hardclock\<close> to work off.\<close>

theorem adjtime_steps:
  "adjdelta (adjtime st) = adjdelta st
   \<and> (u_uid (uu st) = 0 \<longrightarrow> (\<forall>s u. copyinw (uarg st 0) 2 st = (0, [of_int s, of_int u])
        \<and> -1000000 \<le> s \<and> s \<le> 1000000 \<and> 0 \<le> u \<and> u < 1000000 \<and> 0 \<le> lbolt st \<and> lbolt st < hz
        \<and> -1000000000 \<le> tv_sec (time st) \<and> tv_sec (time st) \<le> 1000000000
      \<longrightarrow> tv_sec (time (adjtime st)) * hz + lbolt (adjtime st) = tv_sec (time st) * hz + lbolt st + s * hz + u div usechz))"
proof (intro conjI impI allI; (elim conjE)?)
  have always: "a > 0x7fff \<or> a < 0x8000" for a :: int by linarith
  show "adjdelta (adjtime st) = adjdelta st"
    unfolding adjtime_def suser_def Let_def
    by (auto simp: always case_prod_unfold copyoutw_def set_error_def Let_def)
  fix s u :: int
  assume a: "u_uid (uu st) = 0" "copyinw (uarg st 0) 2 st = (0, [of_int s, of_int u])" "-1000000 \<le> s" "s \<le> 1000000"
    "0 \<le> u" "u < 1000000" "0 \<le> lbolt st" "lbolt st < hz" "-1000000000 \<le> tv_sec (time st)" "tv_sec (time st) \<le> 1000000000"
  have si: "sint (of_int s :: u32) = s" "sint (of_int u :: u32) = u"
    using a(3-6) by (simp_all add: sint_sbintrunc' signed_take_bit_int_eq_self)
  define lb where "lb = lbolt st + u div usechz"
  have lb: "0 \<le> lb" "lb < 400" using a(5-8) div_bounds [of 5000 u] by (simp_all add: lb_def pos_imp_zdiv_nonneg_iff)
  define sec where "sec = tv_sec (time st) + s + lb div hz"
  have sec: "s32 sec = sec" using a lb div_bounds [of 200 lb] by (intro s32_id) (simp_all add: sec_def)
  have "lbolt (adjtime st) = lb mod hz" "tv_sec (time (adjtime st)) = s32 sec"
    using a(1,2) lb(1) unfolding adjtime_def suser_def Let_def
    by (simp_all add: always tv_of_def si cdiv_nonneg [OF a(5)] adj_carry_spec lb_def [symmetric] sec_def case_prod_unfold copyoutw_def set_error_def Let_def)
  moreover have "lb div hz * hz + lb mod hz = lb" by simp
  ultimately show "tv_sec (time (adjtime st)) * hz + lbolt (adjtime st) = tv_sec (time st) * hz + lbolt st + s * hz + u div usechz"
    unfolding sec by (simp add: sec_def lb_def algebra_simps)
qed

theorem adjtime_steps_witness:
  "tv_sec (time (adjtime (set_arg 0 0x7f008000 (kst0\<lparr>umem := (\<lambda>_. 0)(0x7f008000 := 7)\<rparr>)))) * hz
     + lbolt (adjtime (set_arg 0 0x7f008000 (kst0\<lparr>umem := (\<lambda>_. 0)(0x7f008000 := 7)\<rparr>))) = 7 * hz"
proof -
  let ?st = "set_arg 0 0x7f008000 (kst0\<lparr>umem := (\<lambda>_. 0)(0x7f008000 := 7)\<rparr>)"
  have c: "copyinw (uarg ?st 0) 2 ?st = (0, [of_int 7, of_int 0])"
    by (simp add: copyinw_def copyin_obj_def baduaddr_def mload_def upt_conv_Cons)
  have z: "u_uid (uu ?st) = 0" "lbolt ?st = 0" "tv_sec (time ?st) = 0" by (simp_all add: boot_defs set_arg_def updu_def)
  show ?thesis
    using adjtime_steps [of ?st, THEN conjunct2, rule_format, OF z(1), of 7 0] c unfolding z by simp
qed

text \<open>An interval timer that is set and read back is the one set, rounded up to whole seconds,
  for each of the three timers, although the real-time timer counts seconds and the
  other two count clock ticks.\<close>

theorem itimer_round_trip:
  assumes "which \<le> ITIMER_PROF" and "copyinw a 4 st = (0, [of_int i, iu, of_int v, vu])" and "a \<noteq> 0"
    and "0 \<le> i" and "i < 10737417" and "0 \<le> v" and "v < 10737417"
    and "\<not> baduaddr b" and "\<not> baduaddr (b + 16 - 1)"
  shows "\<exists>st2. getitimer (set_arg 1 b (setitimer (set_arg 2 0 (set_arg 1 a (set_arg 0 (of_nat which) st))))) = st2
    \<and> u_error (uu st2) = 0
    \<and> copyinw b 4 st2 = (0, [of_int (i + (if iu \<noteq> 0 then 1 else 0)), 0, of_int (v + (if vu \<noteq> 0 then 1 else 0)), 0])"
proof -
  let ?up = "\<lambda>x u. x + (if u \<noteq> (0 :: u32) then 1 else 0) :: int"
  let ?ws = "[of_int (?up i iu), 0, of_int (?up v vu), 0] :: u32 list"
  define st0 where "st0 = set_arg 2 0 (set_arg 1 a (set_arg 0 (of_nat which) st))"
  define st1 where "st1 = set_arg 1 b (setitimer st0)"
  have w: "unat (of_nat which :: u32) = which" "\<not> 2 < (of_nat which :: u32)"
    using assms(1) by (simp_all add: unat_of_nat32 word_less_nat_alt)
  have si: "sint (of_int i :: u32) = i" "sint (of_int v :: u32) = v"
    using assms(4-7) by (simp_all add: sint_sbintrunc' signed_take_bit_int_eq_self)
  have a0: "uarg st0 0 = of_nat which" "uarg st0 1 = a" "uarg st0 2 = 0" by (simp_all add: st0_def)
  have "copyinw a 4 st0 = (0, [of_int i, iu, of_int v, vu])" using assms(2) by (simp add: st0_def copyinw_def)
  note set = this a0
  have hz: "s32 (x * hz) = x * hz" "s32 (x * hz + hz) = (x + 1) * hz" "s32 (x + 1) = x + 1" "cdiv (x * hz) hz = x" "cdiv ((x + 1) * hz) hz = x + 1"
    if "0 \<le> x" "x < 10737417" for x using that by (simp_all add: s32_id cdiv_nonneg)
  obtain e st2 where e: "copyoutw ?ws b st1 = (e, st2)" by fastforce
  then have e0: "e = 0" using assms(8,9) by (auto simp: copyoutw_def copyout_obj_def Let_def split: if_splits)
  have args: "uarg st1 0 = of_nat which" "uarg st1 1 = b"
    using set assms(3) w by (simp_all add: st1_def setitimer_def Let_def updp_def uarg_def) 
  have "getitimer st1 = set_error e st2"
  proof (cases "which = ITIMER_REAL")
    case True
    then have "p_of st1 p_realtimer (curproc st1) = \<lparr>it_interval = ?up i iu, it_value = ?up v vu\<rparr>"
      using set assms(3-7) by (simp add: st1_def setitimer_def Let_def si hz)
    with True args e show ?thesis by (simp add: getitimer_def)
  next
    case False
    then have "u_timer (uu st1) (which - 1) = \<lparr>it_interval = ?up i iu * hz, it_value = ?up v vu * hz\<rparr>"
      using set assms(3-7) w by (simp add: st1_def setitimer_def Let_def si hz)
    moreover have "cdiv (?up i iu * hz) hz = ?up i iu" "cdiv (?up v vu * hz) hz = ?up v vu" using hz assms(4-7) by simp_all
    ultimately show ?thesis using False args e w by (simp add: getitimer_def)
  qed
  moreover have "copyinw b 4 (set_error e st2) = copyinw b 4 st2" by (simp add: copyinw_def)
  moreover have "copyinw b (length ?ws) st2 = (0, ?ws)" by (rule copyoutw_copyinw [OF e [unfolded e0]]) simp
  ultimately show ?thesis unfolding st0_def [symmetric] st1_def [symmetric] e0 by (simp add: eval_nat_numeral)
qed

theorem itimer_round_trip_witness:
  "\<exists>st2. getitimer (set_arg 1 0x7f009000 (setitimer (set_arg 2 0 (set_arg 1 0x7f008000 (set_arg 0 (of_nat 1) (kst0\<lparr>umem := (\<lambda>_. 0)(0x7f008004 := 9)\<rparr>)))))) = st2
    \<and> u_error (uu st2) = 0 \<and> copyinw 0x7f009000 4 st2 = (0, [1, 0, 0, 0])"
proof -
  have "copyinw 0x7f008000 4 (kst0\<lparr>umem := (\<lambda>_. 0)(0x7f008004 := 9)\<rparr>) = (0, [of_int 0, 9, of_int 0, 0])"
    by (simp add: copyinw_def copyin_obj_def baduaddr_def mload_def upt_conv_Cons)
  then show ?thesis
    using itimer_round_trip [of 1 "0x7f008000" "kst0\<lparr>umem := (\<lambda>_. 0)(0x7f008004 := 9)\<rparr>" 0 9 0 0 "0x7f009000"]
    by (simp add: baduaddr_def)
qed


end
