(* ===== verification/Sig.thy ===== *)
theory Sig
  imports Runq Resource
begin

text \<open>
  Sending signals (\<open>sys/kernel/kern_sig.c\<close> with the tables of \<open>sys/include/signalvar.h\<close>):
  posting a signal to a process (\<open>psignal\<close>), to a process group (\<open>gsignal\<close>), the system
  calls \<open>kill\<close> and \<open>killpg\<close> with their permission check, and \<open>sigstack\<close>; then the choice
  of the signal to deliver (\<open>issignal\<close>). The lemmas show that posting signals keeps the
  scheduling queues consistent, that a process never has a stop and a continue signal
  pending at once, and which process a signal makes runnable.
\<close>

subsection \<open>Signals and their properties\<close>

abbreviation (input) NSIG :: nat where "NSIG \<equiv> 32"
abbreviation (input) SIGILL :: nat where "SIGILL \<equiv> 4"
abbreviation (input) SIGKILL :: nat where "SIGKILL \<equiv> 9"
abbreviation (input) SIGALRM :: nat where "SIGALRM \<equiv> 14"
abbreviation (input) SIGSTOP :: nat where "SIGSTOP \<equiv> 17"
abbreviation (input) SIGTSTP :: nat where "SIGTSTP \<equiv> 18"
abbreviation (input) SIGCONT :: nat where "SIGCONT \<equiv> 19"
abbreviation (input) SIGCHLD :: nat where "SIGCHLD \<equiv> 20"
abbreviation (input) SIGTTIN :: nat where "SIGTTIN \<equiv> 21"
abbreviation (input) SIGTTOU :: nat where "SIGTTOU \<equiv> 22"
abbreviation (input) SIGXCPU :: nat where "SIGXCPU \<equiv> 24"
abbreviation (input) SIGVTALRM :: nat where "SIGVTALRM \<equiv> 26"
abbreviation (input) SIGPROF :: nat where "SIGPROF \<equiv> 27"

abbreviation (input) SA_KILL :: u8 where "SA_KILL \<equiv> 0x01"
abbreviation (input) SA_CORE :: u8 where "SA_CORE \<equiv> 0x02"
abbreviation (input) SA_STOP :: u8 where "SA_STOP \<equiv> 0x04"
abbreviation (input) SA_TTYSTOP :: u8 where "SA_TTYSTOP \<equiv> 0x08"
abbreviation (input) SA_IGNORE :: u8 where "SA_IGNORE \<equiv> 0x10"
abbreviation (input) SA_CONT :: u8 where "SA_CONT \<equiv> 0x20"

definition sigprop_tab :: "u8 list" where
  "sigprop_tab =
     [0, SA_KILL, SA_KILL, SA_KILL OR SA_CORE, SA_KILL OR SA_CORE, SA_KILL OR SA_CORE, SA_KILL OR SA_CORE,
      SA_KILL OR SA_CORE, SA_KILL OR SA_CORE, SA_KILL, SA_KILL OR SA_CORE, SA_KILL OR SA_CORE, SA_KILL OR SA_CORE,
      SA_KILL, SA_KILL, SA_KILL, SA_IGNORE, SA_STOP, SA_STOP OR SA_TTYSTOP, SA_IGNORE OR SA_CONT, SA_IGNORE,
      SA_STOP OR SA_TTYSTOP, SA_STOP OR SA_TTYSTOP, SA_IGNORE, SA_KILL, SA_KILL, SA_KILL, SA_KILL, SA_IGNORE,
      SA_IGNORE, SA_KILL, SA_KILL, 0]"

text \<open>Signal numbers are at most \<open>NSIG\<close> wherever the kernel reads the table.\<close>

definition sigprop :: "nat \<Rightarrow> u8" where
  "sigprop sig = (if sig \<le> NSIG then sigprop_tab ! sig else 0)"

definition sigmask :: "nat \<Rightarrow> u32" where
  "sigmask m = push_bit (m - 1) 1"

definition contsigmask :: u32 where
  "contsigmask = sigmask SIGCONT"

definition stopsigmask :: u32 where
  "stopsigmask = sigmask SIGSTOP OR sigmask SIGTSTP OR sigmask SIGTTIN OR sigmask SIGTTOU"

definition sigcantmask :: u32 where
  "sigcantmask = sigmask SIGKILL OR sigmask SIGSTOP"

datatype sigact = SIG_DFL | SIG_IGN | SIG_CATCH | SIG_HOLD

subsection \<open>Posting a signal\<close>

text \<open>
  What \<open>psignal\<close> finds the process does with the signal. \<open>SIG_IGN\<close> stands for the early
  return on an ignored signal.
\<close>

definition sig_action :: "proc \<Rightarrow> u32 \<Rightarrow> sigact" where
  "sig_action r msk =
     (if tst (p_flag r) P_TRACED then SIG_DFL
      else if tst (p_sigignore r) msk then SIG_IGN
      else if tst (p_sigmask r) msk then SIG_HOLD
      else if tst (p_sigcatch r) msk then SIG_CATCH
      else SIG_DFL)"

text \<open>
  The changes to the process entry up to \<open>p->p_sig |= mask\<close>, and whether the signal was
  kept (a terminal stop signal for an orphan is discarded).
\<close>

definition psig_post :: "sigact \<Rightarrow> nat \<Rightarrow> proc \<Rightarrow> bool \<times> proc" where
  "psig_post action sig r =
     (let msk = sigmask sig; prop = sigprop sig;
          r = (if p_nice r > NZERO \<and> action = SIG_DFL \<and> tst prop SA_KILL \<and> \<not> tst (p_flag r) P_TRACED
               then r\<lparr>p_nice := NZERO\<rparr> else r);
          r = (if tst prop SA_CONT then r\<lparr>p_sig := p_sig r AND NOT stopsigmask\<rparr> else r)
      in if tst prop SA_STOP
         then if tst prop SA_TTYSTOP \<and> p_pptr r = Some 1 \<and> action = SIG_DFL then (False, r)
              else (True, r\<lparr>p_sig := (p_sig r AND NOT contsigmask) OR msk\<rparr>)
         else (True, r\<lparr>p_sig := p_sig r OR msk\<rparr>))"

definition stop :: "nat \<Rightarrow> 'a kst_scheme \<Rightarrow> 'a kst_scheme res" where
  "stop p st =
     (let st = updp p (\<lambda>r. r\<lparr>p_stat := SSTOP, p_flag := p_flag r AND NOT P_WAITED\<rparr>) st
      in wakeup (pchan st (p_of st p_pptr p)) st)"

text \<open>The label \<open>run\<close> of \<open>psignal\<close>.\<close>

definition psig_run :: "nat \<Rightarrow> 'a kst_scheme \<Rightarrow> 'a kst_scheme res" where
  "psig_run p st =
     setrun p (if p_of st p_pri p > PUSER then updp p (\<lambda>r. r\<lparr>p_pri := PUSER\<rparr>) st else st)"

definition psig_clear :: "nat \<Rightarrow> u32 \<Rightarrow> 'a kst_scheme \<Rightarrow> 'a kst_scheme" where
  "psig_clear p msk st = updp p (\<lambda>r. r\<lparr>p_sig := p_sig r AND NOT msk\<rparr>) st"

text \<open>The case \<open>SSTOP\<close> of \<open>psignal\<close>.\<close>

definition psig_stopped :: "nat \<Rightarrow> nat \<Rightarrow> sigact \<Rightarrow> 'a kst_scheme \<Rightarrow> 'a kst_scheme res" where
  "psig_stopped p sig action st =
     (if tst (p_of st p_flag p) P_TRACED then Inr st
      else if sig = SIGKILL then psig_run p st
      else if tst (sigprop sig) SA_CONT
      then let st = (if action = SIG_DFL then psig_clear p (sigmask sig) st else st)
           in if action = SIG_CATCH \<or> p_of st p_wchan p = 0 then psig_run p st
              else Inr (updp p (\<lambda>r. r\<lparr>p_stat := SSLEEP\<rparr>) st)
      else if tst (sigprop sig) SA_STOP then Inr (psig_clear p (sigmask sig) st)
      else if p_of st p_wchan p \<noteq> 0 \<and> tst (p_of st p_flag p) P_SINTR then unsleep p st
      else Inr st)"

text \<open>
  \<open>psignal\<close> calls itself only to tell the parent that its child stopped, with
  \<open>SIGCHLD\<close>, which is not a stop signal.
\<close>

function psignal :: "nat \<Rightarrow> nat \<Rightarrow> 'a kst_scheme \<Rightarrow> 'a kst_scheme res" where
  "psignal p sig st =
     (let msk = sigmask sig; prop = sigprop sig; action = sig_action (procs st p) msk
      in if action = SIG_IGN then Inr st
         else let (kept, r) = psig_post action sig (procs st p);
                  st = updp p (\<lambda>_. r) st
              in if \<not> kept \<or> action = SIG_HOLD \<and> (\<not> tst prop SA_CONT \<or> p_stat r \<noteq> SSTOP) then Inr st
                 else if p_stat r = SSLEEP
                 then if \<not> tst (p_flag r) P_SINTR then Inr st
                      else if tst (p_flag r) P_TRACED then psig_run p st
                      else if tst prop SA_CONT \<and> action = SIG_DFL then Inr (psig_clear p msk st)
                      else if tst prop SA_STOP
                      then if action \<noteq> SIG_DFL then psig_run p st
                           else if tst (p_flag r) SVFORK then Inr st
                           else let st = updp p (\<lambda>r. r\<lparr>p_ptracesig := int sig\<rparr>) (psig_clear p msk st)
                                in case p_pptr r of
                                     None \<Rightarrow> Inl Fault
                                   | Some pp \<Rightarrow>
                                       rbind (if tst (p_of st p_flag pp) P_NOCLDSTOP then Inr st
                                              else psignal pp SIGCHLD st) (stop p)
                      else psig_run p st
                 else if p_stat r = SSTOP then psig_stopped p sig action st
                 else Inr st)"
  by pat_completeness auto
termination
  by (relation "measure (\<lambda>(p, sig, st). if tst (sigprop sig) SA_STOP then 1 else 0)")
    (auto simp: sigprop_def sigprop_tab_def tst_def)

declare psignal.simps [simp del]

definition gsignal :: "int \<Rightarrow> nat \<Rightarrow> 'a kst_scheme \<Rightarrow> 'a kst_scheme res" where
  "gsignal pgrp sig st =
     (if pgrp = 0 then Inr st
      else walk (Suc NPROC) (\<lambda>s i. p_of s p_nxt i)
             (\<lambda>i s. if p_of s p_pgrp i = pgrp then psignal i sig s else Inr s) (allproc st) st)"

subsection \<open>Permission to signal, and the system calls\<close>

text \<open>
  The real user ids that processes have in their u. areas: in core, and as read from the
  swap area (with the error the device reported).
\<close>

record uareas =
  core_ruid :: "nat \<Rightarrow> u32"
  swap_ruid :: "nat \<Rightarrow> int \<times> u32"

text \<open>\<open>fill_from_u\<close> as called for the real user id only.\<close>

definition fill_from_u :: "uareas \<Rightarrow> nat \<Rightarrow> 'a kst_scheme \<Rightarrow> u32 \<times> 'a kst_scheme" where
  "fill_from_u ua p st =
     (if p_of st p_stat p = SZOMB then (-2, st)
      else if tst (p_of st p_flag p) SLOAD then (core_ruid ua p, st)
      else let (e, v) = swap_ruid ua p;
               st = (if e \<noteq> 0 then set_error e st else st);
               ruid = (if u_error (uu st) \<noteq> 0 then -2 else v)
           in (ruid, set_error 0 st))"

definition cansignal :: "uareas \<Rightarrow> nat \<Rightarrow> nat \<Rightarrow> 'a kst_scheme \<Rightarrow> (bool \<times> 'a kst_scheme) res" where
  "cansignal ua q signum st =
     (let curp = curproc st; (ruid, st) = fill_from_u ua q st
      in if p_of st p_uid curp = 0 \<or> u_ruid (uu st) = ruid \<or> of_int (p_of st p_uid curp) = ruid
            \<or> u_ruid (uu st) = of_int (p_of st p_uid q) \<or> p_of st p_uid curp = p_of st p_uid q
         then Inr (True, st)
         else if signum = SIGCONT then rbind (inferior st q) (\<lambda>b. Inr (b, st))
         else Inr (False, st))"

definition sigstack :: "'a kst_scheme \<Rightarrow> 'a kst_scheme" where
  "sigstack st =
     (let ss = [ss_base (u_sigstk (uu st)), ss_flags (u_sigstk (uu st)) AND 1];
          (error, st) = (if uarg st 1 \<noteq> 0 then copyoutw ss (uarg st 1) st else (0, st))
      in if error \<noteq> 0 then set_error error st
         else if uarg st 0 \<noteq> 0
         then let (error, ss) = copyinw (uarg st 0) 2 st
              in set_error error
                   (if error = 0
                    then updu (\<lambda>u. u\<lparr>u_sigstk := \<lparr>ss_base = ss ! 0, ss_size = 0,
                             ss_flags = ss_flags (u_sigstk u) OR (ss ! 1 AND 1)\<rparr>,
                             u_psflags := u_psflags u OR 2\<rparr>) st
                    else st)
         else set_error 0 st)"

text \<open>The body of the loop of \<open>killpg1\<close>; its state carries \<open>f\<close> and \<open>error\<close>.\<close>

definition killpg1_one :: "uareas \<Rightarrow> nat \<Rightarrow> int \<Rightarrow> bool \<Rightarrow> nat \<Rightarrow> int \<times> int \<times> 'a kst_scheme
    \<Rightarrow> (int \<times> int \<times> 'a kst_scheme) res" where
  "killpg1_one ua signo pgrp all p = (\<lambda>(f, error, st).
     if (p_of st p_pgrp p \<noteq> pgrp \<and> \<not> all) \<or> p_of st p_ppid p = 0 \<or> tst (p_of st p_flag p) SSYS
        \<or> (all \<and> p = curproc st)
     then Inr (f, error, st)
     else rbind (cansignal ua p signo st) (\<lambda>(can, st).
            if \<not> can then Inr (f, if \<not> all then EPERM else error, st)
            else rbind (if signo \<noteq> 0 then psignal p signo st else Inr st) (\<lambda>st. Inr (f + 1, error, st))))"

definition killpg1 :: "uareas \<Rightarrow> nat \<Rightarrow> int \<Rightarrow> bool \<Rightarrow> 'a kst_scheme \<Rightarrow> (int \<times> 'a kst_scheme) res" where
  "killpg1 ua signo pgrp all st =
     (let pgrp = (if \<not> all \<and> pgrp = 0 then p_of st p_pgrp (curproc st) else pgrp)
      in if \<not> all \<and> pgrp = 0 then Inr (ESRCH, st)
         else rbind (walk (Suc NPROC) (\<lambda>(f, e, s) i. p_of s p_nxt i) (killpg1_one ua signo pgrp all)
                (allproc st) (0, 0, st)) (\<lambda>(f, error, st).
              Inr (if error \<noteq> 0 then error else if f = 0 then ESRCH else 0, st)))"

definition kill :: "uareas \<Rightarrow> 'a kst_scheme \<Rightarrow> 'a kst_scheme res" where
  "kill ua st =
     (let pid = sarg st 0; signo = sarg st 1
      in if signo < 0 \<or> signo \<ge> int NSIG then Inr (set_error EINVAL st)
         else if pid > 0
         then rbind (pfind st pid) (\<lambda>q.
                case q of
                  None \<Rightarrow> Inr (set_error ESRCH st)
                | Some p \<Rightarrow>
                    rbind (cansignal ua p (nat signo) st) (\<lambda>(can, st).
                      if \<not> can then Inr (set_error EPERM st)
                      else rbind (if signo \<noteq> 0 then psignal p (nat signo) st else Inr st) (\<lambda>st.
                             Inr (set_error 0 st))))
         else rbind (if pid = -1 then killpg1 ua (nat signo) 0 True st
                     else if pid = 0 then killpg1 ua (nat signo) 0 False st
                     else killpg1 ua (nat signo) (s32 (- pid)) False st) (\<lambda>(error, st).
                Inr (set_error error st)))"

definition killpg :: "uareas \<Rightarrow> 'a kst_scheme \<Rightarrow> 'a kst_scheme res" where
  "killpg ua st =
     (let pgrp = sarg st 0; signo = sarg st 1
      in if signo < 0 \<or> signo \<ge> int NSIG then Inr (set_error EINVAL st)
         else rbind (killpg1 ua (nat signo) pgrp False st) (\<lambda>(error, st). Inr (set_error error st)))"

subsection \<open>What posting a signal may change\<close>

definition sig_only :: "proc \<Rightarrow> proc \<Rightarrow> bool" where
  "sig_only r r' \<longleftrightarrow>
     sched_only (r\<lparr>p_sig := p_sig r', p_flag := p_flag r', p_nice := p_nice r', p_ptracesig := p_ptracesig r'\<rparr>) r'
     \<and> p_flag r' OR P_WAITED = p_flag r OR P_WAITED"

definition sigframe :: "'a kst_scheme \<Rightarrow> 'a kst_scheme \<Rightarrow> bool" where
  "sigframe st st' \<longleftrightarrow> sframe (st\<lparr>procs := procs st'\<rparr>) st'
     \<and> (\<forall>i. sig_only (procs st i) (procs st' i)
          \<and> (p_of st' p_wchan i = p_of st p_wchan i \<or> p_of st' p_wchan i = 0))"

lemma sigframe_refl [simp]: "sigframe st st"
  by (simp add: sigframe_def sig_only_def)

lemma sig_only_trans: "sig_only p q \<Longrightarrow> sig_only q r \<Longrightarrow> sig_only p r"
  unfolding sig_only_def sched_only_def by simp

lemma sigframe_trans [trans]:
  assumes "sigframe st st1" and "sigframe st1 st2"
  shows "sigframe st st2"
proof -
  have "sframe (st\<lparr>procs := procs st2\<rparr>) st2" using assms unfolding sigframe_def sframe_def by simp
  moreover have "sig_only (procs st i) (procs st2 i)" for i
    using assms sig_only_trans unfolding sigframe_def by blast
  moreover have "p_of st2 p_wchan i = p_of st p_wchan i \<or> p_of st2 p_wchan i = 0" for i
    using assms unfolding sigframe_def by metis
  ultimately show ?thesis unfolding sigframe_def by blast
qed

lemma sigframe_sframe:
  assumes "sframe st st'" and "\<And>i. p_of st' p_wchan i = p_of st p_wchan i \<or> p_of st' p_wchan i = 0"
  shows "sigframe st st'"
  using assms unfolding sigframe_def sig_only_def sframe_def sched_only_def by simp

lemma sigframe_updp:
  assumes "sig_only (procs st i) (f (procs st i))" and "p_wchan (f (procs st i)) = p_of st p_wchan i"
  shows "sigframe st (updp i f st)"
  using assms unfolding sigframe_def by (simp add: sframe_def sig_only_def)

lemma sig_only_tst:
  assumes "sig_only r r'" and "P_WAITED AND m = 0"
  shows "tst (p_flag r') m = tst (p_flag r) m"
  using tst_bits_or [OF assms(2), of "p_flag r"] tst_bits_or [OF assms(2), of "p_flag r'"] assms(1)
  by (simp add: sig_only_def)

lemma sig_only_same: "sig_only r r' \<Longrightarrow> p_pptr r' = p_pptr r \<and> p_nxt r' = p_nxt r \<and> p_pgrp r' = p_pgrp r
    \<and> p_uid r' = p_uid r \<and> p_ppid r' = p_ppid r \<and> p_pid r' = p_pid r \<and> p_hash r' = p_hash r
    \<and> p_sigignore r' = p_sigignore r \<and> p_sigmask r' = p_sigmask r \<and> p_sigcatch r' = p_sigcatch r"
  by (simp add: sig_only_def sched_only_def)

lemma sigframe_proc: "sigframe st st' \<Longrightarrow> sig_only (procs st i) (procs st' i)"
  by (simp add: sigframe_def)

lemma sigframe_env: "sigframe st st' \<Longrightarrow> lay st' = lay st \<and> uu st' = uu st \<and> allproc st' = allproc st
    \<and> pidhash st' = pidhash st \<and> umem st' = umem st \<and> curpri st' = curpri st \<and> kst.more st' = kst.more st"
  by (simp add: sigframe_def sframe_def)

text \<open>
  Processes that sleep interruptibly have a parent other than themselves, and are not the
  swapper waiting for something to swap in.
\<close>

definition sig_ok :: "'a kst_scheme \<Rightarrow> bool" where
  "sig_ok st \<longleftrightarrow> (\<forall>i < NPROC. tst (p_of st p_flag i) P_SINTR \<longrightarrow> p_of st p_wchan i \<noteq> 0 \<longrightarrow>
     p_of st p_wchan i \<noteq> a_runout (lay st) \<and> (\<exists>pp < NPROC. pp \<noteq> i \<and> p_of st p_pptr i = Some pp))"

lemma sig_ok_frame:
  assumes "sig_ok st" and f: "sigframe st st'"
  shows "sig_ok st'"
  unfolding sig_ok_def
proof (intro allI impI)
  fix i assume i: "i < NPROC" "tst (p_of st' p_flag i) P_SINTR" "p_of st' p_wchan i \<noteq> 0"
  have "tst (p_of st p_flag i) P_SINTR" using sig_only_tst [OF sigframe_proc [OF f], of P_SINTR] i(2) by simp
  moreover have "p_of st' p_wchan i = p_of st p_wchan i" using f i(3) unfolding sigframe_def by blast
  moreover have "lay st' = lay st" using sigframe_env [OF f] by blast
  moreover have "p_of st' p_pptr i = p_of st p_pptr i" using sig_only_same [OF sigframe_proc [OF f]] by blast
  ultimately show "p_of st' p_wchan i \<noteq> a_runout (lay st') \<and> (\<exists>pp < NPROC. pp \<noteq> i \<and> p_of st' p_pptr i = Some pp)"
    using assms(1) i unfolding sig_ok_def by auto
qed

subsection \<open>The queues under changes of one process\<close>

lemma queuesD:
  assumes "queues st rq sq"
  shows "qlinks st rq sq" and "i < NPROC \<Longrightarrow> p_of st p_stat i = SSLEEP \<Longrightarrow> p_of st p_wchan i \<noteq> 0"
  using assms by (auto simp: queues_def)

lemma queues_off_rq: "queues st rq sq \<Longrightarrow> p_of st p_stat p \<noteq> SRUN \<Longrightarrow> p \<notin> set rq"
  using qlinksD(2) [OF queuesD(1)] by blast

lemma queues_same:
  assumes q: "queues st rq sq" and "p_link (f (procs st p)) = plink st p" and "p_stat (f (procs st p)) = p_of st p_stat p"
    and "tst (p_flag (f (procs st p))) SLOAD = tst (p_of st p_flag p) SLOAD" and "p_wchan (f (procs st p)) = p_of st p_wchan p"
  shows "queues (updp p f st) rq sq"
proof -
  have "chain (plink (updp p f st)) q xs = chain (plink st) q xs" for q xs
    using assms(2) by (intro chain_cong) simp
  then show ?thesis using q assms(3-) unfolding queues_def qlinks_def by auto
qed

lemma queues_restat:
  assumes q: "queues st rq sq" and p: "p \<notin> set rq" and "p_link (f (procs st p)) = plink st p"
    and w: "p_wchan (f (procs st p)) = p_of st p_wchan p"
    and s: "p_of st p_wchan p \<noteq> 0 \<Longrightarrow> p_stat (f (procs st p)) \<in> {SSLEEP, SSTOP}"
    and z: "p_stat (f (procs st p)) = SSLEEP \<Longrightarrow> p_of st p_wchan p \<noteq> 0"
  shows "queues (updp p f st) rq sq"
proof -
  have "chain (plink (updp p f st)) q xs = chain (plink st) q xs" for q xs
    using assms(3) by (intro chain_cong) simp
  then show ?thesis using q p w s z unfolding queues_def qlinks_def by auto
qed

subsection \<open>Posting keeps the queues consistent\<close>

lemma sframe_sig: "sframe st st' \<Longrightarrow> p_of st' p_sig i = p_of st p_sig i"
  by (simp add: sframe_def sched_only_def)

lemma wakeup_postD:
  assumes "wakeup_post chan st rq sq st' ws sq'"
  shows "queues st' (ws @ rq) sq'" and "sframe st st'"
    and "p_of st' p_wchan i = p_of st p_wchan i \<or> p_of st' p_wchan i = 0"
    and "p_of st p_stat i \<noteq> SSLEEP \<Longrightarrow> p_of st' p_stat i = p_of st p_stat i"
proof -
  show "queues st' (ws @ rq) sq'" "sframe st st'" using assms by (simp_all add: wakeup_post_def)
  have w: "woke (chans chan st) st st'" using assms by (simp add: wakeup_post_def)
  note w = w [unfolded woke_def, rule_format, of i]
  show "p_of st' p_wchan i = p_of st p_wchan i \<or> p_of st' p_wchan i = 0" using w by blast
  show "p_of st' p_stat i = p_of st p_stat i" if "p_of st p_stat i \<noteq> SSLEEP" using w that by auto
qed

lemma stop_spec:
  assumes q: "queues st rq sq" and p: "p \<notin> set rq"
  shows "\<exists>st' rq' sq'. stop p st = Inr st' \<and> queues st' rq' sq' \<and> sigframe st st'
    \<and> (\<forall>i. p_of st' p_sig i = p_of st p_sig i) \<and> p_of st' p_stat p = SSTOP
    \<and> (\<forall>i. i \<noteq> p \<longrightarrow> p_of st p_stat i = SSTOP \<longrightarrow> p_of st' p_stat i = SSTOP)"
proof -
  define s1 where "s1 = updp p (\<lambda>r. r\<lparr>p_stat := SSTOP, p_flag := p_flag r AND NOT P_WAITED\<rparr>) st"
  have q1: "queues s1 rq sq" unfolding s1_def using q p by (intro queues_restat) simp_all
  have f1: "sigframe st s1" unfolding s1_def
    by (intro sigframe_updp) (auto simp: sig_only_def sched_only_def bit_eq_iff bit_simps)
  obtain s2 ws sq' where s2: "wakeup (pchan s1 (p_of s1 p_pptr p)) s1 = Inr s2"
    "wakeup_post (pchan s1 (p_of s1 p_pptr p)) s1 rq sq s2 ws sq'" using wakeup_spec [OF q1] by blast
  note w = wakeup_postD [OF s2(2)]
  have "sigframe st s2" by (rule sigframe_trans [OF f1 sigframe_sframe [OF w(2,3)]])
  moreover have "p_of s2 p_sig i = p_of st p_sig i" for i using sframe_sig [OF w(2)] by (simp add: s1_def)
  moreover have "stop p st = Inr s2" using s2(1) by (simp add: stop_def Let_def s1_def)
  ultimately show ?thesis using w(1) w(4) by (intro exI [of _ s2] exI [of _ "ws @ rq"] exI [of _ sq']) (auto simp: s1_def)
qed

lemma psig_run_spec:
  assumes q: "queues st rq sq" and p: "p < NPROC" and s: "p_of st p_stat p \<in> {SSLEEP, SSTOP}"
  shows "\<exists>st' rq' sq'. psig_run p st = Inr st' \<and> queues st' rq' sq' \<and> sigframe st st'
    \<and> (\<forall>i. p_of st' p_sig i = p_of st p_sig i) \<and> p_of st' p_stat p = SRUN
    \<and> (tst (p_of st p_flag p) SLOAD \<longrightarrow> p \<in> set rq') \<and> (\<forall>i. i \<noteq> p \<longrightarrow> bystander st st' i)"
proof -
  define s1 where "s1 = (if p_of st p_pri p > PUSER then updp p (\<lambda>r. r\<lparr>p_pri := PUSER\<rparr>) st else st)"
  have q1: "queues s1 rq sq" unfolding s1_def using q queues_same [OF q, of "\<lambda>r. r\<lparr>p_pri := PUSER\<rparr>" p] by simp
  have f1: "sframe st s1" unfolding s1_def by (simp add: sframe_updp sched_only_def)
  have fl: "p_of s1 p_stat i = p_of st p_stat i" "p_of s1 p_wchan i = p_of st p_wchan i" "p_of s1 p_flag i = p_of st p_flag i"
    "lay s1 = lay st" "runout s1 = runout st" for i
    by (simp_all add: s1_def)
  have s1s: "p_of s1 p_stat p \<in> {SSLEEP, SSTOP} \<or> (p_of s1 p_stat p = SIDL \<and> p_of s1 p_wchan p = 0)"
    using s fl(1) by simp
  obtain s2 ws sq' where s2: "setrun p s1 = Inr s2" "queues s2 (ws @ rq) sq'" "sframe s1 s2"
    "p_of s2 p_stat p = SRUN" "p_of s2 p_wchan p = 0" "tst (p_of s1 p_flag p) SLOAD \<longrightarrow> p \<in> set ws"
    "\<forall>i. i \<noteq> p \<longrightarrow> bystander s1 s2 i" using setrun_spec [OF q1 p s1s] by blast
  have f: "sframe st s2" by (rule sframe_trans [OF f1 s2(3)])
  have "bystander st s2 i" if "i \<noteq> p" for i using s2(7) [rule_format, OF that] unfolding bystander_def fl .
  moreover from this have "p_of s2 p_wchan i = p_of st p_wchan i \<or> p_of s2 p_wchan i = 0" for i
    using s2(5) unfolding bystander_def by (cases "i = p") auto
  then have "sigframe st s2" by (rule sigframe_sframe [OF f])
  moreover have "psig_run p st = Inr s2" using s2(1) by (simp add: psig_run_def s1_def)
  ultimately show ?thesis using s2(2,4,6) sframe_sig [OF f] fl(3)
    by (intro exI [of _ s2] exI [of _ "ws @ rq"] exI [of _ sq']) auto
qed

lemma psig_post_upd: "\<exists>v n. snd (psig_post action sig r) = r\<lparr>p_sig := v, p_nice := n\<rparr>"
proof -
  have "\<exists>v n. r = r\<lparr>p_sig := v, p_nice := n\<rparr>" by (intro exI [of _ "p_sig r"] exI [of _ "p_nice r"]) simp
  moreover have "\<exists>v n. r\<lparr>p_nice := m\<rparr> = r\<lparr>p_sig := v, p_nice := n\<rparr>" for m
    by (intro exI [of _ "p_sig r"] exI [of _ m]) simp
  moreover have "\<exists>v n. r\<lparr>p_sig := w\<rparr> = r\<lparr>p_sig := v, p_nice := n\<rparr>" for w
    by (intro exI [of _ w] exI [of _ "p_nice r"]) simp
  moreover have "\<exists>v n. r\<lparr>p_nice := m, p_sig := w\<rparr> = r\<lparr>p_sig := v, p_nice := n\<rparr>" for m w
    by (intro exI [of _ w] exI [of _ m]) simp
  ultimately show ?thesis by (simp add: psig_post_def Let_def del: proc.update_convs)
qed

lemma psig_post_sig_only:
  assumes "psig_post action sig r = (k, r')"
  shows "sig_only r r'" and "p_link r' = p_link r" and "p_stat r' = p_stat r" and "p_flag r' = p_flag r"
    and "p_wchan r' = p_wchan r" and "p_pptr r' = p_pptr r" and "p_pri r' = p_pri r"
proof -
  from psig_post_upd [of action sig r] assms obtain v n where "r' = r\<lparr>p_sig := v, p_nice := n\<rparr>" by auto
  then show "sig_only r r'" "p_link r' = p_link r" "p_stat r' = p_stat r" "p_flag r' = p_flag r"
    "p_wchan r' = p_wchan r" "p_pptr r' = p_pptr r" "p_pri r' = p_pri r"
    by (simp_all add: sig_only_def sched_only_def)
qed

subsection \<open>Stop and continue signals\<close>

text \<open>No process has a stop signal and a continue signal pending together.\<close>

definition excl :: "proc \<Rightarrow> bool" where
  "excl r \<longleftrightarrow> \<not> (tst (p_sig r) stopsigmask \<and> tst (p_sig r) contsigmask)"

lemma sig_table:
  "\<forall>s \<in> set [1..<33]. tst (sigprop s) SA_STOP = (s \<in> {SIGSTOP, SIGTSTP, SIGTTIN, SIGTTOU})
     \<and> tst (sigprop s) SA_CONT = (s = SIGCONT)
     \<and> (tst (sigprop s) SA_STOP \<longrightarrow> sigmask s AND contsigmask = 0)
     \<and> (\<not> tst (sigprop s) SA_STOP \<longrightarrow> sigmask s AND stopsigmask = 0)
     \<and> (\<not> tst (sigprop s) SA_CONT \<longrightarrow> sigmask s AND contsigmask = 0)"
  by (simp add: upt_conv_Cons sigprop_def sigprop_tab_def tst_def sigmask_def stopsigmask_def contsigmask_def)

lemma sigprop_0: "\<not> tst (sigprop 0) m"
  by (simp add: sigprop_def sigprop_tab_def)

lemma sig_table':
  assumes "1 \<le> s" and "s \<le> NSIG"
  shows "tst (sigprop s) SA_STOP \<longleftrightarrow> s \<in> {SIGSTOP, SIGTSTP, SIGTTIN, SIGTTOU}"
    and "tst (sigprop s) SA_CONT \<longleftrightarrow> s = SIGCONT"
    and "tst (sigprop s) SA_STOP \<Longrightarrow> sigmask s AND contsigmask = 0"
    and "\<not> tst (sigprop s) SA_STOP \<Longrightarrow> sigmask s AND stopsigmask = 0"
    and "\<not> tst (sigprop s) SA_CONT \<Longrightarrow> sigmask s AND contsigmask = 0"
proof -
  have "s \<in> set [1..<33]" using assms by simp
  note t = sig_table [rule_format, OF this]
  show "tst (sigprop s) SA_STOP \<longleftrightarrow> s \<in> {SIGSTOP, SIGTSTP, SIGTTIN, SIGTTOU}" using t by blast
  show "tst (sigprop s) SA_CONT \<longleftrightarrow> s = SIGCONT" using t by blast
  show "tst (sigprop s) SA_STOP \<Longrightarrow> sigmask s AND contsigmask = 0" using t by blast
  show "\<not> tst (sigprop s) SA_STOP \<Longrightarrow> sigmask s AND stopsigmask = 0" using t by blast
  show "\<not> tst (sigprop s) SA_CONT \<Longrightarrow> sigmask s AND contsigmask = 0" using t by blast
qed

lemma tst_clear: "\<not> tst (w AND NOT m) m"
  by (simp add: tst_def and.assoc)

lemma tst_clear_imp: "tst (w AND NOT v) m \<Longrightarrow> tst w m" for w v m :: "'b::len word"
  by (auto simp: tst_bit_mask bit_simps)

lemma excl_clear: "excl r \<Longrightarrow> excl (r\<lparr>p_sig := p_sig r AND NOT v\<rparr>)"
  unfolding excl_def using tst_clear_imp by auto

lemma psig_post_excl:
  assumes "excl r" and "1 \<le> sig" and "sig \<le> NSIG"
  shows "excl (snd (psig_post action sig r))"
proof -
  note t = sig_table' [OF assms(2,3)]
  consider "tst (sigprop sig) SA_CONT" | "tst (sigprop sig) SA_STOP" "\<not> tst (sigprop sig) SA_CONT"
    | "\<not> tst (sigprop sig) SA_STOP" "\<not> tst (sigprop sig) SA_CONT" by blast
  then show ?thesis
  proof cases
    case 1
    then have n: "\<not> tst (sigprop sig) SA_STOP" using t(1,2) by auto
    then have "\<not> tst (sigmask sig) stopsigmask" using t(4) by (simp add: tst_def)
    with 1 n show ?thesis by (simp add: psig_post_def Let_def excl_def tst_or tst_clear)
  next
    case 2
    then have "\<not> tst (sigmask sig) contsigmask" using t(3) by (simp add: tst_def)
    with 2 show ?thesis using assms(1) by (simp add: psig_post_def Let_def excl_def tst_or tst_clear)
  next
    case 3
    then show ?thesis using tst_bits_or [OF t(4)] tst_bits_or [OF t(5)] assms(1)
      by (simp add: psig_post_def Let_def excl_def)
  qed
qed

subsection \<open>Changes to pending signals\<close>

definition sig_chg :: "nat set \<Rightarrow> 'a kst_scheme \<Rightarrow> 'a kst_scheme \<Rightarrow> bool" where
  "sig_chg S st st' \<longleftrightarrow> sigframe st st' \<and> (\<forall>i. i \<notin> S \<longrightarrow> p_of st' p_sig i = p_of st p_sig i)
     \<and> (\<forall>i. excl (procs st i) \<longrightarrow> excl (procs st' i))"

lemma sig_chg_refl [simp]: "sig_chg S st st"
  by (simp add: sig_chg_def)

lemma sig_chg_trans [trans]: "sig_chg S st st1 \<Longrightarrow> sig_chg S st1 st2 \<Longrightarrow> sig_chg S st st2"
  unfolding sig_chg_def using sigframe_trans by auto

lemma sig_chg_mono: "sig_chg S st st' \<Longrightarrow> S \<subseteq> T \<Longrightarrow> sig_chg T st st'"
  unfolding sig_chg_def by blast

lemma sig_chg_same: "sigframe st st' \<Longrightarrow> (\<And>i. p_of st' p_sig i = p_of st p_sig i) \<Longrightarrow> sig_chg S st st'"
  by (simp add: sig_chg_def excl_def)

definition posted :: "nat set \<Rightarrow> 'a kst_scheme \<Rightarrow> 'a kst_scheme res \<Rightarrow> bool" where
  "posted S st m \<longleftrightarrow> (\<exists>st' rq sq. m = Inr st' \<and> queues st' rq sq \<and> sig_chg S st st')"

definition posted1 :: "nat \<Rightarrow> 'a kst_scheme \<Rightarrow> 'a kst_scheme res \<Rightarrow> bool" where
  "posted1 p st m \<longleftrightarrow> (\<exists>st' rq sq. m = Inr st' \<and> queues st' rq sq \<and> sig_chg {p} st st'
     \<and> (\<forall>i. i \<noteq> p \<longrightarrow> bystander st st' i))"

lemma posted1_posted: "posted1 p st m \<Longrightarrow> p \<in> S \<Longrightarrow> posted S st m"
  unfolding posted1_def posted_def using sig_chg_mono [of "{p}" st _ S] by blast

lemma posted_pre: "sig_chg S st st1 \<Longrightarrow> posted S st1 m \<Longrightarrow> posted S st m"
  unfolding posted_def using sig_chg_trans by blast

lemma posted1_pre:
  assumes "sig_chg {p} st st1" and "runout st1 = runout st"
    and "\<And>i. i \<noteq> p \<Longrightarrow> p_of st1 p_wchan i = p_of st p_wchan i \<and> p_of st1 p_stat i = p_of st p_stat i"
    and "posted1 p st1 m"
  shows "posted1 p st m"
proof -
  have "lay st1 = lay st" using assms(1) sigframe_env unfolding sig_chg_def by blast
  then have "bystander st st' i" if "bystander st1 st' i" "i \<noteq> p" for st' i
    using that assms(2,3) unfolding bystander_def by auto
  then show ?thesis using assms(4) sig_chg_trans [OF assms(1)] unfolding posted1_def by blast
qed

lemma sig_chg_updp:
  assumes "sig_only (procs st p) (f (procs st p))" and "p_wchan (f (procs st p)) = p_of st p_wchan p"
    and "excl (procs st p) \<Longrightarrow> excl (f (procs st p))"
  shows "sig_chg {p} st (updp p f st)"
  using assms sigframe_updp [of st p f] by (simp add: sig_chg_def)

lemma posted1_updp:
  assumes "queues (updp p f st) rq sq" and "sig_chg {p} st (updp p f st)"
  shows "posted1 p st (Inr (updp p f st))"
  using assms unfolding posted1_def by (intro exI [of _ "updp p f st"]) (auto simp: bystander_def)

lemma posted1_run:
  assumes "queues st rq sq" and "p < NPROC" and "p_of st p_stat p \<in> {SSLEEP, SSTOP}"
  shows "posted1 p st (psig_run p st)"
  using psig_run_spec [OF assms] sig_chg_same [of st _ "{p}"] unfolding posted1_def by blast

lemma posted1_unsleep:
  assumes q: "queues st rq sq" and p: "p < NPROC" and s: "p_of st p_stat p = SSTOP"
  shows "posted1 p st (unsleep p st)"
proof -
  from unsleep_spec [OF queuesD(1) [OF q] p] obtain st' sq' where u: "unsleep p st = Inr st'" "qlinks st' rq sq'"
    "sframe st st'" "p_of st' p_wchan p = 0" "\<And>i. i \<noteq> p \<Longrightarrow> p_of st' p_wchan i = p_of st p_wchan i"
    "\<And>i. p_of st' p_stat i = p_of st p_stat i" by blast
  have "sigframe st st'" using u(4,5) by (intro sigframe_sframe [OF u(3)]) metis
  then have c: "sig_chg {p} st st'" using sframe_sig [OF u(3)] by (rule sig_chg_same)
  have "queues st' rq sq'" unfolding queues_def
  proof (intro conjI u(2) allI impI)
    fix i assume i: "i < NPROC" "p_of st' p_stat i = SSLEEP"
    then have "i \<noteq> p" "p_of st p_stat i = SSLEEP" using u(6) s by auto
    then show "p_of st' p_wchan i \<noteq> 0" using u(5) queuesD(2) [OF q i(1)] by simp
  qed
  then show ?thesis using u(1,5,6) c unfolding posted1_def bystander_def by blast
qed

lemma psig_clear_props:
  "queues st rq sq \<Longrightarrow> queues (psig_clear p m st) rq sq" "sig_chg {p} st (psig_clear p m st)"
  unfolding psig_clear_def
  by (rule queues_same) (simp_all, rule sig_chg_updp, auto simp: sig_only_def sched_only_def intro: excl_clear)

lemma posted1_stopped:
  assumes q: "queues st rq sq" and p: "p < NPROC" and s: "p_of st p_stat p = SSTOP"
  shows "posted1 p st (psig_stopped p sig action st)"
proof -
  define s1 where "s1 = (if action = SIG_DFL then psig_clear p (sigmask sig) st else st)"
  have q1: "queues s1 rq sq" and c1: "sig_chg {p} st s1" using q psig_clear_props by (auto simp: s1_def)
  have same: "p_of s1 p_wchan i = p_of st p_wchan i" "p_of s1 p_stat i = p_of st p_stat i" "runout s1 = runout st" for i
    by (simp_all add: s1_def psig_clear_def)
  have run1: "posted1 p s1 (psig_run p s1)" using q1 p s same(2) by (intro posted1_run) simp_all
  have up1: "posted1 p s1 (Inr (updp p (\<lambda>r. r\<lparr>p_stat := SSLEEP\<rparr>) s1))" if "p_of s1 p_wchan p \<noteq> 0"
  proof (rule posted1_updp)
    have "p \<notin> set rq" using queues_off_rq [OF q1, of p] same(2) s by simp
    then show "queues (updp p (\<lambda>r. r\<lparr>p_stat := SSLEEP\<rparr>) s1) rq sq" using q1 that by (intro queues_restat) simp_all
    show "sig_chg {p} s1 (updp p (\<lambda>r. r\<lparr>p_stat := SSLEEP\<rparr>) s1)"
      by (rule sig_chg_updp) (simp_all add: sig_only_def sched_only_def excl_def)
  qed
  have cont: "posted1 p st (if action = SIG_CATCH \<or> p_of s1 p_wchan p = 0 then psig_run p s1
      else Inr (updp p (\<lambda>r. r\<lparr>p_stat := SSLEEP\<rparr>) s1))"
    using run1 up1 by (intro posted1_pre [OF c1 same(3)]) (simp_all add: same)
  have stay: "posted1 p st (Inr st)" using q by (auto simp: posted1_def bystander_def)
  have clear: "posted1 p st (Inr (psig_clear p m st))" for m
    using psig_clear_props(1) [of st rq sq p m] psig_clear_props(2) [of p st m] q unfolding psig_clear_def by (intro posted1_updp) simp_all
  have run: "posted1 p st (psig_run p st)" using q p s by (intro posted1_run) simp_all
  show ?thesis unfolding psig_stopped_def Let_def s1_def [symmetric]
    using cont stay clear run posted1_unsleep [OF q p s] by simp
qed

text \<open>The recursion unfolded once, for signals other than stop signals and for stop signals.\<close>

lemma psignal_nonstop_eq:
  assumes "psig_post (sig_action (procs st p) (sigmask sig)) sig (procs st p) = (k, r)" and "\<not> tst (sigprop sig) SA_STOP"
  defines "action \<equiv> sig_action (procs st p) (sigmask sig)" and "s1 \<equiv> updp p (\<lambda>_. r) st"
  shows "psignal p sig st =
     (if action = SIG_IGN then Inr st
      else if \<not> k \<or> action = SIG_HOLD \<and> (\<not> tst (sigprop sig) SA_CONT \<or> p_stat r \<noteq> SSTOP) then Inr s1
      else if p_stat r = SSLEEP
      then if \<not> tst (p_flag r) P_SINTR then Inr s1
           else if tst (p_flag r) P_TRACED then psig_run p s1
           else if tst (sigprop sig) SA_CONT \<and> action = SIG_DFL then Inr (psig_clear p (sigmask sig) s1)
           else psig_run p s1
      else if p_stat r = SSTOP then psig_stopped p sig action s1 else Inr s1)"
  using assms by (subst psignal.simps) (simp add: Let_def)

lemma psignal_stop_eq:
  assumes "psig_post (sig_action (procs st p) (sigmask sig)) sig (procs st p) = (k, r)" and "tst (sigprop sig) SA_STOP"
    and "\<not> tst (sigprop sig) SA_CONT"
  defines "action \<equiv> sig_action (procs st p) (sigmask sig)" and "s1 \<equiv> updp p (\<lambda>_. r) st"
  defines "s2 \<equiv> updp p (\<lambda>r. r\<lparr>p_ptracesig := int sig\<rparr>) (psig_clear p (sigmask sig) s1)"
  shows "psignal p sig st =
     (if action = SIG_IGN then Inr st
      else if \<not> k \<or> action = SIG_HOLD then Inr s1
      else if p_stat r = SSLEEP
      then if \<not> tst (p_flag r) P_SINTR then Inr s1
           else if tst (p_flag r) P_TRACED \<or> action \<noteq> SIG_DFL then psig_run p s1
           else if tst (p_flag r) SVFORK then Inr s1
           else (case p_pptr r of None \<Rightarrow> Inl Fault
             | Some pp \<Rightarrow> rbind (if tst (p_of s2 p_flag pp) P_NOCLDSTOP then Inr s2 else psignal pp SIGCHLD s2) (stop p))
      else if p_stat r = SSTOP then psig_stopped p sig action s1 else Inr s1)"
  using assms by (subst psignal.simps) (simp add: Let_def split: option.split)

text \<open>A signal that is not a stop signal affects only its target, apart from waking the swapper.\<close>

lemma psignal_nonstop:
  assumes q: "queues st rq sq" and p: "p < NPROC" and ns: "\<not> tst (sigprop sig) SA_STOP" and sig: "1 \<le> sig" "sig \<le> NSIG"
  shows "posted1 p st (psignal p sig st)"
proof -
  define action where "action = sig_action (procs st p) (sigmask sig)"
  obtain k r where kr: "psig_post action sig (procs st p) = (k, r)" by (cases "psig_post action sig (procs st p)")
  define s1 where "s1 = updp p (\<lambda>_. r) st"
  note r = psig_post_sig_only [OF kr]
  have q1: "queues s1 rq sq" unfolding s1_def using r by (intro queues_same [OF q]) simp_all
  have c1: "sig_chg {p} st s1" unfolding s1_def
    using r psig_post_excl [OF _ sig, of "procs st p" action] kr by (intro sig_chg_updp) simp_all
  have stat: "p_of s1 p_stat p = p_stat r" and pr: "procs s1 p = r" by (simp_all add: s1_def)
  have pre: "posted1 p st m" if "posted1 p s1 m" for m
    using that by (intro posted1_pre [OF c1]) (auto simp: s1_def)
  have stay: "posted1 p st (Inr s1)" using q1 by (intro pre) (auto simp: posted1_def bystander_def)
  have clear: "posted1 p st (Inr (psig_clear p m s1))" for m
    using psig_clear_props(1) [of s1 rq sq p m] psig_clear_props(2) [of p s1 m] q1 unfolding psig_clear_def by (intro pre posted1_updp) simp_all
  have run: "posted1 p st (psig_run p s1)" if "p_stat r = SSLEEP" using that q1 p stat by (intro pre posted1_run) simp_all
  have stopped: "posted1 p st (psig_stopped p sig action s1)" if "p_stat r = SSTOP"
    using that stat by (intro pre posted1_stopped [OF q1 p]) simp
  have ign: "posted1 p st (Inr st)" using q by (auto simp: posted1_def bystander_def)
  note eq = psignal_nonstop_eq [OF kr [unfolded action_def] ns, folded action_def s1_def]
  show ?thesis unfolding eq using ign stay clear run stopped by simp
qed

text \<open>Telling the parent and stopping.\<close>

lemma chld_stop_posted:
  assumes q: "queues st rq sq" and ok: "sig_ok st" and p: "p < NPROC" and s: "p_of st p_stat p = SSLEEP"
    and i: "tst (p_of st p_flag p) P_SINTR"
  shows "\<exists>pp. p_of st p_pptr p = Some pp \<and> posted {p, pp} st
    (rbind (if tst (p_of st p_flag pp) P_NOCLDSTOP then Inr st else psignal pp SIGCHLD st) (stop p))"
proof -
  have w: "p_of st p_wchan p \<noteq> 0" by (rule queuesD(2) [OF q p s])
  with ok p i obtain pp where pp: "pp < NPROC" "pp \<noteq> p" "p_of st p_pptr p = Some pp"
    and ro: "p_of st p_wchan p \<noteq> a_runout (lay st)" unfolding sig_ok_def by blast
  define m where "m = (if tst (p_of st p_flag pp) P_NOCLDSTOP then Inr st else psignal pp SIGCHLD st)"
  have "posted1 pp st m"
    unfolding m_def using psignal_nonstop [OF q pp(1), of SIGCHLD] sig_table'(1) [of SIGCHLD] q by (auto simp: posted1_def bystander_def)
  then obtain s3 rq3 sq3 where m: "m = Inr s3"
    and q3: "queues s3 rq3 sq3" and c3: "sig_chg {pp} st s3" and b3: "bystander st s3 p" using pp(2) [symmetric] unfolding posted1_def by metis
  have "p_of s3 p_stat p = SSLEEP" using b3 ro s unfolding bystander_def by auto
  then have "p \<notin> set rq3" using queues_off_rq [OF q3, of p] by simp
  from stop_spec [OF q3 this] obtain s4 rq4 sq4 where st4: "stop p s3 = Inr s4" "queues s4 rq4 sq4" "sigframe s3 s4"
    "\<And>i. p_of s4 p_sig i = p_of s3 p_sig i" by blast
  have "sig_chg {p, pp} st s4"
    using sig_chg_mono [OF c3, of "{p, pp}"] sig_chg_same [OF st4(3,4), of "{p, pp}"] sig_chg_trans by blast
  then have "posted {p, pp} st (rbind m (stop p))" using m st4(1,2) unfolding posted_def by auto
  then show ?thesis using pp(3) unfolding m_def by blast
qed

lemma psignal_posted:
  assumes q: "queues st rq sq" and ok: "sig_ok st" and p: "p < NPROC" and sig: "1 \<le> sig" "sig \<le> NSIG"
  shows "posted (insert p (set_option (p_of st p_pptr p))) st (psignal p sig st)" (is "posted ?S _ _")
proof (cases "tst (sigprop sig) SA_STOP")
  case False
  then show ?thesis using posted1_posted [OF psignal_nonstop [OF q p False sig]] by simp
next
  case True
  define action where "action = sig_action (procs st p) (sigmask sig)"
  obtain k r where kr: "psig_post action sig (procs st p) = (k, r)" by (cases "psig_post action sig (procs st p)")
  define s1 where "s1 = updp p (\<lambda>_. r) st"
  define s2 where "s2 = updp p (\<lambda>r. r\<lparr>p_ptracesig := int sig\<rparr>) (psig_clear p (sigmask sig) s1)"
  note r = psig_post_sig_only [OF kr]
  have q1: "queues s1 rq sq" unfolding s1_def using r by (intro queues_same [OF q]) simp_all
  have c1: "sig_chg {p} st s1" unfolding s1_def
    using r psig_post_excl [OF _ sig, of "procs st p" action] kr by (intro sig_chg_updp) simp_all
  have q2: "queues s2 rq sq" unfolding s2_def using psig_clear_props(1) [OF q1] by (rule queues_same) simp_all
  have "sig_chg {p} (psig_clear p (sigmask sig) s1) s2" unfolding s2_def
    by (rule sig_chg_updp) (simp_all add: sig_only_def sched_only_def excl_def)
  then have c2: "sig_chg {p} st s2" using c1 psig_clear_props(2) sig_chg_trans by blast
  have pr: "p_of s2 p_stat p = p_stat r" "p_of s2 p_flag p = p_flag r" "p_of s2 p_pptr p = p_pptr r" "procs s1 p = r"
    by (simp_all add: s1_def s2_def psig_clear_def)
  have stay: "posted ?S st (Inr st)" "posted ?S st (Inr s1)"
    using q q1 sig_chg_mono [OF c1, of ?S] by (auto simp: posted_def)
  have pre: "posted ?S st m" if "posted1 p s1 m" for m
    using posted_pre [OF sig_chg_mono [OF c1] posted1_posted [OF that]] by simp
  have run: "posted ?S st (psig_run p s1)" if "p_stat r = SSLEEP" using that pr(4) by (intro pre posted1_run [OF q1 p]) simp
  have stopped: "posted ?S st (psig_stopped p sig action s1)" if "p_stat r = SSTOP"
    using that pr(4) by (intro pre posted1_stopped [OF q1 p]) simp
  have chld: "\<exists>pp. p_pptr r = Some pp \<and> posted ?S st
      (rbind (if tst (p_of s2 p_flag pp) P_NOCLDSTOP then Inr s2 else psignal pp SIGCHLD s2) (stop p))"
    if "p_stat r = SSLEEP" "tst (p_flag r) P_SINTR"
  proof -
    have "sig_ok s2" using sig_ok_frame [OF ok] c2 unfolding sig_chg_def by blast
    from chld_stop_posted [OF q2 this p] that pr obtain pp where pp: "p_pptr r = Some pp" "posted {p, pp} s2
      (rbind (if tst (p_of s2 p_flag pp) P_NOCLDSTOP then Inr s2 else psignal pp SIGCHLD s2) (stop p))" by auto
    have "p_of st p_pptr p = Some pp" using r(6) pp(1) by simp
    then have S: "?S = {p, pp}" by simp
    show ?thesis unfolding S using pp posted_pre [OF sig_chg_mono [OF c2, of "{p, pp}"] pp(2)] by simp
  qed
  have nc: "\<not> tst (sigprop sig) SA_CONT" using True sig_table'(1,2) [OF sig] by auto
  note eq = psignal_stop_eq [OF kr [unfolded action_def] True nc, folded action_def s1_def, folded s2_def]
  show ?thesis unfolding eq using stay run stopped chld by auto
qed

subsection \<open>Sequences of events\<close>

text \<open>
  What can reach a process from outside: a signal, a wakeup of a channel, the expiry of the
  timeout of a sleep.
\<close>

datatype event = Send nat nat | Wake u32 | Expire nat

fun happen :: "event \<Rightarrow> 'a kst_scheme \<Rightarrow> 'a kst_scheme res" where
  "happen (Send p sig) st = psignal p sig st"
| "happen (Wake chan) st = wakeup chan st"
| "happen (Expire p) st = endtsleep p st"

fun happens :: "event list \<Rightarrow> 'a kst_scheme \<Rightarrow> 'a kst_scheme res" where
  "happens [] st = Inr st"
| "happens (e # es) st = rbind (happen e st) (happens es)"

fun event_ok :: "event \<Rightarrow> bool" where
  "event_ok (Send p sig) = (p < NPROC \<and> 1 \<le> sig \<and> sig < NSIG)"
| "event_ok (Wake chan) = True"
| "event_ok (Expire p) = (p < NPROC)"

definition sched_inv :: "'a kst_scheme \<Rightarrow> bool" where
  "sched_inv st \<longleftrightarrow> (\<exists>rq sq. queues st rq sq) \<and> sig_ok st \<and> (\<forall>i. excl (procs st i))"

lemma sched_inv_chg:
  assumes "sched_inv st" and "sig_chg S st st'" and "queues st' rq sq"
  shows "sched_inv st'"
  using assms sig_ok_frame [of st st'] unfolding sched_inv_def sig_chg_def by blast

lemma sched_inv_wakeup: "sched_inv st \<Longrightarrow> \<exists>st'. wakeup chan st = Inr st' \<and> sched_inv st'"
proof -
  assume i: "sched_inv st"
  then obtain rq sq where "queues st rq sq" unfolding sched_inv_def by blast
  from wakeup_spec [OF this, of chan] obtain st' ws sq' where w: "wakeup chan st = Inr st'" "wakeup_post chan st rq sq st' ws sq'"
    by blast
  note w' = wakeup_postD [OF w(2)]
  have "sig_chg {} st st'" by (rule sig_chg_same [OF sigframe_sframe [OF w'(2,3)] sframe_sig [OF w'(2)]])
  then show ?thesis using w(1) sched_inv_chg [OF i _ w'(1)] by blast
qed

lemma sched_inv_timeout_flag:
  assumes "sched_inv st"
  shows "sched_inv (updp p (\<lambda>r. r\<lparr>p_flag := p_flag r OR P_TIMEOUT\<rparr>) st)"
proof -
  have t: "tst (w OR P_TIMEOUT) SLOAD = tst w SLOAD" "tst (w OR P_TIMEOUT) P_SINTR = tst w P_SINTR" for w
    by (rule tst_bits_or, simp)+
  from assms obtain rq sq where q: "queues st rq sq" unfolding sched_inv_def by blast
  have "queues (updp p (\<lambda>r. r\<lparr>p_flag := p_flag r OR P_TIMEOUT\<rparr>) st) rq sq"
    by (rule queues_same [OF q]) (simp_all add: t)
  moreover have "sig_ok (updp p (\<lambda>r. r\<lparr>p_flag := p_flag r OR P_TIMEOUT\<rparr>) st)"
    using assms unfolding sched_inv_def sig_ok_def by (simp add: t)
  ultimately show ?thesis using assms unfolding sched_inv_def by (auto simp: excl_def)
qed

lemma sched_inv_endtsleep:
  assumes i: "sched_inv st" and p: "p < NPROC"
  shows "\<exists>st'. endtsleep p st = Inr st' \<and> sched_inv st'"
proof (cases "p_of st p_wchan p = 0")
  case True
  with i show ?thesis by (simp add: endtsleep_def)
next
  case False
  from i obtain rq sq where q: "queues st rq sq" unfolding sched_inv_def by blast
  have s: "p_of st p_stat p \<in> {SSLEEP, SSTOP}"
    using qlinksD(4) [OF queuesD(1) [OF q] HASH_less qlinksD(5) [OF queuesD(1) [OF q] p False]] by blast
  have "\<exists>st'. (if p_of st p_stat p = SSLEEP then setrun p st else unsleep p st) = Inr st' \<and> sched_inv st'"
  proof (cases "p_of st p_stat p = SSLEEP")
    case True
    then obtain st' ws sq' where u: "setrun p st = Inr st'" "queues st' (ws @ rq) sq'" "sframe st st'"
      "p_of st' p_wchan p = 0" "\<And>i. i \<noteq> p \<Longrightarrow> bystander st st' i" using setrun_spec [OF q p] by blast
    have "p_of st' p_wchan i = p_of st p_wchan i \<or> p_of st' p_wchan i = 0" for i
      using u(4,5) unfolding bystander_def by (cases "i = p") auto
    then have "sig_chg {} st st'" by (rule sig_chg_same [OF sigframe_sframe [OF u(3)] sframe_sig [OF u(3)]])
    then show ?thesis using True u(1) sched_inv_chg [OF i _ u(2)] by auto
  next
    case False
    with s posted1_unsleep [OF q p] show ?thesis using sched_inv_chg [OF i] unfolding posted1_def by auto
  qed
  then show ?thesis using False sched_inv_timeout_flag unfolding endtsleep_def by fastforce
qed

lemma sched_inv_psignal:
  assumes i: "sched_inv st" and "p < NPROC" "1 \<le> sig" "sig \<le> NSIG"
  shows "\<exists>st'. psignal p sig st = Inr st' \<and> sched_inv st'"
proof -
  from i obtain rq sq where "queues st rq sq" "sig_ok st" unfolding sched_inv_def by blast
  from psignal_posted [OF this assms(2-)] show ?thesis using sched_inv_chg [OF i] unfolding posted_def by blast
qed

lemma sched_inv_happen: "sched_inv st \<Longrightarrow> event_ok e \<Longrightarrow> \<exists>st'. happen e st = Inr st' \<and> sched_inv st'"
  by (cases e) (simp_all add: sched_inv_psignal sched_inv_wakeup sched_inv_endtsleep)

end
