(* ===== verification/Issig.thy ===== *)
theory Issig
  imports Sig
begin

text \<open>
  The choice of the signal to deliver to the current process (\<open>issignal\<close> of
  \<open>sys/kernel/kern_sig.c\<close> and the macro \<open>CURSIG\<close> of \<open>sys/include/signalvar.h\<close>).
  \<open>issignal\<close> gives up the processor when the process stops, so it is cut there: its result
  says whether it returned, or stopped the process and called \<open>swtch\<close>, and where it goes on
  when the process runs again. The lemmas show that it ends, that it returns the lowest
  pending signal with an action, and that it drops exactly the lower ones without.
\<close>

subsection \<open>Definitions\<close>

text \<open>
  \<open>Iss_ret sig\<close>: return of a signal number. \<open>Iss_stop m\<close>: stopped by a stop signal with
  mask \<open>m\<close>. \<open>Iss_trace\<close>: stopped for the tracing parent.
\<close>

datatype 's iss = Iss_ret nat 's | Iss_stop u32 's | Iss_trace 's

datatype disposition = Take | Drop | Stop

abbreviation (input) SIG_DFL_addr :: u32 where "SIG_DFL_addr \<equiv> 0"
abbreviation (input) SIG_IGN_addr :: u32 where "SIG_IGN_addr \<equiv> 1"

text \<open>The switch on \<open>u.u_signal[sig]\<close>.\<close>

definition iss_dispose :: "nat \<Rightarrow> nat \<Rightarrow> 'a kst_scheme \<Rightarrow> disposition" where
  "iss_dispose p sig st =
     (if u_signal (uu st) sig = SIG_DFL_addr
      then if p_of st p_pid p \<le> 1 then Drop
           else if tst (sigprop sig) SA_STOP
           then if tst (p_of st p_flag p) P_TRACED \<or> (p_of st p_pptr p = Some 1 \<and> tst (sigprop sig) SA_TTYSTOP) then Drop
                else Stop
           else if tst (sigprop sig) SA_IGNORE then Drop
           else Take
      else if u_signal (uu st) sig = SIG_IGN_addr then Drop
      else Take)"

text \<open>Stopping by a stop signal: the parent is told, and the processor given up.\<close>

definition iss_halt :: "nat \<Rightarrow> nat \<Rightarrow> u32 \<Rightarrow> 'a kst_scheme \<Rightarrow> 'a kst_scheme iss res" where
  "iss_halt p sig m st =
     (let st = updp p (\<lambda>r. r\<lparr>p_ptracesig := int sig\<rparr>) st
      in case p_of st p_pptr p of
           None \<Rightarrow> Inl Fault
         | Some pp \<Rightarrow>
             rbind (rbind (if tst (p_of st p_flag pp) P_NOCLDSTOP then Inr st else psignal pp SIGCHLD st) (stop p))
               (\<lambda>st. Inr (Iss_stop m st)))"

definition iss_pending :: "nat \<Rightarrow> 'a kst_scheme \<Rightarrow> u32" where
  "iss_pending p st =
     (let m = p_of st p_sig p AND NOT (p_of st p_sigmask p)
      in if tst (p_of st p_flag p) SVFORK then m AND NOT stopsigmask else m)"

fun issignal_go :: "nat \<Rightarrow> nat \<Rightarrow> 'a kst_scheme \<Rightarrow> 'a kst_scheme iss res" where
  "issignal_go 0 p st = Inl Loop"
| "issignal_go (Suc n) p st =
     (let m = iss_pending p st
      in if m = 0 then Inr (Iss_ret 0 st)
         else let sig = ffs m; m = sigmask sig
              in if tst m (p_of st p_sigignore p) \<and> \<not> tst (p_of st p_flag p) P_TRACED
                 then issignal_go n p (psig_clear p m st)
                 else if tst (p_of st p_flag p) P_TRACED \<and> \<not> tst (p_of st p_flag p) SVFORK
                 then let st = updp p (\<lambda>r. r\<lparr>p_ptracesig := int sig\<rparr>) (psig_clear p m st)
                      in case p_of st p_pptr p of
                           None \<Rightarrow> Inl Fault
                         | Some pp \<Rightarrow> rbind (rbind (psignal pp SIGCHLD st) (stop p)) (\<lambda>st. Inr (Iss_trace st))
                 else case iss_dispose p sig st of
                        Take \<Rightarrow> Inr (Iss_ret sig st)
                      | Stop \<Rightarrow> iss_halt p sig m st
                      | Drop \<Rightarrow> issignal_go n p (psig_clear p m st))"

text \<open>A process has 32 signals, and every round takes one away.\<close>

definition issignal :: "nat \<Rightarrow> 'a kst_scheme \<Rightarrow> 'a kst_scheme iss res" where
  "issignal p st = issignal_go 33 p st"

text \<open>
  How \<open>issignal\<close> goes on when \<open>swtch\<close> returns: after a stop signal with mask \<open>m\<close>; and
  for a traced process, with the value \<open>b\<close> that \<open>procxmt\<close> returned.
\<close>

definition issignal_cont :: "nat \<Rightarrow> u32 \<Rightarrow> 'a kst_scheme \<Rightarrow> 'a kst_scheme iss res" where
  "issignal_cont p m st = issignal p (psig_clear p m st)"

definition issignal_traced :: "nat \<Rightarrow> bool \<Rightarrow> 'a kst_scheme \<Rightarrow> 'a kst_scheme iss res" where
  "issignal_traced p b st =
     (if \<not> b \<and> tst (p_of st p_flag p) P_TRACED then rbind (stop p st) (\<lambda>st. Inr (Iss_trace st))
      else let sig = nat (p_of st p_ptracesig p)
           in if sig = 0 then issignal p st
              else let m = sigmask sig; st = updp p (\<lambda>r. r\<lparr>p_sig := p_sig r OR m\<rparr>) st
                   in if tst (p_of st p_sigmask p) m \<or> \<not> tst (p_of st p_flag p) P_TRACED then issignal p st
                      else case iss_dispose p sig st of
                             Take \<Rightarrow> Inr (Iss_ret sig st)
                           | Stop \<Rightarrow> iss_halt p sig m st
                           | Drop \<Rightarrow> issignal p (psig_clear p m st))"

definition CURSIG :: "nat \<Rightarrow> 'a kst_scheme \<Rightarrow> 'a kst_scheme iss res" where
  "CURSIG p st =
     (if p_of st p_sig p = 0
         \<or> (\<not> tst (p_of st p_flag p) P_TRACED \<and> p_of st p_sig p AND NOT (p_of st p_sigmask p) = 0)
      then Inr (Iss_ret 0 st) else issignal p st)"

subsection \<open>The choice\<close>

declare issignal_go.simps [simp del]

text \<open>A pending signal is passed over if it is ignored or the switch drops it.\<close>

definition passed_over :: "nat \<Rightarrow> 'a kst_scheme \<Rightarrow> nat \<Rightarrow> bool" where
  "passed_over p st sig \<longleftrightarrow> tst (sigmask sig) (p_of st p_sigignore p) \<or> iss_dispose p sig st = Drop"

lemma bit32: "bit (w :: u32) k \<Longrightarrow> k < 32"
  by (drule bit_imp_le_length) simp

lemma bit_sigmask: "bit (sigmask (Suc k)) j \<longleftrightarrow> j = k \<and> k < 32"
  by (auto simp: sigmask_def bit_simps)

lemma iss_pending_bit:
  "bit (iss_pending p st) k \<longleftrightarrow> bit (p_of st p_sig p) k \<and> \<not> bit (p_of st p_sigmask p) k
     \<and> \<not> (tst (p_of st p_flag p) SVFORK \<and> bit stopsigmask k)"
  by (auto simp: iss_pending_def Let_def bit_simps dest: bit32)

lemma psig_clear_same:
  "p_of (psig_clear p m st) p_sigignore q = p_of st p_sigignore q" "p_of (psig_clear p m st) p_flag q = p_of st p_flag q"
  "p_of (psig_clear p m st) p_sigmask q = p_of st p_sigmask q"
  "iss_dispose p sig (psig_clear p m st) = iss_dispose p sig st" "passed_over p (psig_clear p m st) sig = passed_over p st sig"
  by (simp_all add: psig_clear_def iss_dispose_def passed_over_def)

lemma psig_clear_twice: "psig_clear p m (psig_clear p l st) = psig_clear p (m OR l) st"
proof -
  have "(w AND NOT l) AND NOT m = w AND NOT (m OR l)" for w by (intro bit_word_eqI) (auto simp: bit_simps)
  then show ?thesis by (simp add: psig_clear_def)
qed

lemma psig_clear_none: "psig_clear p 0 st = st"
  by (simp add: psig_clear_def updp_def)

lemma iss_pending_clear: "iss_pending p (psig_clear p m st) = iss_pending p st AND NOT m"
  by (intro bit_word_eqI) (auto simp: iss_pending_bit bit_simps, auto simp: psig_clear_def bit_simps)

definition nbits :: "u32 \<Rightarrow> nat" where
  "nbits w = card {k. bit w k}"

lemma bits_finite: "finite {k. bit (w :: u32) k}"
  by (rule finite_subset [of _ "{..<32}"]) (auto dest: bit32)

lemma nbits_less: "nbits w < 33"
proof -
  have "nbits w \<le> card {..<32 :: nat}" unfolding nbits_def by (rule card_mono) (auto dest: bit32)
  then show ?thesis by simp
qed

lemma nbits_clear:
  assumes "bit w k"
  shows "nbits (w AND NOT (sigmask (Suc k))) < nbits w"
proof -
  have "{j. bit (w AND NOT (sigmask (Suc k))) j} = {j. bit w j} - {k}"
    using bit32 [OF assms] by (auto simp: bit_and_iff bit_not_iff bit_sigmask dest: bit32)
  then show ?thesis unfolding nbits_def using bits_finite [of w] assms by (simp only:) (rule card_Diff1_less, auto)
qed

text \<open>
  What \<open>issignal\<close> has done when it has passed over the signals in \<open>c\<close>: either none is left
  and it returns 0, or it acts on the lowest signal that is not passed over.
\<close>

definition chosen :: "nat \<Rightarrow> u32 \<Rightarrow> 'a kst_scheme \<Rightarrow> 'a kst_scheme iss res \<Rightarrow> bool" where
  "chosen p c st res \<longleftrightarrow>
     (\<forall>k. bit c k \<longrightarrow> bit (iss_pending p st) k \<and> passed_over p st (Suc k))
     \<and> (res = Inr (Iss_ret 0 (psig_clear p c st)) \<and> iss_pending p st = c
        \<or> (\<exists>k < 32. bit (iss_pending p st) k \<and> \<not> passed_over p st (Suc k) \<and> (\<forall>j. bit c j \<longleftrightarrow> j < k \<and> bit (iss_pending p st) j)
             \<and> res = (if iss_dispose p (Suc k) st = Take then Inr (Iss_ret (Suc k) (psig_clear p c st))
                      else iss_halt p (Suc k) (sigmask (Suc k)) (psig_clear p c st))))"

lemma chosen_step:
  assumes m: "iss_pending p st \<noteq> 0" and k: "bit (iss_pending p st) k" "\<And>j. j < k \<Longrightarrow> \<not> bit (iss_pending p st) j" "k < 32"
    and pass: "passed_over p st (Suc k)" and c: "chosen p c (psig_clear p (sigmask (Suc k)) st) res"
  shows "chosen p (c OR sigmask (Suc k)) st res"
proof -
  let ?s = "psig_clear p (sigmask (Suc k)) st" and ?c = "c OR sigmask (Suc k)"
  have cb: "bit ?c j \<longleftrightarrow> bit c j \<or> j = k" for j using k(3) by (auto simp: bit_simps bit_sigmask)
  have pb: "bit (iss_pending p ?s) j \<longleftrightarrow> bit (iss_pending p st) j \<and> j \<noteq> k" for j
    using k(3) by (auto simp: iss_pending_clear bit_simps bit_sigmask dest: bit32)
  have sub: "bit (iss_pending p ?s) j \<and> passed_over p st (Suc j)" if "bit c j" for j
    using c that by (auto simp: chosen_def psig_clear_same)
  have A: "\<forall>j. bit ?c j \<longrightarrow> bit (iss_pending p st) j \<and> passed_over p st (Suc j)" using sub pb cb pass k(1) by auto
  have cl: "psig_clear p c ?s = psig_clear p ?c st" by (simp add: psig_clear_twice)
  from c have "res = Inr (Iss_ret 0 (psig_clear p c ?s)) \<and> iss_pending p ?s = c
      \<or> (\<exists>i < 32. bit (iss_pending p ?s) i \<and> \<not> passed_over p ?s (Suc i) \<and> (\<forall>j. bit c j \<longleftrightarrow> j < i \<and> bit (iss_pending p ?s) j)
         \<and> res = (if iss_dispose p (Suc i) ?s = Take then Inr (Iss_ret (Suc i) (psig_clear p c ?s))
                  else iss_halt p (Suc i) (sigmask (Suc i)) (psig_clear p c ?s)))" by (simp add: chosen_def)
  then show ?thesis
  proof
    assume r: "res = Inr (Iss_ret 0 (psig_clear p c ?s)) \<and> iss_pending p ?s = c"
    have "iss_pending p st = ?c" using r pb cb k(1) by (intro bit_word_eqI) auto
    then show ?thesis using A r cl unfolding chosen_def by simp
  next
    assume "\<exists>i < 32. bit (iss_pending p ?s) i \<and> \<not> passed_over p ?s (Suc i) \<and> (\<forall>j. bit c j \<longleftrightarrow> j < i \<and> bit (iss_pending p ?s) j)
         \<and> res = (if iss_dispose p (Suc i) ?s = Take then Inr (Iss_ret (Suc i) (psig_clear p c ?s))
                  else iss_halt p (Suc i) (sigmask (Suc i)) (psig_clear p c ?s))"
    then obtain i where i: "i < 32" "bit (iss_pending p st) i" "i \<noteq> k" "\<not> passed_over p st (Suc i)"
      "\<And>j. bit c j \<longleftrightarrow> j < i \<and> bit (iss_pending p st) j \<and> j \<noteq> k"
      "res = (if iss_dispose p (Suc i) st = Take then Inr (Iss_ret (Suc i) (psig_clear p ?c st))
              else iss_halt p (Suc i) (sigmask (Suc i)) (psig_clear p ?c st))"
      unfolding cl psig_clear_same pb by blast
    have "k < i" using i(2,3) k(2) by (meson linorder_neqE_nat)
    then have "bit ?c j \<longleftrightarrow> j < i \<and> bit (iss_pending p st) j" for j using cb i(5) k(1) by auto
    then show ?thesis using A i unfolding chosen_def by blast
  qed
qed

lemma issignal_go_spec:
  assumes "\<not> tst (p_of st p_flag p) P_TRACED" and "nbits (iss_pending p st) < n"
  shows "\<exists>c. chosen p c st (issignal_go n p st)"
  using assms
proof (induction n arbitrary: st)
  case (Suc n)
  show ?case
  proof (cases "iss_pending p st = 0")
    case True
    then show ?thesis by (intro exI [of _ 0]) (simp add: chosen_def issignal_go.simps psig_clear_none)
  next
    case False
    from ffs_spec [OF this] obtain k where k: "k < 32" "ffs (iss_pending p st) = Suc k" "bit (iss_pending p st) k"
      "\<And>j. j < k \<Longrightarrow> \<not> bit (iss_pending p st) j" by blast
    show ?thesis
    proof (cases "passed_over p st (Suc k)")
      case True
      then have eq: "issignal_go (Suc n) p st = issignal_go n p (psig_clear p (sigmask (Suc k)) st)"
        using False Suc.prems(1) k(2) by (auto simp: issignal_go.simps Let_def passed_over_def)
      have "nbits (iss_pending p (psig_clear p (sigmask (Suc k)) st)) < n"
        using nbits_clear [OF k(3)] Suc.prems(2) by (simp add: iss_pending_clear)
      then obtain c where "chosen p c (psig_clear p (sigmask (Suc k)) st) (issignal_go (Suc n) p st)"
        using Suc.IH [of "psig_clear p (sigmask (Suc k)) st"] Suc.prems(1) unfolding eq psig_clear_same by blast
      then show ?thesis using chosen_step [OF False k(3,4,1) True] by blast
    next
      case np: False
      have eq: "issignal_go (Suc n) p st = (if iss_dispose p (Suc k) st = Take then Inr (Iss_ret (Suc k) st)
          else iss_halt p (Suc k) (sigmask (Suc k)) st)"
        using False Suc.prems(1) k(2) np
        by (auto simp: issignal_go.simps Let_def passed_over_def split: disposition.splits)
      have "chosen p 0 st (issignal_go (Suc n) p st)"
        unfolding chosen_def eq psig_clear_none using k np by (auto intro!: exI [of _ k])
      then show ?thesis by blast
    qed
  qed
qed simp

subsection \<open>Properties\<close>


text \<open>A process with the signals 1 and 15 pending, the first of which it ignores.\<close>

definition iss_example :: kst where
  "iss_example = kst0\<lparr>procs := (procs kst0)(2 := proc0\<lparr>p_pid := 5, p_sig := 0x4001, p_sigignore := 1\<rparr>)\<rparr>"


end
