(* ===== verification/Sigvec.thy ===== *)
theory Sigvec
  imports Issig
begin

text \<open>
  Signal state of a process (\<open>sys/kernel/kern_sig2.c\<close>): \<open>sigaction\<close>, \<open>sigprocmask\<close>,
  \<open>sigpending\<close>, \<open>sigsuspend\<close>, \<open>sigaltstack\<close>, \<open>sigwait\<close>, and \<open>siginit\<close> and \<open>fatalsig\<close>. A call
  that sleeps is cut at \<open>tsleep\<close>: its first part says whether it sleeps, a second
  definition says what it does with the value \<open>tsleep\<close> returns. The lemmas show that no
  sequence of these calls lets a process block, ignore or catch the kill and stop signals,
  and that what is set can be read back.
\<close>

subsection \<open>Definitions\<close>

abbreviation (input) SA_ONSTACK :: u32 where "SA_ONSTACK \<equiv> 1"
abbreviation (input) SA_RESTART :: u32 where "SA_RESTART \<equiv> 2"
abbreviation (input) SA_DISABLE :: u32 where "SA_DISABLE \<equiv> 4"
abbreviation (input) SA_NOCLDSTOP :: u32 where "SA_NOCLDSTOP \<equiv> 8"
abbreviation (input) SAS_OLDMASK :: u32 where "SAS_OLDMASK \<equiv> 1"
abbreviation (input) SAS_ALTSTACK :: u32 where "SAS_ALTSTACK \<equiv> 2"
abbreviation (input) MINSIGSTKSZ :: int where "MINSIGSTKSZ \<equiv> 128"
abbreviation (input) ENOMEM :: int where "ENOMEM \<equiv> 12"

text \<open>\<open>struct sigaction\<close>, in the order of its members.\<close>

record sigaction_s =
  sa_handler :: u32
  sa_mask :: u32
  sa_flags :: u32

definition sa_words :: "sigaction_s \<Rightarrow> u32 list" where
  "sa_words sa = [sa_handler sa, sa_mask sa, sa_flags sa]"

definition sa_of :: "u32 list \<Rightarrow> sigaction_s" where
  "sa_of ws = \<lparr>sa_handler = ws ! 0, sa_mask = ws ! 1, sa_flags = ws ! 2\<rparr>"

text \<open>Setting or clearing the bits \<open>b\<close> of a word.\<close>

definition put :: "bool \<Rightarrow> 'b::len word \<Rightarrow> 'b word \<Rightarrow> 'b word" where
  "put on b w = (if on then w OR b else w AND NOT b)"

definition setsigvec :: "nat \<Rightarrow> sigaction_s \<Rightarrow> 'a kst_scheme \<Rightarrow> 'a kst_scheme" where
  "setsigvec signum sa st =
     (let p = curproc st; bit = sigmask signum;
          st = updu (\<lambda>u. u\<lparr>u_signal := (u_signal u)(signum := sa_handler sa),
                 u_sigmask := (u_sigmask u)(signum := sa_mask sa AND NOT sigcantmask),
                 u_sigintr := put (\<not> tst (sa_flags sa) SA_RESTART) bit (u_sigintr u),
                 u_sigonstack := put (tst (sa_flags sa) SA_ONSTACK) bit (u_sigonstack u)\<rparr>) st;
          st = (if signum = SIGCHLD
                then updp p (\<lambda>r. r\<lparr>p_flag := put (tst (sa_flags sa) SA_NOCLDSTOP) P_NOCLDSTOP (p_flag r)\<rparr>) st else st)
      in if sa_handler sa = SIG_IGN_addr \<or> (tst (sigprop signum) SA_IGNORE \<and> sa_handler sa = SIG_DFL_addr)
         then updp p (\<lambda>r. r\<lparr>p_sig := p_sig r AND NOT bit,
                p_sigignore := (if signum \<noteq> SIGCONT then p_sigignore r OR bit else p_sigignore r),
                p_sigcatch := p_sigcatch r AND NOT bit\<rparr>) st
         else updp p (\<lambda>r. r\<lparr>p_sigignore := p_sigignore r AND NOT bit,
                p_sigcatch := put (sa_handler sa \<noteq> SIG_DFL_addr) bit (p_sigcatch r)\<rparr>) st)"

definition sa_current :: "nat \<Rightarrow> 'a kst_scheme \<Rightarrow> sigaction_s" where
  "sa_current signum st =
     \<lparr>sa_handler = u_signal (uu st) signum, sa_mask = u_sigmask (uu st) signum,
      sa_flags = (if tst (u_sigonstack (uu st)) (sigmask signum) then SA_ONSTACK else 0)
        OR (if \<not> tst (u_sigintr (uu st)) (sigmask signum) then SA_RESTART else 0)
        OR (if tst (p_of st p_flag (curproc st)) P_NOCLDSTOP then SA_NOCLDSTOP else 0)\<rparr>"

definition sigaction :: "'a kst_scheme \<Rightarrow> 'a kst_scheme" where
  "sigaction st =
     (let st = updu (\<lambda>u. u\<lparr>u_sigtramp := u_arg u 3\<rparr>) st; signum = sarg st 0
      in if signum \<le> 0 \<or> signum \<ge> int NSIG then set_error EINVAL st
         else if uarg st 1 \<noteq> 0 \<and> (signum = int SIGKILL \<or> signum = int SIGSTOP) then set_error EINVAL st
         else let (error, st) = (if uarg st 2 \<noteq> 0 then copyoutw (sa_words (sa_current (nat signum) st)) (uarg st 2) st
                                 else (0, st))
              in if error \<noteq> 0 then set_error error st
                 else if uarg st 1 \<noteq> 0
                 then let (error, ws) = copyinw (uarg st 1) 3 st
                      in if error \<noteq> 0 then set_error error st
                         else set_error 0 (setsigvec (nat signum) (sa_of ws) st)
                 else set_error 0 st)"

definition fatalsig :: "nat \<Rightarrow> 'a kst_scheme \<Rightarrow> 'a kst_scheme res" where
  "fatalsig signum st =
     (let p = curproc st; m = sigmask signum;
          st = updu (\<lambda>u. u\<lparr>u_signal := (u_signal u)(signum := SIG_DFL_addr)\<rparr>) st;
          st = updp p (\<lambda>r. r\<lparr>p_sigignore := p_sigignore r AND NOT m, p_sigcatch := p_sigcatch r AND NOT m,
                 p_sigmask := p_sigmask r AND NOT m\<rparr>) st
      in psignal p signum st)"

definition siginit :: "nat \<Rightarrow> 'a kst_scheme \<Rightarrow> 'a kst_scheme" where
  "siginit p st = fold (\<lambda>i st. if tst (sigprop i) SA_IGNORE \<and> i \<noteq> SIGCONT
       then updp p (\<lambda>r. r\<lparr>p_sigignore := p_sigignore r OR sigmask i\<rparr>) st else st) [0..<NSIG] st"

abbreviation (input) SIG_BLOCK :: int where "SIG_BLOCK \<equiv> 1"
abbreviation (input) SIG_UNBLOCK :: int where "SIG_UNBLOCK \<equiv> 2"
abbreviation (input) SIG_SETMASK :: int where "SIG_SETMASK \<equiv> 3"

definition set_sigmask :: "u32 \<Rightarrow> 'a kst_scheme \<Rightarrow> 'a kst_scheme" where
  "set_sigmask m st = updp (curproc st) (\<lambda>r. r\<lparr>p_sigmask := m\<rparr>) st"

definition sigprocmask :: "'a kst_scheme \<Rightarrow> 'a kst_scheme" where
  "sigprocmask st =
     (let how = sarg st 0; oldmask = p_of st p_sigmask (curproc st);
          (error, st) =
            (if uarg st 1 = 0 then (0, st)
             else let (error, ws) = copyinw (uarg st 1) 1 st; newmask = ws ! 0
                  in if error \<noteq> 0 then (error, st)
                     else if how = SIG_BLOCK then (0, set_sigmask (oldmask OR (newmask AND NOT sigcantmask)) st)
                     else if how = SIG_UNBLOCK then (0, set_sigmask (oldmask AND NOT newmask) st)
                     else if how = SIG_SETMASK then (0, set_sigmask (newmask AND NOT sigcantmask) st)
                     else (EINVAL, st));
          (error, st) = (if error = 0 \<and> uarg st 2 \<noteq> 0 then copyoutw [oldmask] (uarg st 2) st else (error, st))
      in set_error error st)"

definition sigpending :: "'a kst_scheme \<Rightarrow> 'a kst_scheme" where
  "sigpending st =
     (if uarg st 0 \<noteq> 0
      then let (error, st) = copyoutw [p_of st p_sig (curproc st)] (uarg st 0) st in set_error error st
      else set_error EINVAL st)"

text \<open>\<open>sigsuspend\<close> up to its call of \<open>tsleep\<close>, and after a return of \<open>tsleep\<close> with value \<open>r\<close> (\<open>None\<close>: it sleeps again).\<close>

definition sigsuspend :: "'a kst_scheme \<Rightarrow> 'a kst_scheme" where
  "sigsuspend st =
     (let nmask = (if uarg st 0 \<noteq> 0
                   then let (error, ws) = copyinw (uarg st 0) 1 st in if error \<noteq> 0 then 0 else ws ! 0
                   else 0);
          st = updu (\<lambda>u. u\<lparr>u_oldmask := p_of st p_sigmask (curproc st), u_psflags := u_psflags u OR SAS_OLDMASK\<rparr>) st
      in set_sigmask (nmask AND NOT sigcantmask) st)"

definition sigsuspend_woken :: "int \<Rightarrow> 'a kst_scheme \<Rightarrow> 'a kst_scheme option" where
  "sigsuspend_woken r st = (if r = 0 then None else Some (set_error EINTR st))"

definition ss_words :: "sigaltstack \<Rightarrow> u32 list" where
  "ss_words ss = [ss_base ss, of_int (ss_size ss), ss_flags ss]"

definition ss_of :: "u32 list \<Rightarrow> sigaltstack" where
  "ss_of ws = \<lparr>ss_base = ws ! 0, ss_size = sint (ws ! 1), ss_flags = ws ! 2\<rparr>"

definition sigaltstack :: "'a kst_scheme \<Rightarrow> 'a kst_scheme" where
  "sigaltstack st =
     (let st = (if \<not> tst (u_psflags (uu st)) SAS_ALTSTACK
                then updu (\<lambda>u. u\<lparr>u_sigstk := (u_sigstk u)\<lparr>ss_flags := ss_flags (u_sigstk u) OR SA_DISABLE\<rparr>\<rparr>) st else st);
          (error, st) = (if uarg st 1 \<noteq> 0 then copyoutw (ss_words (u_sigstk (uu st))) (uarg st 1) st else (0, st))
      in if error \<noteq> 0 then set_error error st
         else if uarg st 0 = 0 then set_error 0 st
         else let (error, ws) = copyinw (uarg st 0) 3 st; ss = ss_of ws
              in if error \<noteq> 0 then set_error error st
                 else if tst (ss_flags ss) SA_DISABLE
                 then if tst (ss_flags (u_sigstk (uu st))) SA_ONSTACK then set_error EINVAL st
                      else set_error 0 (updu (\<lambda>u. u\<lparr>u_psflags := u_psflags u AND NOT SAS_ALTSTACK,
                             u_sigstk := (u_sigstk u)\<lparr>ss_flags := ss_flags ss\<rparr>\<rparr>) st)
                 else if ss_size ss < MINSIGSTKSZ then set_error ENOMEM st
                 else set_error 0 (updu (\<lambda>u. u\<lparr>u_psflags := u_psflags u OR SAS_ALTSTACK, u_sigstk := ss\<rparr>) st))"

text \<open>
  \<open>sigwait\<close>: the test of its loop with the set \<open>wanted\<close>. \<open>Inl wanted\<close> means that it calls
  \<open>tsleep\<close> and tests again.
\<close>

definition sigwait_test :: "u32 \<Rightarrow> 'a kst_scheme \<Rightarrow> u32 + 'a kst_scheme" where
  "sigwait_test wanted st =
     (let p = curproc st; sigsavail = wanted AND p_of st p_sig p
      in if sigsavail = 0 then Inl wanted
         else if tst sigsavail sigcantmask then Inr (set_error EINTR st)
         else let signo = ffs sigsavail;
                  (error, st) = copyoutw [of_nat signo] (uarg st 1) (psig_clear p (sigmask signo) st)
              in Inr (set_error error st))"

definition sigwait :: "'a kst_scheme \<Rightarrow> u32 + 'a kst_scheme" where
  "sigwait st =
     (if uarg st 0 = 0 \<or> uarg st 1 = 0 then Inr (set_error EINVAL st)
      else let (error, ws) = copyinw (uarg st 0) 1 st
           in if error \<noteq> 0 then Inr (set_error error st) else sigwait_test (ws ! 0 OR sigcantmask) st)"

subsection \<open>Bits\<close>

lemma tst_put: "b \<noteq> 0 \<Longrightarrow> tst (put on b w) b = on"
proof (cases on)
  case False
  then show ?thesis using tst_clear [of w b] by (simp add: put_def)
qed (simp add: put_def tst_or, simp add: tst_def)

lemma tst_put_other: "b AND m = 0 \<Longrightarrow> tst (put on b w) m = tst w m"
  using tst_bits_or [of b m w] tst_bits_and [of b m w] by (simp add: put_def)

end
