(* ===== verification/Kill.thy ===== *)
theory Kill
  imports Sig
begin

text \<open>
  What sending signals achieves: the system calls \<open>kill\<close> and \<open>killpg\<close> and the internal
  \<open>gsignal\<close> return and reach only processes that the sender may signal, any sequence of
  signals, wakeups and timeouts keeps the scheduling state consistent, a kill signal makes
  its target runnable and a stopped process stays stopped under all other signals but the
  continue signal.
\<close>

subsection \<open>Permission\<close>

text \<open>
  Whether the current process may signal process \<open>i\<close>. The target's real user id is the one
  in its u. area in core or on the swap device, or -2 if it has none or it cannot be read.
\<close>

definition may_signal :: "uareas \<Rightarrow> nat \<Rightarrow> 'a kst_scheme \<Rightarrow> nat \<Rightarrow> bool" where
  "may_signal ua sig st i \<longleftrightarrow>
     p_of st p_uid (curproc st) = 0
     \<or> u_ruid (uu st) = of_int (p_of st p_uid i) \<or> p_of st p_uid (curproc st) = p_of st p_uid i
     \<or> (\<exists>r \<in> {core_ruid ua i, snd (swap_ruid ua i), -2}. u_ruid (uu st) = r \<or> of_int (p_of st p_uid (curproc st)) = r)
     \<or> (sig = SIGCONT \<and> descends st i)"

lemma set_error_sel [simp]:
  "lay (set_error e st) = lay st" "allproc (set_error e st) = allproc st" "pidhash (set_error e st) = pidhash st"
  "slpque (set_error e st) = slpque st" "qs (set_error e st) = qs st" "runout (set_error e st) = runout st"
  by (simp_all add: set_error_def)

lemma set_error_queues [simp]: "queues (set_error e st) rq sq = queues st rq sq" "sig_ok (set_error e st) = sig_ok st"
  by (simp_all add: queues_def qlinks_def sig_ok_def)

lemma set_error_twice [simp]: "set_error e (set_error f st) = set_error e st"
  by (simp add: set_error_def updu_def)

lemma set_error_id: "set_error (u_error (uu st)) st = st"
  by (simp add: set_error_def updu_def)

lemma descends_cong:
  assumes "descends st i" and "curproc st' = curproc st"
    and "\<And>i. p_of st' p_pptr i = p_of st p_pptr i \<and> p_of st' p_ppid i = p_of st p_ppid i"
  shows "descends st' i"
  using assms(1)
proof induction
  case self
  then show ?case using descends.self [of st'] assms(2) by simp
next
  case (parent i j)
  then show ?case using assms(2,3) by (intro descends.parent [of i st' j]) simp_all
qed

text \<open>States reached from \<open>st\<close> by sending signals to the processes in \<open>S\<close>; only \<open>u_error\<close> of the u. area differs.\<close>

definition sent :: "nat set \<Rightarrow> 'a kst_scheme \<Rightarrow> 'a kst_scheme \<Rightarrow> bool" where
  "sent S st s \<longleftrightarrow> (\<exists>e. sig_chg S (set_error e st) s) \<and> (\<exists>rq sq. queues s rq sq)"

lemma sent_refl: "queues st rq sq \<Longrightarrow> sent S st st"
  unfolding sent_def using set_error_id [of st] sig_chg_refl [of S st] by metis

lemma sent_same:
  assumes "sent S st s"
  shows "curproc s = curproc st" and "u_ruid (uu s) = u_ruid (uu st)" and "allproc s = allproc st" and "p_of s p_nxt = p_of st p_nxt"
    and "p_of s p_uid i = p_of st p_uid i" and "p_of s p_pptr i = p_of st p_pptr i" and "p_of s p_ppid i = p_of st p_ppid i"
    and "p_of s p_pgrp i = p_of st p_pgrp i"
proof -
  from assms obtain e where f: "sigframe (set_error e st) s" unfolding sent_def sig_chg_def by blast
  note g = sigframe_env [OF f] and h = sig_only_same [OF sigframe_proc [OF f]]
  show "curproc s = curproc st" "u_ruid (uu s) = u_ruid (uu st)" "allproc s = allproc st" using g by simp_all
  show "p_of s p_nxt = p_of st p_nxt" using h by (intro ext) simp
  show "p_of s p_uid i = p_of st p_uid i" "p_of s p_pptr i = p_of st p_pptr i" "p_of s p_ppid i = p_of st p_ppid i"
    "p_of s p_pgrp i = p_of st p_pgrp i" using h [of i] by simp_all
qed

lemma sent_descends: "sent S st s \<Longrightarrow> descends s i = descends st i"
  using descends_cong [of st i s] descends_cong [of s i st] sent_same [of S st s] by metis

lemma sent_may: "sent S st s \<Longrightarrow> may_signal ua sig s i = may_signal ua sig st i"
  unfolding may_signal_def by (simp add: sent_same [of S st s] sent_descends [of S st s])

lemma sent_tree: "sent S st s \<Longrightarrow> tree_ok s d = tree_ok st d"
  unfolding tree_ok_def by (simp add: sent_same [of S st s])

lemma sent_sig_ok: "sent S st s \<Longrightarrow> sig_ok st \<Longrightarrow> sig_ok s"
  unfolding sent_def sig_chg_def using sig_ok_frame set_error_queues(2) by metis

lemma sent_step:
  assumes "sent S st s" and "sig_chg S s s'" and "queues s' rq sq"
  shows "sent S st s'"
  using assms sig_chg_trans unfolding sent_def by blast

lemma sig_chg_error: "sig_chg S st s \<Longrightarrow> sig_chg S (set_error e st) (set_error e s)"
  unfolding sig_chg_def sigframe_def sframe_def set_error_def by simp

lemma sent_error: "sent S st s \<Longrightarrow> sent S st (set_error e s)"
proof -
  assume "sent S st s"
  then obtain f rq sq where f: "sig_chg S (set_error f st) s" "queues s rq sq" unfolding sent_def by blast
  have "queues (set_error e s) rq sq" using f(2) by simp
  moreover have "sig_chg S (set_error e st) (set_error e s)" using sig_chg_error [OF f(1), of e] by simp
  ultimately show ?thesis unfolding sent_def by blast
qed

lemma sent_sigs: "sent S st s \<Longrightarrow> i \<notin> S \<Longrightarrow> p_of s p_sig i = p_of st p_sig i"
  unfolding sent_def sig_chg_def by auto

lemma cansignal_spec:
  assumes t: "tree_ok st d" and i: "i < NPROC"
  shows "\<exists>b e. cansignal ua i sig st = Inr (b, set_error e st) \<and> (b \<longrightarrow> may_signal ua sig st i)"
proof -
  obtain r e where f: "fill_from_u ua i st = (r, set_error e st)" and r: "r \<in> {core_ruid ua i, snd (swap_ruid ua i), -2}"
  proof -
    have id: "set_error (u_error (uu st)) st = st" by (rule set_error_id)
    have "\<exists>r e. fill_from_u ua i st = (r, set_error e st) \<and> r \<in> {core_ruid ua i, snd (swap_ruid ua i), -2}"
      unfolding fill_from_u_def using id by (auto simp: case_prod_unfold Let_def) metis+
    then show ?thesis using that by blast
  qed
  have inf: "inferior (set_error e st) i = Inr (descends st i)"
  proof -
    have "d i < Suc NPROC" using t i unfolding tree_ok_def by (blast intro: le_imp_less_Suc)
    moreover have "tree_ok (set_error e st) d" using t unfolding tree_ok_def by simp
    moreover have "descends (set_error e st) i = descends st i"
      using descends_cong [of st i "set_error e st"] descends_cong [of "set_error e st" i st] by auto
    ultimately show ?thesis using inferior_go_descends [of "set_error e st" d i "Suc NPROC"] i by (simp add: inferior_def)
  qed
  define c where "c \<longleftrightarrow> p_of st p_uid (curproc st) = 0 \<or> u_ruid (uu st) = r \<or> of_int (p_of st p_uid (curproc st)) = r
    \<or> u_ruid (uu st) = of_int (p_of st p_uid i) \<or> p_of st p_uid (curproc st) = p_of st p_uid i"
  have "cansignal ua i sig st = Inr (c \<or> sig = SIGCONT \<and> descends st i, set_error e st)"
    by (simp add: cansignal_def f inf c_def Let_def)
  moreover have "may_signal ua sig st i" if "c \<or> sig = SIGCONT \<and> descends st i"
    using that r unfolding c_def may_signal_def by blast
  ultimately show ?thesis by blast
qed

subsection \<open>The system calls\<close>

text \<open>The processes whose pending signals a call may change: those it may signal, and their parents.\<close>

definition reach :: "uareas \<Rightarrow> nat \<Rightarrow> 'a kst_scheme \<Rightarrow> nat set" where
  "reach ua sig st = {i. \<exists>j. may_signal ua sig st j \<and> (i = j \<or> p_of st p_pptr j = Some i)}"

lemma psignal_sent:
  assumes s: "sent (reach ua sig st) st s" and ok: "sig_ok st" and p: "p < NPROC" and sig: "1 \<le> sig" "sig \<le> NSIG"
    and m: "may_signal ua sig st p"
  shows "\<exists>s'. psignal p sig s = Inr s' \<and> sent (reach ua sig st) st s'"
proof -
  from s obtain rq sq where q: "queues s rq sq" unfolding sent_def by blast
  have sub: "insert p (set_option (p_of s p_pptr p)) \<subseteq> reach ua sig st"
    using m sent_same(6) [OF s, of p] by (auto simp: reach_def)
  from psignal_posted [OF q sent_sig_ok [OF s ok] p sig] obtain s' rq' sq' where
    s': "psignal p sig s = Inr s'" "queues s' rq' sq'" "sig_chg (insert p (set_option (p_of s p_pptr p))) s s'"
    unfolding posted_def by blast
  then show ?thesis using sent_step [OF s sig_chg_mono [OF s'(3) sub] s'(2)] by blast
qed

lemma killpg1_one_spec:
  assumes s: "sent (reach ua sig st) st s" and ok: "sig_ok st" and t: "tree_ok st d" and p: "p < NPROC" and sig: "sig \<le> NSIG"
    and e: "e \<in> {0, EPERM}"
  shows "\<exists>f' e' s'. killpg1_one ua sig pgrp all p (f, e, s) = Inr (f', e', s') \<and> sent (reach ua sig st) st s' \<and> e' \<in> {0, EPERM}"
proof (cases "(p_of s p_pgrp p \<noteq> pgrp \<and> \<not> all) \<or> p_of s p_ppid p = 0 \<or> tst (p_of s p_flag p) SSYS \<or> (all \<and> p = curproc s)")
  case True
  then show ?thesis using s e unfolding killpg1_one_def by simp
next
  case False
  have "tree_ok s d" using t sent_tree [OF s] by simp
  from cansignal_spec [OF this p] obtain b x where c: "cansignal ua p sig s = Inr (b, set_error x s)"
    "b \<Longrightarrow> may_signal ua sig st p" using sent_may [OF s] by blast
  have s1: "sent (reach ua sig st) st (set_error x s)" by (rule sent_error [OF s])
  have "\<exists>s'. (if sig \<noteq> 0 then psignal p sig (set_error x s) else Inr (set_error x s)) = Inr s' \<and> sent (reach ua sig st) st s'" if b
    using psignal_sent [OF s1 ok p _ sig c(2) [OF that]] s1 by (cases "sig = 0") auto
  then show ?thesis using False s1 e by (cases b) (auto simp: killpg1_one_def c(1) simp del: set_error_sel)
qed

lemma killpg1_spec:
  assumes q: "queues st rq sq" and ok: "sig_ok st" and t: "tree_ok st d" and l: "plist st xs" and sig: "sig \<le> NSIG"
  shows "\<exists>e s. killpg1 ua sig pgrp all st = Inr (e, s) \<and> sent (reach ua sig st) st s \<and> e \<in> {0, EPERM, ESRCH}"
proof -
  let ?P = "\<lambda>(f :: int, e, s). sent (reach ua sig st) st s \<and> e \<in> {0, EPERM}"
  have l: "chain (p_of st p_nxt) (allproc st) xs" "\<forall>i \<in> set xs. i < NPROC" using assms(4) by (simp_all add: plist_def)
  have len: "length xs < Suc NPROC" using plist_length [OF assms(4)] .
  have w: "\<exists>s'. walk (Suc NPROC) (\<lambda>(f, e, s) i. p_of s p_nxt i) (killpg1_one ua sig pg all) (allproc st) (0, 0, st) = Inr s' \<and> ?P s'" for pg
  proof (rule walk_inv [where xs = xs, OF _ len])
    show "chain ((\<lambda>(f, e, s) i. p_of s p_nxt i) (0 :: int, 0 :: int, st)) (allproc st) xs" using l(1) by simp
    show "?P (0, 0, st)" using sent_refl [OF q] by simp
    fix i x assume i: "i \<in> set xs" and x: "?P x"
    obtain f e s where fes: "x = (f, e, s)" by (cases x)
    from killpg1_one_spec [of ua sig st s d i e pg all f] ok t l(2) sig i x fes obtain f' e' s' where
      r: "killpg1_one ua sig pg all i (f, e, s) = Inr (f', e', s')" "sent (reach ua sig st) st s'" "e' \<in> {0, EPERM}" by auto
    have "p_of s' p_nxt = p_of s p_nxt" using sent_same(4) [OF r(2)] sent_same(4) [of "reach ua sig st" st s] x fes by simp
    then show "\<exists>y. killpg1_one ua sig pg all i x = Inr y
        \<and> (\<lambda>(f, e, s) i. p_of s p_nxt i) y = (\<lambda>(f, e, s) i. p_of s p_nxt i) x \<and> ?P y"
      using r fes by auto
  qed
  define pg where "pg = (if \<not> all \<and> pgrp = 0 then p_of st p_pgrp (curproc st) else pgrp)"
  from w [of pg] obtain f e s where r: "walk (Suc NPROC) (\<lambda>(f, e, s) i. p_of s p_nxt i) (killpg1_one ua sig pg all)
      (allproc st) (0, 0, st) = Inr (f, e, s)" "sent (reach ua sig st) st s" "e \<in> {0, EPERM}" by auto
  show ?thesis
  proof (cases "\<not> all \<and> pg = 0")
    case True
    then have "killpg1 ua sig pgrp all st = Inr (ESRCH, st)" unfolding killpg1_def Let_def pg_def [symmetric] by simp
    then show ?thesis using sent_refl [OF q, of "reach ua sig st"] by blast
  next
    case False
    then have "killpg1 ua sig pgrp all st = Inr (if e \<noteq> 0 then e else if f = 0 then ESRCH else 0, s)"
      unfolding killpg1_def Let_def pg_def [symmetric] r(1) by (simp only: if_False rbind_Inr case_prod_conv)
    then show ?thesis using r(2,3) by auto
  qed
qed

lemma kill_spec:
  assumes q: "queues st rq sq" and ok: "sig_ok st" and t: "tree_ok st d" and l: "plist st xs" and h: "hash_ok st hs"
  shows "\<exists>s. kill ua st = Inr s \<and> sent (reach ua (nat (sarg st 1)) st) st s
    \<and> u_error (uu s) \<in> {0, EPERM, ESRCH, EINVAL}"
proof (cases "sarg st 1 < 0 \<or> sarg st 1 \<ge> int NSIG")
  case True
  then show ?thesis using sent_error [OF sent_refl [OF q]] by (simp add: kill_def)
next
  case False
  let ?sig = "nat (sarg st 1)" and ?S = "reach ua (nat (sarg st 1)) st"
  have sig: "?sig \<le> NSIG" and nz: "?sig = 0 \<longleftrightarrow> sarg st 1 = 0" using False by auto
  have err: "sent ?S st (set_error e st)" for e by (rule sent_error [OF sent_refl [OF q]])
  have grp: "\<exists>e s. killpg1 ua ?sig pgrp all st = Inr (e, s) \<and> sent ?S st s \<and> e \<in> {0, EPERM, ESRCH}" for pgrp all
    by (rule killpg1_spec [OF q ok t l sig])
  have one: "\<exists>s. rbind (cansignal ua p ?sig st) (\<lambda>(can, s). if \<not> can then Inr (set_error EPERM s)
      else rbind (if sarg st 1 \<noteq> 0 then psignal p ?sig s else Inr s) (\<lambda>s. Inr (set_error 0 s))) = Inr s
    \<and> sent ?S st s \<and> u_error (uu s) \<in> {0, EPERM, ESRCH, EINVAL}" if p: "p < NPROC" for p
  proof -
    from cansignal_spec [OF t p] obtain b x where c: "cansignal ua p ?sig st = Inr (b, set_error x st)"
      "b \<Longrightarrow> may_signal ua ?sig st p" by blast
    show ?thesis
    proof (cases b)
      case True
      then obtain s' where "(if sarg st 1 \<noteq> 0 then psignal p ?sig (set_error x st) else Inr (set_error x st)) = Inr s'"
        "sent ?S st s'"
      proof (cases "?sig = 0")
        case False
        then have "1 \<le> ?sig" by linarith
        from psignal_sent [OF err ok p this sig c(2) [OF True], of x] False nz that show ?thesis by auto
      qed (use err nz in auto)
      then show ?thesis using True sent_error by (intro exI [of _ "set_error 0 s'"]) (simp add: c(1) del: One_nat_def)
    qed (use err in \<open>simp add: c(1) del: One_nat_def\<close>)
  qed
  show ?thesis
  proof (cases "sarg st 0 > 0")
    case True
    have "\<forall>i \<in> set (hs (PIDHASH (sarg st 0))). i < NPROC" using h PIDHASH_less unfolding hash_ok_def by blast
    then have "\<forall>p. find (\<lambda>i. p_of st p_pid i = sarg st 0) (hs (PIDHASH (sarg st 0))) = Some p \<longrightarrow> p < NPROC"
      by (auto simp: find_Some_iff)
    then show ?thesis using True False err one unfolding kill_def Let_def pfind_find [OF h]
      by (cases "find (\<lambda>i. p_of st p_pid i = sarg st 0) (hs (PIDHASH (sarg st 0)))") (simp_all del: One_nat_def)
  next
    case neg: False
    define m where "m = (if sarg st 0 = -1 then killpg1 ua ?sig 0 True st
        else if sarg st 0 = 0 then killpg1 ua ?sig 0 False st else killpg1 ua ?sig (s32 (- sarg st 0)) False st)"
    have "\<exists>e s. m = Inr (e, s) \<and> sent ?S st s \<and> e \<in> {0, EPERM, ESRCH}" unfolding m_def using grp by presburger
    then obtain e s where "m = Inr (e, s)" "sent ?S st s" "e \<in> {0, EPERM, ESRCH}" by blast
    moreover have "kill ua st = rbind m (\<lambda>(error, st). Inr (set_error error st))"
      using neg False unfolding kill_def Let_def m_def by (simp del: One_nat_def)
    ultimately show ?thesis using sent_error by auto
  qed
qed

subsection \<open>Stopped processes\<close>

lemma bystander_stopped: "bystander st st' i \<Longrightarrow> p_of st p_stat i = SSTOP \<Longrightarrow> p_of st' p_stat i = SSTOP"
  unfolding bystander_def by auto

lemma posted1_stays: "posted1 p st (Inr st') \<Longrightarrow> i \<noteq> p \<Longrightarrow> p_of st p_stat i = SSTOP \<Longrightarrow> p_of st' p_stat i = SSTOP"
  unfolding posted1_def using bystander_stopped by auto

lemma psig_stopped_stays:
  assumes q: "queues st rq sq" and p: "p < NPROC" and s: "p_of st p_stat p = SSTOP" and k: "sig \<noteq> SIGKILL"
    and c: "\<not> tst (sigprop sig) SA_CONT" and r: "psig_stopped p sig action st = Inr st'"
  shows "p_of st' p_stat p = SSTOP"
proof -
  have u: "p_of x p_stat p = SSTOP" if "unsleep p st = Inr x" for x
    using unsleep_spec [OF queuesD(1) [OF q] p] that s by auto
  show ?thesis using r k c s u by (auto simp: psig_stopped_def psig_clear_def split: if_splits)
qed

lemma psignal_nonstop_stays:
  assumes q: "queues st rq sq" and p: "p < NPROC" and ns: "\<not> tst (sigprop sig) SA_STOP" and sig: "1 \<le> sig" "sig \<le> NSIG"
    and r: "psignal p sig st = Inr st'" and s: "p_of st p_stat i = SSTOP" and k: "i = p \<Longrightarrow> sig \<notin> {SIGKILL, SIGCONT}"
  shows "p_of st' p_stat i = SSTOP"
proof (cases "i = p")
  case False
  then show ?thesis using psignal_nonstop [OF q p ns sig] r s posted1_stays by metis
next
  case True
  obtain kept r1 where kr: "psig_post (sig_action (procs st p) (sigmask sig)) sig (procs st p) = (kept, r1)" by fastforce
  note f = psig_post_sig_only [OF kr]
  have q1: "queues (updp p (\<lambda>_. r1) st) rq sq" using f by (intro queues_same [OF q]) simp_all
  have c: "\<not> tst (sigprop sig) SA_CONT" using k [OF True] sig_table'(2) [OF sig] by simp
  have s1: "p_of (updp p (\<lambda>_. r1) st) p_stat p = SSTOP" using f(3) s True by simp
  have st: "p_of st' p_stat p = SSTOP" if "psig_stopped p sig (sig_action (procs st p) (sigmask sig)) (updp p (\<lambda>_. r1) st) = Inr st'"
    using k [OF True] by (intro psig_stopped_stays [OF q1 p s1 _ c that]) simp
  show ?thesis using r s True f(3) st s1 unfolding psignal_nonstop_eq [OF kr ns] by (auto simp del: procs_updp split: if_splits)
qed

lemma psignal_stays:
  assumes q: "queues st rq sq" and ok: "sig_ok st" and p: "p < NPROC" and sig: "1 \<le> sig" "sig \<le> NSIG"
    and r: "psignal p sig st = Inr st'" and s: "p_of st p_stat i = SSTOP" and k: "i = p \<Longrightarrow> sig \<notin> {SIGKILL, SIGCONT}"
  shows "p_of st' p_stat i = SSTOP"
proof (cases "tst (sigprop sig) SA_STOP")
  case False
  then show ?thesis using psignal_nonstop_stays [OF q p _ sig r s k] by blast
next
  case True
  obtain kept r1 where kr: "psig_post (sig_action (procs st p) (sigmask sig)) sig (procs st p) = (kept, r1)" by fastforce
  note f = psig_post_sig_only [OF kr]
  define s1 where "s1 = updp p (\<lambda>_. r1) st"
  define s2 where "s2 = updp p (\<lambda>r. r\<lparr>p_ptracesig := int sig\<rparr>) (psig_clear p (sigmask sig) s1)"
  have q1: "queues s1 rq sq" unfolding s1_def using f by (intro queues_same [OF q]) simp_all
  have q2: "queues s2 rq sq" unfolding s2_def using psig_clear_props(1) [OF q1] by (rule queues_same) simp_all
  have st1: "p_of s1 p_stat j = p_of st p_stat j" "p_of s2 p_stat j = p_of st p_stat j" for j
    by (simp_all add: s1_def s2_def psig_clear_def f(3))
  have nc: "\<not> tst (sigprop sig) SA_CONT" and nk: "sig \<noteq> SIGKILL" using True sig_table'(1,2) [OF sig] by auto
  have run: "p_of st' p_stat i = SSTOP" if "psig_run p s1 = Inr st'" "p_stat r1 = SSLEEP"
    using posted1_stays [of p s1 st' i] posted1_run [OF q1 p] that st1 f(3) s by (cases "i = p") auto
  have stopped: "p_of st' p_stat i = SSTOP" if "psig_stopped p sig (sig_action (procs st p) (sigmask sig)) s1 = Inr st'" "p_stat r1 = SSTOP"
  proof (cases "i = p")
    case True
    then show ?thesis using psig_stopped_stays [OF q1 p _ nk nc that(1)] st1 s by simp
  next
    case False
    have "posted1 p s1 (Inr st')" using posted1_stopped [OF q1 p] that st1 f(3) by metis
    then show ?thesis using posted1_stays [of p s1 st' i] False st1 s by simp
  qed
  have chld: "p_of st' p_stat i = SSTOP" if sl: "p_stat r1 = SSLEEP" and "tst (p_flag r1) P_SINTR" "p_pptr r1 = Some pp"
    and m: "rbind (if tst (p_of s2 p_flag pp) P_NOCLDSTOP then Inr s2 else psignal pp SIGCHLD s2) (stop p) = Inr st'" for pp
  proof -
    have w: "p_of st p_wchan p \<noteq> 0" using queuesD(2) [OF q p] sl f(3) by simp
    with ok p that(2,3) f(4,6) have pp: "pp < NPROC" "pp \<noteq> p" and ro: "p_of st p_wchan p \<noteq> a_runout (lay st)"
      unfolding sig_ok_def by auto
    obtain s3 where s3: "(if tst (p_of s2 p_flag pp) P_NOCLDSTOP then Inr s2 else psignal pp SIGCHLD s2) = Inr s3" "stop p s3 = Inr st'"
      using m by (auto simp: rbind_eq_Inr)
    have nst: "\<not> tst (sigprop SIGCHLD) SA_STOP" by (simp add: sigprop_def sigprop_tab_def tst_def)
    have "posted1 pp s2 (Inr s3)"
    proof (cases "tst (p_of s2 p_flag pp) P_NOCLDSTOP")
      case True
      then show ?thesis using s3(1) q2 by (auto simp: posted1_def bystander_def)
    next
      case False
      then show ?thesis using psignal_nonstop [OF q2 pp(1) nst] s3(1) by simp
    qed
    then obtain rq3 sq3 where q3: "queues s3 rq3 sq3" and b: "bystander s2 s3 p"
      using pp(2) unfolding posted1_def by auto
    have "p_of s3 p_stat p = SSLEEP" using b ro sl f(3) st1(2) by (auto simp: bystander_def s2_def s1_def psig_clear_def f(5))
    then have pr: "p \<notin> set rq3" using queues_off_rq [OF q3, of p] by simp
    have "p_of s3 p_stat i = SSTOP"
      using psignal_nonstop_stays [OF q2 pp(1) nst, of s3 i] s3(1) s st1(2) by (auto split: if_splits)
    then show ?thesis using stop_spec [OF q3 pr] s3(2) by (cases "i = p") auto
  qed
  show ?thesis using r s st1 run stopped chld
    unfolding psignal_stop_eq [OF kr True nc, folded s1_def, folded s2_def] by (auto split: if_splits option.splits)
qed

lemma happen_stays:
  assumes i: "sched_inv st" and e: "event_ok e" and r: "happen e st = Inr st'" and s: "p_of st p_stat i = SSTOP"
    and k: "\<And>sig. e = Send i sig \<Longrightarrow> sig \<notin> {SIGKILL, SIGCONT}"
  shows "p_of st' p_stat i = SSTOP"
proof -
  obtain rq sq where q: "queues st rq sq" and ok: "sig_ok st" using i unfolding sched_inv_def by blast
  show ?thesis
  proof (cases e)
    case (Send p sig)
    then show ?thesis using psignal_stays [OF q ok, of p sig st' i] e r s k by auto
  next
    case (Wake chan)
    then show ?thesis using wakeup_spec [OF q, of chan] r s wakeup_postD(4) by fastforce
  next
    case (Expire p)
    have u: "p_of x p_stat i = SSTOP" if "unsleep p st = Inr x" for x
      using unsleep_spec [OF queuesD(1) [OF q], of p] e Expire that s by auto
    have t: "p_of x p_stat i = SSTOP" if "setrun p st = Inr x" "p_of st p_stat p = SSLEEP" for x
      using setrun_spec [OF q, of p] e Expire that s bystander_stopped [of st x i] by (cases "i = p") auto
    show ?thesis using r s u t unfolding Expire by (auto simp: endtsleep_def rbind_eq_Inr split: if_splits)
  qed
qed

lemma happens_spec:
  assumes "sched_inv st" and "\<forall>e \<in> set es. event_ok e"
  shows "\<exists>st'. happens es st = Inr st' \<and> sched_inv st'
    \<and> (\<forall>i. p_of st p_stat i = SSTOP \<longrightarrow> Send i SIGKILL \<notin> set es \<longrightarrow> Send i SIGCONT \<notin> set es \<longrightarrow> p_of st' p_stat i = SSTOP)"
  using assms
proof (induction es arbitrary: st)
  case (Cons e es)
  from sched_inv_happen [OF Cons.prems(1), of e] Cons.prems(2) obtain s1 where s1: "happen e st = Inr s1" "sched_inv s1" by auto
  from Cons.IH [OF s1(2)] Cons.prems(2) obtain st' where st': "happens es s1 = Inr st'" "sched_inv st'"
    "\<And>i. p_of s1 p_stat i = SSTOP \<Longrightarrow> Send i SIGKILL \<notin> set es \<Longrightarrow> Send i SIGCONT \<notin> set es \<Longrightarrow> p_of st' p_stat i = SSTOP"
    by auto
  have "p_of s1 p_stat i = SSTOP" if "p_of st p_stat i = SSTOP" "Send i SIGKILL \<notin> set (e # es)" "Send i SIGCONT \<notin> set (e # es)" for i
    using that Cons.prems(2) by (intro happen_stays [OF Cons.prems(1) _ s1(1)]) auto
  then show ?case using s1(1) st' by auto
qed simp

lemma gsignal_spec:
  assumes i: "sched_inv st" and l: "plist st xs" and sig: "1 \<le> sig" "sig \<le> NSIG"
  shows "\<exists>s. gsignal pgrp sig st = Inr s \<and> sched_inv s"
proof (cases "pgrp = 0")
  case False
  let ?f = "\<lambda>i s. if p_of s p_pgrp i = pgrp then psignal i sig s else Inr s"
  have l: "chain (p_of st p_nxt) (allproc st) xs" "\<forall>i \<in> set xs. i < NPROC" using assms(2) by (simp_all add: plist_def)
  have "\<exists>s'. walk (Suc NPROC) (\<lambda>s i. p_of s p_nxt i) ?f (allproc st) st = Inr s' \<and> sched_inv s'"
  proof (rule walk_inv [where xs = xs, OF _ plist_length [OF assms(2)]])
    show "chain (\<lambda>i. p_of st p_nxt i) (allproc st) xs" using l(1) by simp
    show "sched_inv st" by (rule i)
    fix j s assume j: "j \<in> set xs" and s: "sched_inv s"
    then obtain rq sq where q: "queues s rq sq" "sig_ok s" unfolding sched_inv_def by blast
    obtain s' rq' sq' where s': "psignal j sig s = Inr s'" "queues s' rq' sq'" "sig_chg (insert j (set_option (p_of s p_pptr j))) s s'"
      using psignal_posted [OF q, of j sig] l(2) j sig unfolding posted_def by blast
    have "p_of s' p_nxt = p_of s p_nxt"
      using s'(3) sig_only_same [OF sigframe_proc] unfolding sig_chg_def by (intro ext) blast
    then show "\<exists>s'. ?f j s = Inr s' \<and> (\<lambda>i. p_of s' p_nxt i) = (\<lambda>i. p_of s p_nxt i) \<and> sched_inv s'"
      using s'(1) sched_inv_chg [OF s s'(3,2)] s by (cases "p_of s p_pgrp j = pgrp") auto
  qed
  then show ?thesis using False by (simp add: gsignal_def)
qed (use i in \<open>simp add: gsignal_def\<close>)

subsection \<open>Properties\<close>

text \<open>Process 2, a child of process 1, sleeps interruptibly; process 3 is stopped.\<close>

definition sig_example :: kst where
  "sig_example = kst0\<lparr>
     procs := (procs kst0)
       (1 := proc0\<lparr>p_stat := SRUN, p_flag := SLOAD, p_pid := 1, p_pptr := Some 0\<rparr>,
        2 := proc0\<lparr>p_stat := SSLEEP, p_flag := 0x81, p_wchan := 0x80000100, p_pid := 2, p_ppid := 1, p_pptr := Some 1, p_nxt := Some 1,
               p_uid := 7\<rparr>,
        3 := proc0\<lparr>p_stat := SSTOP, p_flag := SLOAD, p_pid := 3, p_ppid := 1, p_pptr := Some 1, p_nxt := Some 2\<rparr>),
     allproc := Some 3, pidhash := (\<lambda>_. None)(1 := Some 1, 2 := Some 2, 3 := Some 3),
     slpque := (\<lambda>_. None)(8 := Some 2), uu := user0\<lparr>u_procp := 1, u_arg := (\<lambda>_. 0)(0 := 2, 1 := 9)\<rparr>\<rparr>"

lemma sig_example_queues: "queues sig_example [] ((\<lambda>_. [])(8 := [2]))"
  by (simp add: queues_def qlinks_def sig_example_def boot_defs HASH_example tst_def)

lemma sig_example_ok: "sig_ok sig_example"
  by (simp add: sig_ok_def sig_example_def boot_defs tst_def)

lemma sig_example_inv: "sched_inv sig_example"
  using sig_example_queues sig_example_ok
  by (auto simp: sched_inv_def excl_def) (simp add: sig_example_def boot_defs tst_def split: if_splits)

text \<open>C1: Signals, wakeups and timeouts may reach processes in any order and number: every one of
  these operations returns, the run queue and the sleep queues stay consistent with the states of
  the processes, no process has a stop and a continue signal pending together, and a stopped
  process stays stopped unless it is sent a kill or a continue signal.\<close>

theorem events_keep_order:
  assumes "sched_inv st" and "\<forall>e \<in> set es. event_ok e"
  shows "\<exists>st'. happens es st = Inr st' \<and> sched_inv st'
    \<and> (\<forall>i. p_of st p_stat i = SSTOP \<longrightarrow> Send i SIGKILL \<notin> set es \<longrightarrow> Send i SIGCONT \<notin> set es \<longrightarrow> p_of st' p_stat i = SSTOP)"
  by (rule happens_spec [OF assms])

theorem events_keep_order_witness:
  "\<exists>st'. happens [Send 2 SIGTSTP, Send 3 2, Wake 0x80000100, Expire 2] sig_example = Inr st' \<and> p_of st' p_stat 3 = SSTOP"
  using events_keep_order [OF sig_example_inv, of "[Send 2 SIGTSTP, Send 3 2, Wake 0x80000100, Expire 2]"]
  by (auto simp: sig_example_def)



text \<open>C11: \<open>psignal\<close> with \<open>SIGKILL\<close> makes every process runnable that is stopped or sleeps interruptibly and
  neither ignores nor blocks the signal nor is traced, with the signal pending; if the process is
  in core it is on the run queue.\<close>

theorem sigkill_wakes:
  assumes "queues st rq sq" and "p < NPROC" and "\<not> tst (p_of st p_flag p) P_TRACED"
    and "\<not> tst (p_of st p_sigignore p OR p_of st p_sigmask p) (sigmask SIGKILL)"
    and "p_of st p_stat p = SSTOP \<or> p_of st p_stat p = SSLEEP \<and> tst (p_of st p_flag p) P_SINTR"
  shows "\<exists>st' rq' sq'. psignal p SIGKILL st = Inr st' \<and> queues st' rq' sq' \<and> p_of st' p_stat p = SRUN
    \<and> tst (p_of st' p_sig p) (sigmask SIGKILL) \<and> (tst (p_of st p_flag p) SLOAD \<longrightarrow> p \<in> set rq')"
proof -
  have ns: "\<not> tst (sigprop SIGKILL) SA_STOP" and nc: "\<not> tst (sigprop SIGKILL) SA_CONT"
    by (simp_all add: sigprop_def sigprop_tab_def tst_def)
  let ?a = "sig_action (procs st p) (sigmask SIGKILL)"
  have a: "?a \<noteq> SIG_IGN" "?a \<noteq> SIG_HOLD" using assms(3,4) by (auto simp: sig_action_def tst_or)
  obtain k r where kr: "psig_post ?a SIGKILL (procs st p) = (k, r)" by fastforce
  note f = psig_post_sig_only [OF kr]
  have k: "k" and pend: "tst (p_sig r) (sigmask SIGKILL)"
    using kr ns nc by (auto simp: psig_post_def Let_def tst_or split: if_splits) (auto simp: tst_def sigmask_def)
  define s1 where "s1 = updp p (\<lambda>_. r) st"
  have q1: "queues s1 rq sq" unfolding s1_def using f by (intro queues_same [OF assms(1)]) simp_all
  have s1: "procs s1 p = r" by (simp add: s1_def)
  have eq: "psignal p SIGKILL st = psig_run p s1"
    using a k assms(3,5) f nc s1 unfolding psignal_nonstop_eq [OF kr ns, folded s1_def]
    by (auto simp: psig_stopped_def)
  have "p_of s1 p_stat p \<in> {SSLEEP, SSTOP}" using assms(5) f(3) s1 by auto
  from psig_run_spec [OF q1 assms(2) this] obtain st' rq' sq' where r: "psig_run p s1 = Inr st'" "queues st' rq' sq'"
    "p_of st' p_stat p = SRUN" "p_of st' p_sig p = p_of s1 p_sig p" "tst (p_of s1 p_flag p) SLOAD \<longrightarrow> p \<in> set rq'" by blast
  then show ?thesis using eq pend f(4) s1 by auto
qed

theorem sigkill_wakes_witness: "\<exists>st'. psignal 2 SIGKILL sig_example = Inr st' \<and> p_of st' p_stat 2 = SRUN"
proof -
  have "\<not> tst (p_of sig_example p_flag 2) P_TRACED"
    "\<not> tst (p_of sig_example p_sigignore 2 OR p_of sig_example p_sigmask 2) (sigmask SIGKILL)"
    "p_of sig_example p_stat 2 = SSTOP \<or> p_of sig_example p_stat 2 = SSLEEP \<and> tst (p_of sig_example p_flag 2) P_SINTR"
    by (simp_all add: sig_example_def boot_defs tst_def)
  then show ?thesis using sigkill_wakes [OF sig_example_queues, of 2] by auto
qed

end
