(* ===== verification/Sigframe.thy ===== *)
theory Sigframe
  imports Sigvec Kill
begin

text \<open>
  Delivery of a caught signal: \<open>postsig\<close> of \<open>sys/kernel/kern_sig.c\<close>, and \<open>sendsig\<close> and
  \<open>sigreturn\<close> of \<open>sys/pic32/signal.c\<close>, which build a frame on the user's stack and take the
  saved registers, the signal mask and the stack flag back from it. The saved registers of
  the process (\<open>u.u_frame\<close>) are a field added to the kernel state.
\<close>

subsection \<open>Definitions\<close>

record sst = kst +
  regs :: "nat \<Rightarrow> u32"

abbreviation (input) FRAME_R4 :: nat where "FRAME_R4 \<equiv> 3"
abbreviation (input) FRAME_R5 :: nat where "FRAME_R5 \<equiv> 4"
abbreviation (input) FRAME_R6 :: nat where "FRAME_R6 \<equiv> 5"
abbreviation (input) FRAME_SP :: nat where "FRAME_SP \<equiv> 26"
abbreviation (input) FRAME_RA :: nat where "FRAME_RA \<equiv> 28"
abbreviation (input) FRAME_HI :: nat where "FRAME_HI \<equiv> 30"
abbreviation (input) FRAME_STATUS :: nat where "FRAME_STATUS \<equiv> 31"
abbreviation (input) FRAME_PC :: nat where "FRAME_PC \<equiv> 32"
abbreviation (input) EJUSTRETURN :: int where "EJUSTRETURN \<equiv> -2"

text \<open>
  The registers that \<open>struct sigcontext\<close> keeps, in the order of its members after
  \<open>sc_onstack\<close> and \<open>sc_mask\<close>: all of the frame but the status register.
\<close>

definition sc_regs :: "nat list" where
  "sc_regs = [0..<31] @ [FRAME_PC]"

abbreviation (input) sizeof_sigcontext :: nat where "sizeof_sigcontext \<equiv> 136"
abbreviation (input) sizeof_sigframe :: nat where "sizeof_sigframe \<equiv> 152"

definition sigcontext :: "u32 \<Rightarrow> u32 \<Rightarrow> (nat \<Rightarrow> u32) \<Rightarrow> u32 list" where
  "sigcontext onstack m rs = onstack # m # map rs sc_regs"

text \<open>The place of the signal frame, and the state with the stack flag set if the alternate stack is taken.\<close>

definition sendsig_stack :: "nat \<Rightarrow> 'a sst_scheme \<Rightarrow> u32 \<times> 'a sst_scheme" where
  "sendsig_stack sig st =
     (if tst (u_psflags (uu st)) SAS_ALTSTACK \<and> \<not> tst (ss_flags (u_sigstk (uu st))) SA_ONSTACK
         \<and> tst (u_sigonstack (uu st)) (sigmask sig)
      then (ss_base (u_sigstk (uu st)) + of_int (ss_size (u_sigstk (uu st))) - of_nat sizeof_sigframe,
            updu (\<lambda>u. u\<lparr>u_sigstk := (u_sigstk u)\<lparr>ss_flags := ss_flags (u_sigstk u) OR SA_ONSTACK\<rparr>\<rparr>) st)
      else (regs st FRAME_SP - of_nat sizeof_sigframe, st))"

text \<open>The frame itself: the context is written through the pointer, without a check of the address.\<close>

definition sendsig_frame :: "u32 \<Rightarrow> nat \<Rightarrow> u32 \<Rightarrow> u32 \<Rightarrow> u32 \<Rightarrow> 'a sst_scheme \<Rightarrow> 'a sst_scheme" where
  "sendsig_frame p sig m oonstack sfp st =
     st\<lparr>umem := mstore (concat (map le32 (sigcontext oonstack m (regs st)))) (sfp + 16) (umem st),
        regs := (regs st)(FRAME_R4 := of_nat sig, FRAME_R5 := of_int (u_code (uu st)), FRAME_R6 := sfp + 16,
                  FRAME_RA := u_sigtramp (uu st), FRAME_SP := sfp, FRAME_PC := p)\<rparr>"

definition sendsig :: "u32 \<Rightarrow> nat \<Rightarrow> u32 \<Rightarrow> 'a sst_scheme \<Rightarrow> 'a sst_scheme res" where
  "sendsig p sig m st =
     (let oonstack = ss_flags (u_sigstk (uu st)) AND SA_ONSTACK; (sfp, st) = sendsig_stack sig st; q = curproc st
      in if \<not> tst (ss_flags (u_sigstk (uu st))) SA_ONSTACK
         then if sfp < p_of st p_daddr q + u_dsize (uu st) then fatalsig SIGILL st
              else Inr (sendsig_frame p sig m oonstack sfp
                     (if p_of st p_ssize q < USER_DATA_END - sfp
                      then updu (\<lambda>u. u\<lparr>u_ssize := USER_DATA_END - sfp\<rparr>)
                             (updp q (\<lambda>r. r\<lparr>p_ssize := USER_DATA_END - sfp, p_saddr := sfp\<rparr>) st)
                      else st))
         else Inr (sendsig_frame p sig m oonstack sfp st))"

definition sigreturn :: "'a sst_scheme \<Rightarrow> 'a sst_scheme" where
  "sigreturn st =
     (let scp = regs st FRAME_SP + 16
      in if baduaddr scp \<or> baduaddr (scp + of_nat sizeof_sigcontext) then set_error EFAULT st
         else let ws = words_le (mload (umem st) scp sizeof_sigcontext);
                  st = set_error EJUSTRETURN st;
                  st = updu (\<lambda>u. u\<lparr>u_sigstk := (u_sigstk u)\<lparr>ss_flags := put (tst (ws ! 0) SA_ONSTACK) SA_ONSTACK (ss_flags (u_sigstk u))\<rparr>\<rparr>) st;
                  st = set_sigmask (ws ! 1 AND NOT sigcantmask) st
              in st\<lparr>regs := (\<lambda>i. if i \<le> FRAME_HI then ws ! (i + 2) else if i = FRAME_PC then ws ! 33 else regs st i)\<rparr>)"

text \<open>
  \<open>postsig\<close> runs the handler or ends the process. \<open>dumped\<close> is the value of \<open>core\<close>, which
  writes the memory of the process to a file; the super user's processes only are dumped, and
  only within their limit.
\<close>

datatype 's posted_sig = Handler 's | Exits nat 's

definition core_allowed :: "'a kst_scheme \<Rightarrow> bool \<times> 'a kst_scheme" where
  "core_allowed st =
     (let (ok, st) = suser st
      in (ok \<and> \<not> (3072 + u_dsize (uu st) + u_ssize (uu st) \<ge> of_int (rlim_cur (u_rlimit (uu st) 4))), st))"

definition postsig :: "bool \<Rightarrow> nat \<Rightarrow> 'a sst_scheme \<Rightarrow> 'a sst_scheme posted_sig res" where
  "postsig dumped sig st =
     (let p = curproc st; m = sigmask sig; st = psig_clear p m st; action = u_signal (uu st) sig
      in if action \<noteq> SIG_DFL_addr
         then let st = set_error 0 st;
                  old = tst (u_psflags (uu st)) SAS_OLDMASK;
                  returnmask = (if old then u_oldmask (uu st) else p_of st p_sigmask p);
                  st = (if old then updu (\<lambda>u. u\<lparr>u_psflags := u_psflags u AND NOT SAS_OLDMASK\<rparr>) st else st);
                  st = updp p (\<lambda>r. r\<lparr>p_sigmask := p_sigmask r OR (u_sigmask (uu st) sig OR m)\<rparr>) st;
                  st = updu (\<lambda>u. u\<lparr>u_ru := (u_ru u)\<lparr>ru_nsignals := ru_nsignals (u_ru u) + 1\<rparr>\<rparr>) st
              in rbind (sendsig action sig returnmask st) (\<lambda>st. Inr (Handler st))
         else if tst (sigprop sig) SA_CORE
         then let (ok, st) = core_allowed (updu (\<lambda>u. u\<lparr>u_arg := (u_arg u)(0 := of_nat sig)\<rparr>) st)
              in Inr (Exits (if ok \<and> dumped then sig + 128 else sig) st)
         else Inr (Exits sig st))"

subsection \<open>A handler and its return\<close>

text \<open>The frame is built unless the user's stack pointer lies below the data of the process.\<close>

definition sendsig_ok :: "nat \<Rightarrow> 'a sst_scheme \<Rightarrow> bool" where
  "sendsig_ok sig st \<longleftrightarrow>
     (let (sfp, s) = sendsig_stack sig st
      in tst (ss_flags (u_sigstk (uu s))) SA_ONSTACK \<or> \<not> sfp < p_of s p_daddr (curproc s) + u_dsize (uu s))"

lemma regs_upd [simp]: "regs (updp i f st) = regs st" "regs (updu g st) = regs st" "regs (set_error e st) = regs st"
  "regs (set_sigmask m st) = regs st" "regs (psig_clear p m st) = regs st"
  by (simp_all add: updp_def updu_def set_error_def set_sigmask_def psig_clear_def)

lemma sendsig_stack_same:
  "umem (snd (sendsig_stack sig st)) = umem st" "regs (snd (sendsig_stack sig st)) = regs st"
  "curproc (snd (sendsig_stack sig st)) = curproc st" "procs (snd (sendsig_stack sig st)) = procs st"
  by (simp_all add: sendsig_stack_def)

text \<open>What \<open>sendsig\<close> leaves: the frame below the new stack pointer, and the handler's registers.\<close>

lemma sendsig_normal:
  assumes "sendsig_ok sig st"
  shows "\<exists>st'. sendsig p sig m st = Inr st'
    \<and> umem st' = mstore (concat (map le32 (sigcontext (ss_flags (u_sigstk (uu st)) AND SA_ONSTACK) m (regs st)))) (regs st' FRAME_SP + 16) (umem st)
    \<and> curproc st' = curproc st \<and> p_of st' p_sigmask i = p_of st p_sigmask i \<and> regs st' FRAME_STATUS = regs st FRAME_STATUS
    \<and> regs st' FRAME_PC = p \<and> regs st' FRAME_R4 = of_nat sig \<and> regs st' FRAME_RA = u_sigtramp (uu st)
    \<and> p_of st' p_sigignore i = p_of st p_sigignore i \<and> p_of st' p_sigcatch i = p_of st p_sigcatch i
    \<and> u_signal (uu st') = u_signal (uu st) \<and> u_sigmask (uu st') = u_sigmask (uu st) \<and> u_oldmask (uu st') = u_oldmask (uu st)"
proof -
  obtain sfp s where s: "sendsig_stack sig st = (sfp, s)" by fastforce
  have same: "umem s = umem st" "regs s = regs st" "curproc s = curproc st" "procs s = procs st" "u_sigtramp (uu s) = u_sigtramp (uu st)"
    "u_signal (uu s) = u_signal (uu st)" "u_sigmask (uu s) = u_sigmask (uu st)" "u_oldmask (uu s) = u_oldmask (uu st)"
    using sendsig_stack_same [of sig st] s by (simp_all add: sendsig_stack_def split: if_splits) auto
  define s0 where "s0 = (if \<not> tst (ss_flags (u_sigstk (uu s))) SA_ONSTACK \<and> p_of s p_ssize (curproc s) < USER_DATA_END - sfp
     then updu (\<lambda>u. u\<lparr>u_ssize := USER_DATA_END - sfp\<rparr>)
       (updp (curproc s) (\<lambda>r. r\<lparr>p_ssize := USER_DATA_END - sfp, p_saddr := sfp\<rparr>) s) else s)"
  have s0: "umem s0 = umem st" "regs s0 = regs st" "curproc s0 = curproc st" "p_of s0 p_sigmask i = p_of st p_sigmask i"
    "u_sigtramp (uu s0) = u_sigtramp (uu st)" "p_of s0 p_sigignore i = p_of st p_sigignore i" "p_of s0 p_sigcatch i = p_of st p_sigcatch i"
    "u_signal (uu s0) = u_signal (uu st)" "u_sigmask (uu s0) = u_sigmask (uu st)" "u_oldmask (uu s0) = u_oldmask (uu st)"
    using same by (simp_all add: s0_def)
  have eq: "sendsig p sig m st = Inr (sendsig_frame p sig m (ss_flags (u_sigstk (uu st)) AND SA_ONSTACK) sfp s0)"
    using assms s by (auto simp: sendsig_def sendsig_ok_def s0_def Let_def)
  show ?thesis unfolding eq using s0 by (auto simp: sendsig_frame_def)
qed

lemma sc_regs_nth: "i \<le> FRAME_HI \<Longrightarrow> sc_regs ! i = i" "sc_regs ! 31 = FRAME_PC" "length sc_regs = 32"
  by (simp_all add: sc_regs_def nth_append)

lemma sigcontext_load:
  "words_le (mload (mstore (concat (map le32 (sigcontext os m rs))) a mem) a sizeof_sigcontext) = sigcontext os m rs"
proof -
  let ?bs = "concat (map le32 (sigcontext os m rs))"
  have len: "length ?bs = sizeof_sigcontext"
    unfolding length_concat_le32 by (simp add: sigcontext_def sc_regs_nth)
  then have "mload (mstore ?bs a mem) a sizeof_sigcontext = ?bs" using mload_mstore [of ?bs a mem] by simp
  then show ?thesis by (simp add: words_le_concat)
qed

text \<open>\<open>sigreturn\<close> on a context that is still what \<open>sendsig\<close> wrote.\<close>

lemma sigreturn_restores:
  assumes "words_le (mload (umem s) (regs s FRAME_SP + 16) sizeof_sigcontext) = sigcontext os m rs"
    and "\<not> baduaddr (regs s FRAME_SP + 16)" and "\<not> baduaddr (regs s FRAME_SP + 16 + of_nat sizeof_sigcontext)"
  shows "\<forall>i \<le> FRAME_PC. i \<noteq> FRAME_STATUS \<longrightarrow> regs (sigreturn s) i = rs i"
    and "p_of (sigreturn s) p_sigmask (curproc s) = m AND NOT sigcantmask"
    and "tst (ss_flags (u_sigstk (uu (sigreturn s)))) SA_ONSTACK = tst os SA_ONSTACK"
    and "u_error (uu (sigreturn s)) = EJUSTRETURN"
proof -
  have pc: "regs (sigreturn s) i = (if i \<le> FRAME_HI then sigcontext os m rs ! (i + 2)
      else if i = FRAME_PC then sigcontext os m rs ! 33 else regs s i)" for i
    using assms by (simp add: sigreturn_def Let_def)
  show "\<forall>i \<le> FRAME_PC. i \<noteq> FRAME_STATUS \<longrightarrow> regs (sigreturn s) i = rs i"
  proof (intro allI impI)
    fix i assume i: "i \<le> FRAME_PC" "i \<noteq> FRAME_STATUS"
    then consider "i \<le> FRAME_HI" | "i = FRAME_PC" by linarith
    then show "regs (sigreturn s) i = rs i" unfolding pc by cases (simp_all add: sigcontext_def sc_regs_nth)
  qed
  show "p_of (sigreturn s) p_sigmask (curproc s) = m AND NOT sigcantmask"
    "u_error (uu (sigreturn s)) = EJUSTRETURN"
    using assms by (simp_all add: sigreturn_def Let_def set_sigmask_def sigcontext_def)
  show "tst (ss_flags (u_sigstk (uu (sigreturn s)))) SA_ONSTACK = tst os SA_ONSTACK"
    using assms by (simp add: sigreturn_def Let_def set_sigmask_def sigcontext_def tst_put)
qed

subsection \<open>Kill and stop signals cannot be refused\<close>

text \<open>The signal state of the current process leaves the kill and stop signals alone.\<close>

definition unmaskable :: "'a kst_scheme \<Rightarrow> bool" where
  "unmaskable st \<longleftrightarrow>
     \<not> tst (p_of st p_sigmask (curproc st)) sigcantmask \<and> \<not> tst (p_of st p_sigignore (curproc st)) sigcantmask
     \<and> \<not> tst (p_of st p_sigcatch (curproc st)) sigcantmask \<and> (\<forall>s. \<not> tst (u_sigmask (uu st) s) sigcantmask)
     \<and> \<not> tst (u_oldmask (uu st)) sigcantmask \<and> u_signal (uu st) SIGKILL = 0 \<and> u_signal (uu st) SIGSTOP = 0"

lemma cant_other: "1 \<le> s \<Longrightarrow> s \<le> NSIG \<Longrightarrow> s \<noteq> SIGKILL \<Longrightarrow> s \<noteq> SIGSTOP \<Longrightarrow> sigmask s AND sigcantmask = 0"
proof -
  have "\<forall>s \<in> set [1..<33]. s \<noteq> SIGKILL \<longrightarrow> s \<noteq> SIGSTOP \<longrightarrow> sigmask s AND sigcantmask = 0"
    by (simp add: upt_conv_Cons sigmask_def sigcantmask_def)
  then show "1 \<le> s \<Longrightarrow> s \<le> NSIG \<Longrightarrow> s \<noteq> SIGKILL \<Longrightarrow> s \<noteq> SIGSTOP \<Longrightarrow> sigmask s AND sigcantmask = 0" by auto
qed

lemma unmaskable_cong:
  assumes "unmaskable st" and "curproc st' = curproc st"
    and "p_of st' p_sigmask (curproc st) = p_of st p_sigmask (curproc st)"
    and "p_of st' p_sigignore (curproc st) = p_of st p_sigignore (curproc st)"
    and "p_of st' p_sigcatch (curproc st) = p_of st p_sigcatch (curproc st)"
    and "u_sigmask (uu st') = u_sigmask (uu st)" and "u_oldmask (uu st') = u_oldmask (uu st)" and "u_signal (uu st') = u_signal (uu st)"
  shows "unmaskable st'"
  using assms unfolding unmaskable_def by simp

lemma unmaskable_error [simp]: "unmaskable (set_error e st) = unmaskable st"
  by (simp add: unmaskable_def)

lemma unmaskable_umem [simp]: "unmaskable (st\<lparr>umem := m\<rparr>) = unmaskable st"
  by (simp add: unmaskable_def)

lemma unmaskable_copyout: "unmaskable st \<Longrightarrow> copyoutw ws a st = (e, st') \<Longrightarrow> unmaskable st'"
  by (auto simp: copyoutw_def split: prod.splits)

lemma copyout_same: "copyoutw ws a st = (e, st') \<Longrightarrow> uu st' = uu st \<and> procs st' = procs st"
  by (auto simp: copyoutw_def split: prod.splits)

lemma unmaskable_set_sigmask: "unmaskable st \<Longrightarrow> \<not> tst m sigcantmask \<Longrightarrow> unmaskable (set_sigmask m st)"
  by (simp add: unmaskable_def set_sigmask_def)

lemma unmaskable_setsigvec:
  assumes u: "unmaskable st" and s: "1 \<le> s" "s \<le> NSIG" "s \<noteq> SIGKILL" "s \<noteq> SIGSTOP"
  shows "unmaskable (setsigvec s sa st)"
proof -
  have b: "tst (w OR sigmask n) sigcantmask = tst w sigcantmask" "tst (put on (sigmask n) w) sigcantmask = tst w sigcantmask"
    if "n = s \<or> n = SIGCHLD" for w n on
  proof -
    have "sigmask n AND sigcantmask = 0" using that cant_other [OF s] cant_other [of SIGCHLD] by auto
    from tst_bits_or [OF this] tst_put_other [OF this]
    show "tst (w OR sigmask n) sigcantmask = tst w sigcantmask" "tst (put on (sigmask n) w) sigcantmask = tst w sigcantmask" by auto
  qed
  have c: "\<not> tst (w AND NOT v) sigcantmask" if "\<not> tst w sigcantmask" for w v using tst_clear_imp that by blast
  show ?thesis using u s(3,4) unfolding unmaskable_def setsigvec_def Let_def
    by (auto simp: b tst_clear dest: tst_clear_imp)
qed

lemma unmaskable_sigaction: "unmaskable st \<Longrightarrow> unmaskable (sigaction st)"
proof -
  assume u: "unmaskable st"
  define s0 where "s0 = updu (\<lambda>u. u\<lparr>u_sigtramp := u_arg u 3\<rparr>) st"
  have u0: "unmaskable s0" unfolding s0_def by (rule unmaskable_cong [OF u]) simp_all
  show ?thesis
  proof (cases "(sarg s0 0 \<le> 0 \<or> sarg s0 0 \<ge> int NSIG) \<or> uarg s0 1 \<noteq> 0 \<and> (sarg s0 0 = int SIGKILL \<or> sarg s0 0 = int SIGSTOP)")
    case True
    then show ?thesis using u0 unfolding sigaction_def s0_def [symmetric] Let_def by auto
  next
    case False
    define s where "s = nat (sarg s0 0)"
    have r: "1 \<le> s" "s \<le> NSIG" using False by (auto simp: s_def)
    have nk: "s \<noteq> SIGKILL" "s \<noteq> SIGSTOP" if "uarg s0 1 \<noteq> 0" using False that by (auto simp: s_def)
    obtain e s1 where c: "(if uarg s0 2 \<noteq> 0 then copyoutw (sa_words (sa_current s s0)) (uarg s0 2) s0 else (0, s0)) = (e, s1)"
      by fastforce
    have u1: "unmaskable s1" and a1: "uarg s1 1 = uarg s0 1"
      using c u0 unmaskable_copyout [OF u0] by (auto simp: uarg_def dest: copyout_same split: if_splits)
    show ?thesis using False u1 a1 unmaskable_setsigvec [OF u1 r nk] c
      unfolding sigaction_def s0_def [symmetric] Let_def s_def [symmetric] by (auto split: prod.splits)
  qed
qed

lemma unmaskable_sigprocmask:
  assumes u: "unmaskable st"
  shows "unmaskable (sigprocmask st)"
proof -
  let ?o = "p_of st p_sigmask (curproc st)"
  have om: "\<not> tst ?o sigcantmask" using u by (simp add: unmaskable_def)
  have m: "unmaskable (set_sigmask (?o OR (w AND NOT sigcantmask)) st)" "unmaskable (set_sigmask (?o AND NOT w) st)"
    "unmaskable (set_sigmask (w AND NOT sigcantmask) st)" for w
    using om by (auto intro!: unmaskable_set_sigmask [OF u] simp: tst_or tst_clear dest: tst_clear_imp)
  obtain e s1 where c: "(if uarg st 1 = 0 then (0, st)
       else let (error, ws) = copyinw (uarg st 1) 1 st; newmask = ws ! 0
            in if error \<noteq> 0 then (error, st)
               else if sarg st 0 = SIG_BLOCK then (0, set_sigmask (?o OR (newmask AND NOT sigcantmask)) st)
               else if sarg st 0 = SIG_UNBLOCK then (0, set_sigmask (?o AND NOT newmask) st)
               else if sarg st 0 = SIG_SETMASK then (0, set_sigmask (newmask AND NOT sigcantmask) st)
               else (EINVAL, st)) = (e, s1)" by fastforce
  have u1: "unmaskable s1" using c m u by (auto simp: Let_def split: if_splits prod.splits)
  show ?thesis using unmaskable_copyout [OF u1] u1 unfolding sigprocmask_def Let_def c [unfolded Let_def]
    by (auto split: prod.splits)
qed

lemma unmaskable_sigpending: "unmaskable st \<Longrightarrow> unmaskable (sigpending st)"
  by (auto simp: sigpending_def split: prod.splits dest: unmaskable_copyout)

lemma unmaskable_sigsuspend:
  assumes "unmaskable st"
  shows "unmaskable (sigsuspend st)"
proof -
  have "unmaskable (updu (\<lambda>u. u\<lparr>u_oldmask := p_of st p_sigmask (curproc st), u_psflags := u_psflags u OR SAS_OLDMASK\<rparr>) st)"
    using assms by (simp add: unmaskable_def)
  from unmaskable_set_sigmask [OF this] show ?thesis unfolding sigsuspend_def Let_def by (simp add: tst_clear)
qed

lemma unmaskable_updu:
  assumes "unmaskable st" and "\<And>u. u_procp (f u) = u_procp u \<and> u_sigmask (f u) = u_sigmask u \<and> u_oldmask (f u) = u_oldmask u \<and> u_signal (f u) = u_signal u"
  shows "unmaskable (updu f st)"
  by (rule unmaskable_cong [OF assms(1)]) (simp_all add: assms(2))

lemma unmaskable_sigaltstack:
  assumes u: "unmaskable st"
  shows "unmaskable (sigaltstack st)"
proof -
  define s0 where "s0 = (if \<not> tst (u_psflags (uu st)) SAS_ALTSTACK
    then updu (\<lambda>u. u\<lparr>u_sigstk := (u_sigstk u)\<lparr>ss_flags := ss_flags (u_sigstk u) OR SA_DISABLE\<rparr>\<rparr>) st else st)"
  have u0: "unmaskable s0" unfolding s0_def using u by (auto intro: unmaskable_updu)
  obtain e s1 where c: "(if uarg s0 1 \<noteq> 0 then copyoutw (ss_words (u_sigstk (uu s0))) (uarg s0 1) s0 else (0, s0)) = (e, s1)" by fastforce
  have u1: "unmaskable s1" using c u0 unmaskable_copyout [OF u0] by (auto split: if_splits)
  show ?thesis unfolding sigaltstack_def Let_def s0_def [symmetric] c using u1
    by (auto intro: unmaskable_updu split: prod.splits)
qed

lemma unmaskable_sigstack:
  assumes u: "unmaskable st"
  shows "unmaskable (sigstack st)"
proof -
  let ?ss = "[ss_base (u_sigstk (uu st)), ss_flags (u_sigstk (uu st)) AND 1]"
  obtain e s1 where c: "(if uarg st 1 \<noteq> 0 then copyoutw ?ss (uarg st 1) st else (0, st)) = (e, s1)" by fastforce
  have u1: "unmaskable s1" using c u unmaskable_copyout [OF u] by (auto split: if_splits)
  show ?thesis unfolding sigstack_def Let_def c using u1 by (auto intro: unmaskable_updu split: prod.splits)
qed

lemma unmaskable_regs [simp]: "unmaskable (st\<lparr>regs := r\<rparr>) = unmaskable st"
  by (simp add: unmaskable_def)

lemma unmaskable_sigreturn: "unmaskable st \<Longrightarrow> unmaskable (sigreturn st)"
  unfolding sigreturn_def Let_def
  by (auto intro!: unmaskable_set_sigmask unmaskable_updu simp: tst_clear)

subsection \<open>Delivery to a handler\<close>

definition return_mask :: "'a kst_scheme \<Rightarrow> u32" where
  "return_mask st = (if tst (u_psflags (uu st)) SAS_OLDMASK then u_oldmask (uu st) else p_of st p_sigmask (curproc st))"

lemma postsig_handler:
  assumes h: "u_signal (uu st) sig \<noteq> SIG_DFL_addr" and ok: "sendsig_ok sig st"
  shows "\<exists>st'. postsig d sig st = Inr (Handler st')
    \<and> umem st' = mstore (concat (map le32 (sigcontext (ss_flags (u_sigstk (uu st)) AND SA_ONSTACK) (return_mask st) (regs st))))
        (regs st' FRAME_SP + 16) (umem st)
    \<and> curproc st' = curproc st
    \<and> p_of st' p_sigmask (curproc st) = p_of st p_sigmask (curproc st) OR (u_sigmask (uu st) sig OR sigmask sig)
    \<and> regs st' FRAME_STATUS = regs st FRAME_STATUS \<and> regs st' FRAME_PC = u_signal (uu st) sig \<and> regs st' FRAME_R4 = of_nat sig
    \<and> regs st' FRAME_RA = u_sigtramp (uu st)
    \<and> p_of st' p_sigignore (curproc st) = p_of st p_sigignore (curproc st)
    \<and> p_of st' p_sigcatch (curproc st) = p_of st p_sigcatch (curproc st)
    \<and> u_signal (uu st') = u_signal (uu st) \<and> u_sigmask (uu st') = u_sigmask (uu st) \<and> u_oldmask (uu st') = u_oldmask (uu st)"
proof -
  let ?p = "curproc st" and ?m = "sigmask sig"
  define s1 where "s1 = set_error 0 (psig_clear ?p ?m st)"
  define s2 where "s2 = (if tst (u_psflags (uu s1)) SAS_OLDMASK then updu (\<lambda>u. u\<lparr>u_psflags := u_psflags u AND NOT SAS_OLDMASK\<rparr>) s1 else s1)"
  define s3 where "s3 = updu (\<lambda>u. u\<lparr>u_ru := (u_ru u)\<lparr>ru_nsignals := ru_nsignals (u_ru u) + 1\<rparr>\<rparr>)
    (updp ?p (\<lambda>r. r\<lparr>p_sigmask := p_sigmask r OR (u_sigmask (uu s2) sig OR ?m)\<rparr>) s2)"
  have t: "tst (w AND NOT SAS_OLDMASK) SAS_ALTSTACK = tst w SAS_ALTSTACK" for w by (rule tst_bits_and) simp
  have s2: "umem s2 = umem st" "regs s2 = regs st" "curproc s2 = ?p" "u_signal (uu s2) = u_signal (uu st)" "u_sigmask (uu s2) = u_sigmask (uu st)"
    "u_oldmask (uu s2) = u_oldmask (uu st)" "u_sigstk (uu s2) = u_sigstk (uu st)" "u_sigonstack (uu s2) = u_sigonstack (uu st)"
    "u_dsize (uu s2) = u_dsize (uu st)" "u_sigtramp (uu s2) = u_sigtramp (uu st)"
    "tst (u_psflags (uu s2)) SAS_ALTSTACK = tst (u_psflags (uu st)) SAS_ALTSTACK"
    "p_of s2 p_sigmask i = p_of st p_sigmask i" "p_of s2 p_sigignore i = p_of st p_sigignore i" "p_of s2 p_sigcatch i = p_of st p_sigcatch i"
    "p_of s2 p_daddr i = p_of st p_daddr i" for i
    unfolding s2_def s1_def psig_clear_def using t [of "u_psflags (uu st)"] by simp_all
  have ok3: "sendsig_ok sig s3" using ok s2 unfolding sendsig_ok_def sendsig_stack_def s3_def by (auto split: if_splits)
  have eq: "postsig d sig st = rbind (sendsig (u_signal (uu st) sig) sig (return_mask st) s3) (\<lambda>st. Inr (Handler st))"
  proof -
    have "return_mask st = (if tst (u_psflags (uu s1)) SAS_OLDMASK then u_oldmask (uu s1) else p_of s1 p_sigmask ?p)"
      by (simp add: return_mask_def s1_def psig_clear_def)
    then show ?thesis unfolding postsig_def Let_def using h
      by (simp add: s3_def s2_def s1_def psig_clear_def)
  qed
  from sendsig_normal [OF ok3, of "u_signal (uu st) sig" "return_mask st" ?p] obtain st' where
    st': "sendsig (u_signal (uu st) sig) sig (return_mask st) s3 = Inr st'"
    and f: "umem st' = mstore (concat (map le32 (sigcontext (ss_flags (u_sigstk (uu s3)) AND SA_ONSTACK) (return_mask st) (regs s3)))) (regs st' FRAME_SP + 16) (umem s3)
    \<and> curproc st' = curproc s3 \<and> p_of st' p_sigmask ?p = p_of s3 p_sigmask ?p \<and> regs st' FRAME_STATUS = regs s3 FRAME_STATUS
    \<and> regs st' FRAME_PC = u_signal (uu st) sig \<and> regs st' FRAME_R4 = of_nat sig \<and> regs st' FRAME_RA = u_sigtramp (uu s3)
    \<and> p_of st' p_sigignore ?p = p_of s3 p_sigignore ?p \<and> p_of st' p_sigcatch ?p = p_of s3 p_sigcatch ?p
    \<and> u_signal (uu st') = u_signal (uu s3) \<and> u_sigmask (uu st') = u_sigmask (uu s3) \<and> u_oldmask (uu st') = u_oldmask (uu s3)" by blast
  show ?thesis unfolding eq st' using f s2 by (auto simp: s3_def)
qed

text \<open>What a process can do to its signal state; \<open>Deliver\<close> is the delivery of a signal to its handler.\<close>

datatype sigcall = Sigaction | Sigprocmask | Sigpending | Sigsuspend | Sigaltstack | Sigstack | Sigreturn | Deliver nat

fun sig_call :: "sigcall \<Rightarrow> 'a sst_scheme \<Rightarrow> 'a sst_scheme" where
  "sig_call Sigaction st = sigaction st"
| "sig_call Sigprocmask st = sigprocmask st"
| "sig_call Sigpending st = sigpending st"
| "sig_call Sigsuspend st = sigsuspend st"
| "sig_call Sigaltstack st = sigaltstack st"
| "sig_call Sigstack st = sigstack st"
| "sig_call Sigreturn st = sigreturn st"
| "sig_call (Deliver sig) st =
     (if 1 \<le> sig \<and> sig < NSIG \<and> u_signal (uu st) sig \<noteq> SIG_DFL_addr \<and> sendsig_ok sig st
      then case postsig False sig st of Inr (Handler st') \<Rightarrow> st' | _ \<Rightarrow> st else st)"

text \<open>Between calls the program changes its memory and registers, and it chooses the arguments.\<close>

definition user_runs :: "(u32 \<Rightarrow> u8) \<Rightarrow> (nat \<Rightarrow> u32) \<Rightarrow> (nat \<Rightarrow> u32) \<Rightarrow> 'a sst_scheme \<Rightarrow> 'a sst_scheme" where
  "user_runs m rs args st = updu (\<lambda>u. u\<lparr>u_arg := args\<rparr>) (st\<lparr>umem := m, regs := rs\<rparr>)"

fun sig_calls :: "(sigcall \<times> (u32 \<Rightarrow> u8) \<times> (nat \<Rightarrow> u32) \<times> (nat \<Rightarrow> u32)) list \<Rightarrow> 'a sst_scheme \<Rightarrow> 'a sst_scheme" where
  "sig_calls [] st = st"
| "sig_calls ((c, m, rs, args) # cs) st = sig_calls cs (sig_call c (user_runs m rs args st))"

lemma unmaskable_deliver:
  assumes u: "unmaskable st"
  shows "unmaskable (sig_call (Deliver sig) st)"
proof (cases "1 \<le> sig \<and> sig < NSIG \<and> u_signal (uu st) sig \<noteq> SIG_DFL_addr \<and> sendsig_ok sig st")
  case True
  then have nk: "sig \<noteq> SIGKILL" "sig \<noteq> SIGSTOP" using u by (auto simp: unmaskable_def)
  have "sigmask sig AND sigcantmask = 0" using True nk by (intro cant_other) auto
  then have m: "tst (w OR (v OR sigmask sig)) sigcantmask = (tst w sigcantmask \<or> tst v sigcantmask)" for w v
    using tst_bits_or [of "sigmask sig" sigcantmask v] by (simp add: tst_or)
  from postsig_handler [of st sig False] True obtain st' where h: "postsig False sig st = Inr (Handler st')" "curproc st' = curproc st"
    "p_of st' p_sigmask (curproc st) = p_of st p_sigmask (curproc st) OR (u_sigmask (uu st) sig OR sigmask sig)"
    "p_of st' p_sigignore (curproc st) = p_of st p_sigignore (curproc st)"
    "p_of st' p_sigcatch (curproc st) = p_of st p_sigcatch (curproc st)"
    "u_signal (uu st') = u_signal (uu st)" "u_sigmask (uu st') = u_sigmask (uu st)" "u_oldmask (uu st') = u_oldmask (uu st)" by blast
  have "unmaskable st'" using u h unfolding unmaskable_def by (simp add: m)
  then show ?thesis using True h(1) by simp
next
  case False
  then have "sig_call (Deliver sig) st = st" by (simp only: sig_call.simps if_False)
  then show ?thesis using u by simp
qed

lemma unmaskable_call: "unmaskable st \<Longrightarrow> unmaskable (sig_call c st)"
  by (cases c) (simp_all add: unmaskable_sigaction unmaskable_sigprocmask unmaskable_sigpending unmaskable_sigsuspend
    unmaskable_sigaltstack unmaskable_sigstack unmaskable_sigreturn unmaskable_deliver del: sig_call.simps(8))

lemma unmaskable_calls: "unmaskable st \<Longrightarrow> unmaskable (sig_calls cs st)"
proof (induction cs arbitrary: st)
  case (Cons x cs)
  obtain c m rs args where x: "x = (c, m, rs, args)" by (cases x)
  have "unmaskable (user_runs m rs args st)" using Cons.prems by (simp add: user_runs_def unmaskable_def)
  from Cons.IH [OF unmaskable_call [OF this, of c]] show ?case by (simp add: x)
qed simp

subsection \<open>Properties\<close>

text \<open>A process with a handler at 0x9d010000 for signal 1; its stack pointer is inside its stack.\<close>

definition frame_example :: sst where
  "frame_example = kst.extend (kst0\<lparr>
     procs := (procs kst0)(2 := proc0\<lparr>p_stat := SRUN, p_flag := SLOAD, p_pid := 5, p_sig := 1, p_sigcatch := 1, p_sigmask := 0x100000, p_daddr := USER_DATA_START\<rparr>),
     uu := user0\<lparr>u_procp := 2, u_dsize := 0x1000, u_signal := (\<lambda>_. 0)(1 := 0x9d010000)\<rparr>\<rparr>)
     (sst.fields ((\<lambda>_. 0)(FRAME_SP := 0x7f01f000, FRAME_PC := 0x9d000400)))"

lemma frame_example_sel [simp]:
  "uu frame_example = user0\<lparr>u_procp := 2, u_dsize := 0x1000, u_signal := (\<lambda>_. 0)(1 := 0x9d010000)\<rparr>"
  "procs frame_example 2 = proc0\<lparr>p_stat := SRUN, p_flag := SLOAD, p_pid := 5, p_sig := 1, p_sigcatch := 1, p_sigmask := 0x100000, p_daddr := USER_DATA_START\<rparr>"
  "regs frame_example = (\<lambda>_. 0)(FRAME_SP := 0x7f01f000, FRAME_PC := 0x9d000400)"
  by (simp_all add: frame_example_def kst.defs sst.defs kst0_def)

lemma frame_example_ok: "sendsig_ok 1 frame_example"
  by (simp add: sendsig_ok_def sendsig_stack_def user0_def proc0_def)

lemma frame_example_unmaskable: "unmaskable frame_example"
  by (simp add: unmaskable_def user0_def proc0_def sigcantmask_def sigmask_def tst_def)



text \<open>C7: Delivering a caught signal and returning from its handler is invisible to the interrupted
  program: \<open>postsig\<close> enters the handler with the signal blocked, and if the handler's code ends in
  \<open>sigreturn\<close> with the stack pointer and the context as \<open>sendsig\<close> left them, all saved registers have
  their old values and the signal mask is the old one, or after \<open>sigsuspend\<close> the one from before
  that call.\<close>

theorem handler_round_trip:
  assumes "u_signal (uu st) sig \<noteq> 0" and "1 \<le> sig" and "sig < NSIG" and "sendsig_ok sig st"
  shows "\<exists>st'. postsig d sig st = Inr (Handler st') \<and> regs st' FRAME_PC = u_signal (uu st) sig
    \<and> tst (p_of st' p_sigmask (curproc st)) (sigmask sig)
    \<and> (\<forall>s. regs s FRAME_SP = regs st' FRAME_SP
         \<and> mload (umem s) (regs s FRAME_SP + 16) sizeof_sigcontext = mload (umem st') (regs s FRAME_SP + 16) sizeof_sigcontext
         \<and> curproc s = curproc st
         \<and> \<not> baduaddr (regs s FRAME_SP + 16) \<and> \<not> baduaddr (regs s FRAME_SP + 16 + of_nat sizeof_sigcontext) \<longrightarrow>
           (\<forall>i \<le> FRAME_PC. i \<noteq> FRAME_STATUS \<longrightarrow> regs (sigreturn s) i = regs st i)
           \<and> p_of (sigreturn s) p_sigmask (curproc st) = return_mask st AND NOT sigcantmask
           \<and> tst (ss_flags (u_sigstk (uu (sigreturn s)))) SA_ONSTACK = tst (ss_flags (u_sigstk (uu st))) SA_ONSTACK)"
proof -
  from postsig_handler [OF assms(1,4), of d] obtain st' where h: "postsig d sig st = Inr (Handler st')"
    "umem st' = mstore (concat (map le32 (sigcontext (ss_flags (u_sigstk (uu st)) AND SA_ONSTACK) (return_mask st) (regs st))))
        (regs st' FRAME_SP + 16) (umem st)"
    "p_of st' p_sigmask (curproc st) = p_of st p_sigmask (curproc st) OR (u_sigmask (uu st) sig OR sigmask sig)"
    "regs st' FRAME_PC = u_signal (uu st) sig" by blast
  have "bit (sigmask sig) (sig - 1)" using assms(2,3) bit_sigmask [of "sig - 1" "sig - 1"] by simp
  then have b: "tst (p_of st' p_sigmask (curproc st)) (sigmask sig)" unfolding h(3) by (auto simp: tst_bit_mask bit_simps)
  have os: "tst (w AND SA_ONSTACK) SA_ONSTACK = tst w SA_ONSTACK" for w by (simp add: tst_def and.assoc)
  show ?thesis
  proof (intro exI [of _ st'] conjI allI impI h(1,4) b)
    fix s assume s: "regs s FRAME_SP = regs st' FRAME_SP
         \<and> mload (umem s) (regs s FRAME_SP + 16) sizeof_sigcontext = mload (umem st') (regs s FRAME_SP + 16) sizeof_sigcontext
         \<and> curproc s = curproc st
         \<and> \<not> baduaddr (regs s FRAME_SP + 16) \<and> \<not> baduaddr (regs s FRAME_SP + 16 + of_nat sizeof_sigcontext)"
    then have c: "words_le (mload (umem s) (regs s FRAME_SP + 16) sizeof_sigcontext)
        = sigcontext (ss_flags (u_sigstk (uu st)) AND SA_ONSTACK) (return_mask st) (regs st)"
      using sigcontext_load [of _ _ _ "regs st' FRAME_SP + 16" "umem st"] h(2) by metis
    note r = sigreturn_restores [OF c] s
    show "regs (sigreturn s) i = regs st i" if "i \<le> FRAME_PC" "i \<noteq> FRAME_STATUS" for i using r(1) s that by blast
    show "p_of (sigreturn s) p_sigmask (curproc st) = return_mask st AND NOT sigcantmask" using r(2) s by metis
    show "tst (ss_flags (u_sigstk (uu (sigreturn s)))) SA_ONSTACK = tst (ss_flags (u_sigstk (uu st))) SA_ONSTACK"
      using r(3) s os by metis
  qed
qed

theorem handler_round_trip_witness:
  "\<exists>st'. postsig False 1 frame_example = Inr (Handler st') \<and> regs st' FRAME_PC = 0x9d010000"
  using handler_round_trip [OF _ _ _ frame_example_ok, of False] by auto


end
