(* ===== verification/Clist.thy ===== *)
theory Clist
  imports Sig
begin

text \<open>
  Character lists of the terminal driver (\<open>sys/kernel/tty_subr.c\<close>, \<open>cinit\<close> of
  \<open>sys/kernel/init_main.c\<close>): queues of bytes kept in linked blocks of \<open>CBSIZE\<close> bytes that
  come from one pool. A block is known by its address, a multiple of its size; a character
  pointer is an address inside a block or just past its end, and the code finds the block by
  rounding it down. The pool, its free list and the flag \<open>cwaiting\<close> are fields added to the
  kernel state; freeing a block wakes the processes that wait for one. Buffers outside the
  pool are lists of bytes, so \<open>bcopy\<close> to and from them reads and writes lists.
\<close>

subsection \<open>Data\<close>

abbreviation (input) CBLOCK :: nat where "CBLOCK \<equiv> 32"
abbreviation (input) CBSIZE :: nat where "CBSIZE \<equiv> 28"
abbreviation (input) NCLIST :: nat where "NCLIST \<equiv> 32"

record clist =
  c_cc :: int
  c_cf :: nat
  c_cl :: nat

record cst = kst +
  c_next :: "nat \<Rightarrow> nat option"
  c_info :: "nat \<Rightarrow> u8"
  cfreelist :: "nat option"
  cfreecount :: int
  cwaiting :: bool
  a_cwaiting :: u32
  a_cfree :: nat

text \<open>\<open>bp->c_info\<close> as an address; for a NULL \<open>bp\<close> it is the offset of the member.\<close>

definition info_of :: "nat option \<Rightarrow> nat" where
  "info_of bp = (case bp of None \<Rightarrow> 4 | Some b \<Rightarrow> b + 4)"

text \<open>\<open>(int) cp & ~CROUND\<close>\<close>

definition block_of :: "nat \<Rightarrow> nat" where
  "block_of cp = cp div CBLOCK * CBLOCK"

definition clist0 :: clist where
  "clist0 = \<lparr>c_cc = 0, c_cf = 0, c_cl = 0\<rparr>"

subsection \<open>Operations\<close>

definition cb_push :: "nat \<Rightarrow> 'a cst_scheme \<Rightarrow> 'a cst_scheme" where
  "cb_push bp st = st\<lparr>c_next := (c_next st)(bp := cfreelist st), cfreelist := Some bp, cfreecount := cfreecount st + int CBSIZE\<rparr>"

definition cb_free :: "nat \<Rightarrow> 'a cst_scheme \<Rightarrow> 'a cst_scheme res" where
  "cb_free bp st =
     (let st = cb_push bp st
      in if cwaiting st then rbind (wakeup (a_cwaiting st) st) (\<lambda>st. Inr (st\<lparr>cwaiting := False\<rparr>)) else Inr st)"

text \<open>Taking the first free block: \<open>cfreelist = bp->c_next; cfreecount -= CBSIZE; bp->c_next = NULL\<close>.\<close>

definition cb_alloc :: "nat \<Rightarrow> 'a cst_scheme \<Rightarrow> 'a cst_scheme" where
  "cb_alloc bp st = st\<lparr>cfreelist := c_next st bp, cfreecount := cfreecount st - int CBSIZE, c_next := (c_next st)(bp := None)\<rparr>"

text \<open>What \<open>getc\<close> and \<open>q_to_b\<close> do after advancing \<open>c_cf\<close> and decreasing \<open>c_cc\<close>: the block just left is freed.\<close>

definition clist_took :: "clist \<Rightarrow> 'a cst_scheme \<Rightarrow> (clist \<times> 'a cst_scheme) res" where
  "clist_took q st =
     (if c_cc q \<le> 0
      then rbind (cb_free (block_of (c_cf q - 1)) st) (\<lambda>st. Inr (q\<lparr>c_cf := 0, c_cl := 0\<rparr>, st))
      else if c_cf q mod CBLOCK = 0
      then rbind (cb_free (c_cf q - CBLOCK) st) (\<lambda>st'. Inr (q\<lparr>c_cf := info_of (c_next st (c_cf q - CBLOCK))\<rparr>, st'))
      else Inr (q, st))"

definition getc :: "clist \<Rightarrow> 'a cst_scheme \<Rightarrow> (int \<times> clist \<times> 'a cst_scheme) res" where
  "getc p st =
     (if c_cc p \<le> 0 then Inr (-1, p\<lparr>c_cc := 0, c_cf := 0, c_cl := 0\<rparr>, st)
      else let c = uint (c_info st (c_cf p))
           in rbind (clist_took (p\<lparr>c_cf := c_cf p + 1, c_cc := c_cc p - 1\<rparr>) st) (\<lambda>(p, st). Inr (c, p, st)))"

primrec q_to_b_go :: "nat \<Rightarrow> clist \<Rightarrow> nat \<Rightarrow> u8 list \<Rightarrow> 'a cst_scheme \<Rightarrow> (u8 list \<times> clist \<times> 'a cst_scheme) res" where
  "q_to_b_go 0 q cc out st = Inl Loop"
| "q_to_b_go (Suc n) q cc out st =
     (if cc = 0 then Inr (out, q, st)
      else let nc = min (min (CBLOCK - c_cf q mod CBLOCK) cc) (nat (c_cc q));
               out = out @ map (\<lambda>i. c_info st (c_cf q + i)) [0..<nc];
               q = q\<lparr>c_cf := c_cf q + nc, c_cc := c_cc q - int nc\<rparr>
           in rbind (clist_took q st) (\<lambda>(q', st).
                if c_cc q \<le> 0 then Inr (out, q', st) else q_to_b_go n q' (cc - nc) out st))"

definition q_to_b :: "clist \<Rightarrow> int \<Rightarrow> 'a cst_scheme \<Rightarrow> (u8 list \<times> clist \<times> 'a cst_scheme) res" where
  "q_to_b q cc st =
     (if cc \<le> 0 then Inr ([], q, st)
      else if c_cc q \<le> 0 then Inr ([], q\<lparr>c_cc := 0, c_cf := 0, c_cl := 0\<rparr>, st)
      else q_to_b_go (Suc (nat cc)) q (nat cc) [] st)"

text \<open>The scan of \<open>ndqb\<close> for a character with one of the bits of \<open>flag\<close>; a \<open>char\<close> is sign extended.\<close>

primrec ndqb_scan :: "nat \<Rightarrow> nat \<Rightarrow> u32 \<Rightarrow> nat \<Rightarrow> 'a cst_scheme \<Rightarrow> nat" where
  "ndqb_scan 0 p flag k st = k"
| "ndqb_scan (Suc n) p flag k st =
     (if tst (scast (c_info st (p + k))) flag then k else ndqb_scan n p flag (Suc k) st)"

definition ndqb :: "clist \<Rightarrow> u32 \<Rightarrow> 'a cst_scheme \<Rightarrow> int" where
  "ndqb q flag st =
     (if c_cc q \<le> 0 then - c_cc q
      else let cc = int (block_of (c_cf q + CBSIZE)) - int (c_cf q);
               cc = (if c_cc q < cc then c_cc q else cc)
           in if flag \<noteq> 0 then int (ndqb_scan (nat cc) (c_cf q) flag 0 st) else cc)"

primrec ndflush_go :: "nat \<Rightarrow> clist \<Rightarrow> int \<Rightarrow> 'a cst_scheme \<Rightarrow> (clist \<times> 'a cst_scheme) res" where
  "ndflush_go 0 q cc st = Inl Loop"
| "ndflush_go (Suc n) q cc st =
     (if cc > 0 \<and> c_cc q \<noteq> 0
      then let bp = block_of (c_cf q);
               end' = (if bp = block_of (c_cl q - 1) then c_cl q else bp + CBLOCK);
               rem = int end' - int (c_cf q)
           in if cc \<ge> rem
              then rbind (cb_free bp st) (\<lambda>st'.
                     ndflush_go n (q\<lparr>c_cc := c_cc q - rem, c_cf := info_of (c_next st bp)\<rparr>) (cc - rem) st')
              else let q = q\<lparr>c_cc := c_cc q - cc, c_cf := c_cf q + nat cc\<rparr>
                   in if c_cc q \<le> 0 then rbind (cb_free bp st) (\<lambda>st. Inr (q, st)) else Inr (q, st)
      else Inr (q, st))"

definition ndflush :: "clist \<Rightarrow> int \<Rightarrow> 'a cst_scheme \<Rightarrow> (clist \<times> 'a cst_scheme) res" where
  "ndflush q cc st =
     (if c_cc q \<le> 0 then Inr (q, st)
      else rbind (ndflush_go (Suc (nat (c_cc q))) q cc st) (\<lambda>(q, st).
             Inr (if c_cc q \<le> 0 then q\<lparr>c_cf := 0, c_cl := 0, c_cc := 0\<rparr> else q, st)))"

text \<open>
  Where the next character goes: a fresh block for an empty list, a further block when the
  last one is full (\<open>None\<close>: no free block).
\<close>

definition clist_first :: "clist \<Rightarrow> 'a cst_scheme \<Rightarrow> (nat \<times> clist \<times> 'a cst_scheme) option" where
  "clist_first p st =
     (case cfreelist st of None \<Rightarrow> None | Some bp \<Rightarrow> Some (bp + 4, p\<lparr>c_cf := bp + 4\<rparr>, cb_alloc bp st))"

definition clist_more :: "nat \<Rightarrow> 'a cst_scheme \<Rightarrow> nat option \<times> 'a cst_scheme" where
  "clist_more cp st =
     (let st = st\<lparr>c_next := (c_next st)(cp - CBLOCK := cfreelist st)\<rparr>
      in case cfreelist st of None \<Rightarrow> (None, st) | Some bp \<Rightarrow> (Some (bp + 4), cb_alloc bp st))"

definition putc :: "u8 \<Rightarrow> clist \<Rightarrow> 'a cst_scheme \<Rightarrow> int \<times> clist \<times> 'a cst_scheme" where
  "putc c p st =
     (let (cp, p, st) =
        (if c_cl p = 0 \<or> c_cc p < 0
         then (case clist_first p st of None \<Rightarrow> (None, p, st) | Some (cp, p, st) \<Rightarrow> (Some cp, p, st))
         else if c_cl p mod CBLOCK = 0 then (case clist_more (c_cl p) st of (cp, st) \<Rightarrow> (cp, p, st))
         else (Some (c_cl p), p, st))
      in case cp of
           None \<Rightarrow> (-1, p, st)
         | Some cp \<Rightarrow> (0, p\<lparr>c_cc := c_cc p + 1, c_cl := cp + 1\<rparr>, st\<lparr>c_info := (c_info st)(cp := c)\<rparr>))"

text \<open>Storing a list of bytes at an address.\<close>

definition c_store :: "u8 list \<Rightarrow> nat \<Rightarrow> 'a cst_scheme \<Rightarrow> 'a cst_scheme" where
  "c_store bs a st = st\<lparr>c_info := (\<lambda>x. if a \<le> x \<and> x < a + length bs then bs ! (x - a) else c_info st x)\<rparr>"

text \<open>The loop of \<open>b_to_q\<close>: the end pointer \<open>cq\<close>, the bytes not yet transferred.\<close>

primrec b_to_q_go :: "nat \<Rightarrow> u8 list \<Rightarrow> nat \<Rightarrow> 'a cst_scheme \<Rightarrow> (u8 list \<times> nat \<times> 'a cst_scheme) res" where
  "b_to_q_go 0 cp cq st = Inl Loop"
| "b_to_q_go (Suc n) cp cq st =
     (if cp = [] then Inr ([], cq, st)
      else case (if cq mod CBLOCK = 0 then clist_more cq st else (Some cq, st)) of
             (None, st) \<Rightarrow> Inr (cp, cq, st)
           | (Some cq, st) \<Rightarrow>
               let nc = min (length cp) (CBLOCK - cq mod CBLOCK)
               in b_to_q_go n (drop nc cp) (cq + nc) (c_store (take nc cp) cq st))"

definition b_to_q :: "u8 list \<Rightarrow> clist \<Rightarrow> 'a cst_scheme \<Rightarrow> (int \<times> clist \<times> 'a cst_scheme) res" where
  "b_to_q cp q st =
     (if cp = [] then Inr (0, q, st)
      else let start = (if c_cl q = 0 \<or> c_cc q < 0
                        then (case clist_first q st of None \<Rightarrow> None | Some (cq, q, st) \<Rightarrow> Some (cq, q, st))
                        else Some (c_cl q, q, st))
           in case start of
                None \<Rightarrow> Inr (int (length cp), q\<lparr>c_cl := c_cl q\<rparr>, st)
              | Some (cq, q, st) \<Rightarrow>
                  rbind (b_to_q_go (Suc (length cp)) cp cq st) (\<lambda>(rest, cq, st).
                    Inr (int (length rest), q\<lparr>c_cl := cq, c_cc := c_cc q + int (length cp - length rest)\<rparr>, st)))"

definition nextc :: "clist \<Rightarrow> nat \<Rightarrow> 'a cst_scheme \<Rightarrow> nat" where
  "nextc p cp st =
     (if c_cc p \<noteq> 0 \<and> cp + 1 \<noteq> c_cl p
      then if (cp + 1) mod CBLOCK = 0 then info_of (c_next st (cp + 1 - CBLOCK)) else cp + 1
      else 0)"

text \<open>The search of \<open>unputc\<close> for the block before \<open>target\<close>.\<close>

primrec unputc_prev :: "nat \<Rightarrow> nat option \<Rightarrow> nat \<Rightarrow> 'a cst_scheme \<Rightarrow> nat res" where
  "unputc_prev 0 bp target st = Inl Loop"
| "unputc_prev (Suc n) bp target st =
     (case bp of
        None \<Rightarrow> Inl Fault
      | Some b \<Rightarrow> if c_next st b = Some target then Inr b else unputc_prev n (c_next st b) target st)"

definition unputc :: "clist \<Rightarrow> 'a cst_scheme \<Rightarrow> (int \<times> clist \<times> 'a cst_scheme) res" where
  "unputc p st =
     (if c_cc p \<le> 0 then Inr (-1, p, st)
      else let cl = c_cl p - 1; c = sint (c_info st cl); p = p\<lparr>c_cl := cl, c_cc := c_cc p - 1\<rparr>
           in if c_cc p \<le> 0 then Inr (c, p\<lparr>c_cl := 0, c_cf := 0\<rparr>, cb_push (block_of cl) st)
              else if cl mod CBLOCK = 4
              then rbind (unputc_prev (Suc NCLIST) (Some (block_of (c_cf p))) (block_of cl) st) (\<lambda>obp.
                     let st = cb_push (block_of cl) st
                     in Inr (c, p\<lparr>c_cl := obp + CBLOCK\<rparr>, st\<lparr>c_next := (c_next st)(obp := None)\<rparr>))
              else Inr (c, p, st))"

primrec catq_go :: "nat \<Rightarrow> clist \<Rightarrow> clist \<Rightarrow> 'a cst_scheme \<Rightarrow> (clist \<times> clist \<times> 'a cst_scheme) res" where
  "catq_go 0 from to st = Inl Loop"
| "catq_go (Suc n) from to st =
     (if c_cc from > 0
      then rbind (q_to_b from (int (CBSIZE * 4)) st) (\<lambda>(bbuf, from, st).
             rbind (b_to_q bbuf to st) (\<lambda>(_, to, st). catq_go n from to st))
      else Inr (from, to, st))"

definition catq :: "clist \<Rightarrow> clist \<Rightarrow> 'a cst_scheme \<Rightarrow> (clist \<times> clist \<times> 'a cst_scheme) res" where
  "catq from to st =
     (if c_cc to = 0 then Inr (clist0, from, st)
      else catq_go (Suc (nat (c_cc from))) from to st)"

text \<open>\<open>cinit\<close> puts the aligned blocks of the array \<open>cfree\<close> on the free list.\<close>

function cinit_go :: "nat \<Rightarrow> nat \<Rightarrow> 'a cst_scheme \<Rightarrow> 'a cst_scheme" where
  "cinit_go hi cp st = (if cp \<le> hi then cinit_go hi (cp + CBLOCK) (cb_push cp st) else st)"
  by pat_completeness auto
termination
  by (relation "measure (\<lambda>(hi, cp, st). Suc hi - cp)") auto

declare cinit_go.simps [simp del]

definition cinit :: "'a cst_scheme \<Rightarrow> 'a cst_scheme" where
  "cinit st = cinit_go (a_cfree st + CBLOCK * (NCLIST - 1)) (block_of (a_cfree st + 31)) st"

subsection \<open>Blocks and positions\<close>

definition blk :: "nat \<Rightarrow> bool" where
  "blk b \<longleftrightarrow> b mod CBLOCK = 0 \<and> b > 0"

text \<open>The address of character \<open>j\<close> of the blocks \<open>bs\<close>, and of the place after the first \<open>n\<close> characters.\<close>

definition pos :: "nat list \<Rightarrow> nat \<Rightarrow> nat" where
  "pos bs j = bs ! (j div CBSIZE) + 4 + j mod CBSIZE"

definition c_end :: "nat list \<Rightarrow> nat \<Rightarrow> nat" where
  "c_end bs n = (if n = 0 then pos bs 0 else pos bs (n - 1) + 1)"

lemma blk_add:
  assumes "blk b" and "x < CBLOCK"
  shows "block_of (b + x) = b" and "(b + x) mod CBLOCK = x"
proof -
  obtain m where b: "b = CBLOCK * m" using assms(1) by (auto simp: blk_def elim: dvdE)
  show "(b + x) mod CBLOCK = x" using assms(2) by (simp add: b)
  have "(CBLOCK * m + x) div CBLOCK = m" using assms(2) by simp
  then show "block_of (b + x) = b" by (simp add: block_of_def b)
qed

lemma pos_block:
  assumes "\<forall>b \<in> set bs. blk b" and "j < CBSIZE * length bs"
  shows "block_of (pos bs j) = bs ! (j div CBSIZE)" and "pos bs j mod CBLOCK = 4 + j mod CBSIZE" and "bs ! (j div CBSIZE) \<in> set bs"
proof -
  have "j div CBSIZE < length bs" using assms(2) by (simp add: less_mult_imp_div_less mult.commute)
  then show m: "bs ! (j div CBSIZE) \<in> set bs" by simp
  have "4 + j mod CBSIZE < CBLOCK" using mod_less_divisor [of CBSIZE j] by linarith
  from blk_add [OF _ this] m assms(1) show "block_of (pos bs j) = bs ! (j div CBSIZE)" "pos bs j mod CBLOCK = 4 + j mod CBSIZE"
    by (auto simp: pos_def add.assoc)
qed

lemma pos_inj:
  assumes "\<forall>b \<in> set bs. blk b" and "distinct bs" and "i < CBSIZE * length bs" and "j < CBSIZE * length bs" and "pos bs i = pos bs j"
  shows "i = j"
proof -
  have "i mod CBSIZE = j mod CBSIZE" using pos_block(2) [OF assms(1,3)] pos_block(2) [OF assms(1,4)] assms(5) by simp
  moreover have "bs ! (i div CBSIZE) = bs ! (j div CBSIZE)" using pos_block(1) [OF assms(1,3)] pos_block(1) [OF assms(1,4)] assms(5) by simp
  then have "i div CBSIZE = j div CBSIZE"
    using assms(2-4) by (simp add: nth_eq_iff_index_eq less_mult_imp_div_less mult.commute)
  ultimately show ?thesis by (metis div_mult_mod_eq)
qed

lemma pos_tl: "bs \<noteq> [] \<Longrightarrow> pos bs (CBSIZE + j) = pos (tl bs) j"
proof -
  assume "bs \<noteq> []"
  moreover have "(CBSIZE + j) div CBSIZE = Suc (j div CBSIZE)" using div_add_self1 [of CBSIZE j] by simp
  ultimately show ?thesis by (cases bs) (simp_all add: pos_def)
qed

lemma pos_append: "j < CBSIZE * length bs \<Longrightarrow> pos (bs @ cs) j = pos bs j"
  by (simp add: pos_def nth_append less_mult_imp_div_less mult.commute)

lemma c_end_boundary:
  assumes b: "\<forall>b \<in> set bs. blk b" and n: "n \<le> CBSIZE * length bs" and "bs \<noteq> []"
  shows "c_end bs n mod CBLOCK = 0 \<longleftrightarrow> n > 0 \<and> n mod CBSIZE = 0"
    and "n mod CBSIZE \<noteq> 0 \<or> n = 0 \<Longrightarrow> c_end bs n = pos bs n"
    and "n > 0 \<Longrightarrow> n mod CBSIZE = 0 \<Longrightarrow> c_end bs n = bs ! (n div CBSIZE - 1) + CBLOCK"
proof -
  have dm: "(n - 1) div CBSIZE = n div CBSIZE - 1 \<and> (n - 1) mod CBSIZE = 27" if "n > 0" "n mod CBSIZE = 0"
  proof -
    have e: "n = CBSIZE * (n div CBSIZE)" using that(2) by (simp add: dvd_eq_mod_eq_0)
    with that(1) obtain k where "n div CBSIZE = Suc k" by (cases "n div CBSIZE") auto
    with e obtain m where m: "n = CBSIZE * Suc m" by simp
    have "n - 1 = 27 + CBSIZE * m" by (simp add: m)
    then show ?thesis by (simp add: m)
  qed
  have dn: "(n - 1) div CBSIZE = n div CBSIZE \<and> Suc ((n - 1) mod CBSIZE) = n mod CBSIZE" if "n mod CBSIZE \<noteq> 0"
  proof -
    define a m where "a = n mod CBSIZE" and "m = n div CBSIZE"
    have a: "n = CBSIZE * m + a" "0 < a" "a < CBSIZE" using that by (simp_all add: a_def m_def)
    then have "n - 1 = (a - 1) + CBSIZE * m" by linarith
    then have "(n - 1) div CBSIZE = m" "(n - 1) mod CBSIZE = a - 1" using a(3) by simp_all
    then show ?thesis using a(2) by (simp add: a_def m_def)
  qed
  show e1: "n mod CBSIZE \<noteq> 0 \<or> n = 0 \<Longrightarrow> c_end bs n = pos bs n"
    using dn by (auto simp: c_end_def pos_def)
  show e2: "n > 0 \<Longrightarrow> n mod CBSIZE = 0 \<Longrightarrow> c_end bs n = bs ! (n div CBSIZE - 1) + CBLOCK"
    using dm by (auto simp: c_end_def pos_def)
  show "c_end bs n mod CBLOCK = 0 \<longleftrightarrow> n > 0 \<and> n mod CBSIZE = 0"
  proof (cases "n > 0 \<and> n mod CBSIZE = 0")
    case True
    have "n div CBSIZE \<le> length bs" using div_le_mono [OF n, of CBSIZE] by simp
    then have "n div CBSIZE - 1 < length bs" using assms(3) by (cases "n div CBSIZE") auto
    then have "blk (bs ! (n div CBSIZE - 1))" using b by simp
    then have "c_end bs n mod CBLOCK = 0" using e2 True by (simp add: blk_def)
    then show ?thesis using True by simp
  next
    case False
    then have c: "c_end bs n = pos bs n" using e1 by auto
    have "n < CBSIZE * length bs" using False n assms(3) by (cases "n = CBSIZE * length bs") auto
    then have "c_end bs n mod CBLOCK = 4 + n mod CBSIZE" using pos_block(2) [OF b] c by simp
    then show ?thesis using False by simp
  qed
qed

end
