(* ===== verification/Clistq.thy ===== *)
theory Clistq
  imports Clist
begin

text \<open>
  Character lists as queues of bytes: the representation of a list of bytes in blocks, and
  the operations of theory \<open>Clist\<close> related to operations on lists. Blocks move between the
  queue and the free list and are never lost, and blocks that belong to other queues are not
  touched.
\<close>

subsection \<open>Representation\<close>

text \<open>
  The bytes \<open>xs\<close> lie in the blocks \<open>bs\<close>, starting \<open>off\<close> bytes into the first. A block just
  allocated holds no byte yet.
\<close>

definition cseg :: "'a cst_scheme \<Rightarrow> u8 list \<Rightarrow> nat list \<Rightarrow> nat \<Rightarrow> bool" where
  "cseg st xs bs off \<longleftrightarrow>
     off < CBSIZE \<and> bs \<noteq> [] \<and> off + length xs \<le> CBSIZE * length bs \<and> CBSIZE * (length bs - 1) \<le> off + length xs
     \<and> (xs \<noteq> [] \<longrightarrow> CBSIZE * (length bs - 1) < off + length xs)
     \<and> chain (c_next st) (Some (hd bs)) bs \<and> (\<forall>b \<in> set bs. blk b)
     \<and> (\<forall>j < length xs. c_info st (pos bs (off + j)) = xs ! j)"

definition cq :: "'a cst_scheme \<Rightarrow> clist \<Rightarrow> u8 list \<Rightarrow> nat list \<Rightarrow> nat \<Rightarrow> bool" where
  "cq st q xs bs off \<longleftrightarrow>
     (if xs = [] then q = clist0 \<and> bs = [] \<and> off = 0
      else cseg st xs bs off
        \<and> q = \<lparr>c_cc = int (length xs), c_cf = pos bs off, c_cl = c_end bs (off + length xs)\<rparr>)"

definition free :: "'a cst_scheme \<Rightarrow> nat list \<Rightarrow> bool" where
  "free st fs \<longleftrightarrow> chain (c_next st) (cfreelist st) fs \<and> (\<forall>b \<in> set fs. blk b) \<and> cfreecount st = int (CBSIZE * length fs)
     \<and> (\<exists>rq sq. queues st rq sq)"

text \<open>The blocks outside \<open>B\<close> are as they were.\<close>

definition others :: "nat set \<Rightarrow> 'a cst_scheme \<Rightarrow> 'a cst_scheme \<Rightarrow> bool" where
  "others B st st' \<longleftrightarrow> (\<forall>b. b \<notin> B \<longrightarrow> c_next st' b = c_next st b) \<and> (\<forall>a. block_of a \<notin> B \<longrightarrow> c_info st' a = c_info st a)"

lemma others_refl [simp]: "others B st st"
  by (simp add: others_def)

lemma others_trans: "others B st st1 \<Longrightarrow> others B st1 st2 \<Longrightarrow> others B st st2"
  by (simp add: others_def)

lemma others_mono: "others A st st' \<Longrightarrow> A \<subseteq> B \<Longrightarrow> others B st st'"
  by (auto simp: others_def)

lemma cseg_others:
  assumes "cseg st xs bs off" and "others B st st'" and "set bs \<inter> B = {}"
  shows "cseg st' xs bs off"
proof -
  have nx: "c_next st' b = c_next st b" if "b \<in> set bs" for b using assms(2,3) that by (auto simp: others_def)
  have "c_info st' (pos bs (off + j)) = c_info st (pos bs (off + j))" if "j < length xs" for j
  proof -
    have "off + j < CBSIZE * length bs" using assms(1) that by (simp add: cseg_def)
    from pos_block [OF _ this] have "block_of (pos bs (off + j)) \<in> set bs" using assms(1) by (simp add: cseg_def)
    then show ?thesis using assms(2,3) by (auto simp: others_def)
  qed
  then show ?thesis using assms(1) nx chain_cong [of bs "c_next st'" "c_next st"] by (simp add: cseg_def)
qed

lemma cq_others: "cq st q xs bs off \<Longrightarrow> others B st st' \<Longrightarrow> set bs \<inter> B = {} \<Longrightarrow> cq st' q xs bs off"
  using cseg_others by (auto simp: cq_def split: if_splits)

lemma more_same:
  assumes "kst.more st' = kst.more (st :: 'a cst_scheme)"
  shows "c_next st' = c_next st" "c_info st' = c_info st" "cfreelist st' = cfreelist st" "cfreecount st' = cfreecount st"
    "cwaiting st' = cwaiting st" "a_cwaiting st' = a_cwaiting st" "a_cfree st' = a_cfree st"
  using assms by (cases st, cases st', simp)+

lemma queues_cst [simp]:
  "queues (st\<lparr>c_next := x\<rparr>) = queues st" "queues (st\<lparr>c_info := y\<rparr>) = queues st"
  "queues (st\<lparr>cfreelist := z\<rparr>) = queues st" "queues (st\<lparr>cfreecount := v\<rparr>) = queues st"
  "queues (st\<lparr>cwaiting := w\<rparr>) = queues st"
  by (intro ext, simp add: queues_def qlinks_def)+

subsection \<open>Free blocks\<close>

lemma cb_push_free: "free st fs \<Longrightarrow> blk b \<Longrightarrow> b \<notin> set fs \<Longrightarrow> free (cb_push b st) (b # fs)"
  by (auto simp: free_def cb_push_def)

lemma cb_push_others: "others {b} st (cb_push b st)" "c_info (cb_push b st) = c_info st"
  by (simp_all add: others_def cb_push_def)

lemma cb_free_spec:
  assumes f: "free st fs" and "blk b" and "b \<notin> set fs"
  shows "\<exists>st'. cb_free b st = Inr st' \<and> free st' (b # fs) \<and> others {b} st st' \<and> c_info st' = c_info st"
proof -
  let ?s = "cb_push b st"
  have f1: "free ?s (b # fs)" by (rule cb_push_free [OF assms])
  then obtain rq sq where q: "queues ?s rq sq" unfolding free_def by blast
  from wakeup_spec [OF q, of "a_cwaiting ?s"] obtain s2 ws sq' where w: "wakeup (a_cwaiting ?s) ?s = Inr s2"
    "wakeup_post (a_cwaiting ?s) ?s rq sq s2 ws sq'" by blast
  note d = wakeup_postD [OF w(2)]
  have m: "kst.more s2 = kst.more ?s" using d(2) by (simp add: sframe_def)
  have "queues (s2\<lparr>cwaiting := False\<rparr>) (ws @ rq) sq'" using d(1) by simp
  then have "\<exists>rq sq. queues (s2\<lparr>cwaiting := False\<rparr>) rq sq" by blast
  then have "free (s2\<lparr>cwaiting := False\<rparr>) (b # fs)" using f1 unfolding free_def by (simp add: more_same [OF m])
  moreover have "others {b} st (s2\<lparr>cwaiting := False\<rparr>)" using cb_push_others(1) [of b st] by (simp add: others_def more_same [OF m])
  moreover have "c_info (s2\<lparr>cwaiting := False\<rparr>) = c_info st" by (simp add: more_same [OF m] cb_push_others(2))
  ultimately show ?thesis using f1 w(1) cb_push_others by (auto simp: cb_free_def Let_def)
qed

lemma cb_alloc_free:
  assumes "free st (b # fs)"
  shows "free (cb_alloc b st) fs" and "others {b} st (cb_alloc b st)" and "cfreelist st = Some b" and "c_next (cb_alloc b st) b = None"
proof -
  have "b \<notin> set fs" using assms chain_distinct [of "c_next st" "cfreelist st" "b # fs"] by (simp add: free_def)
  then show "free (cb_alloc b st) fs" using assms by (auto simp: free_def cb_alloc_def)
  show "others {b} st (cb_alloc b st)" "c_next (cb_alloc b st) b = None" by (simp_all add: others_def cb_alloc_def)
  show "cfreelist st = Some b" using assms by (simp add: free_def)
qed

subsection \<open>Taking bytes from the front\<close>

text \<open>
  After \<open>k\<close> bytes of the first block have been taken, \<open>clist_took\<close> leaves a list of the
  remaining bytes; blocks are conserved.
\<close>

lemma cseg_rest:
  assumes s: "cseg st xs bs off" and k: "0 < k" "k < length xs" "off + k < CBSIZE"
  shows "cseg st (drop k xs) bs (off + k)"
  using assms unfolding cseg_def by (auto simp: add.assoc)

lemma cseg_next:
  assumes s: "cseg st xs bs off" and k: "k < length xs" "off + k = CBSIZE"
  shows "cseg st (drop k xs) (tl bs) 0" and "tl bs \<noteq> []" and "c_next st (hd bs) = Some (hd (tl bs))"
    and "hd bs \<notin> set (tl bs)" and "c_end (tl bs) (length xs - k) = c_end bs (off + length xs)"
proof -
  have bs: "bs = hd bs # tl bs" and len: "off + length xs \<le> CBSIZE * length bs" "CBSIZE * (length bs - 1) < off + length xs"
    and c: "chain (c_next st) (Some (hd bs)) bs" and b: "\<forall>b \<in> set bs. blk b"
    using s k by (auto simp: cseg_def)
  have d: "distinct bs" by (rule chain_distinct [OF c])
  then show "hd bs \<notin> set (tl bs)" using bs by (metis distinct.simps(2))
  have l: "length bs = Suc (length (tl bs))" using bs by (metis length_Cons)
  show ne: "tl bs \<noteq> []"
  proof
    assume "tl bs = []"
    then have "length bs = 1" using l by (simp del: length_tl)
    then show False using len(1) k by simp
  qed
  have c': "chain (c_next st) (c_next st (hd bs)) (tl bs)" using c bs by (metis chain.simps(2))
  then show nx: "c_next st (hd bs) = Some (hd (tl bs))" using ne by (cases "tl bs") auto
  have p: "pos bs (off + (k + j)) = pos (tl bs) j" for j using pos_tl [of bs j] bs k(2) by (simp add: add.assoc [symmetric]) auto
  have "\<forall>j < length xs - k. c_info st (pos (tl bs) (0 + j)) = drop k xs ! j"
  proof (intro allI impI)
    fix j assume j: "j < length xs - k"
    then have "c_info st (pos bs (off + (k + j))) = xs ! (k + j)" using s by (simp add: cseg_def)
    then show "c_info st (pos (tl bs) (0 + j)) = drop k xs ! j" using p j by simp
  qed
  moreover have "\<forall>b \<in> set (tl bs). blk b" using b bs by (metis list.set_intros(2))
  moreover have "length xs - k \<le> CBSIZE * length (tl bs)" "CBSIZE * (length (tl bs) - 1) < length xs - k"
  proof -
    obtain m where m: "length (tl bs) = Suc m" using ne by (cases "tl bs") auto
    have lb: "length bs = Suc (Suc m)" using l unfolding m .
    have "off + length xs \<le> CBSIZE * Suc (Suc m)" "CBSIZE * Suc m < off + length xs" using len unfolding lb by simp_all
    then show "length xs - k \<le> CBSIZE * length (tl bs)" "CBSIZE * (length (tl bs) - 1) < length xs - k"
      using k unfolding m by simp_all
  qed
  ultimately show "cseg st (drop k xs) (tl bs) 0" using ne c' nx by (simp add: cseg_def)
  have e: "off + length xs - 1 = CBSIZE + (length xs - k - 1)" using k by simp
  have nb: "bs \<noteq> []" using s by (simp add: cseg_def)
  have "pos bs (off + length xs - 1) = pos (tl bs) (length xs - k - 1)" unfolding e by (rule pos_tl [OF nb])
  moreover have "length xs - k \<noteq> 0" "off + length xs \<noteq> 0" using k by linarith+
  ultimately show "c_end (tl bs) (length xs - k) = c_end bs (off + length xs)" unfolding c_end_def by (simp only: if_False)
qed

lemma cseg_single:
  assumes "cseg st xs bs off" and "off + length xs \<le> CBSIZE" and "xs \<noteq> []"
  shows "bs = [hd bs]"
proof -
  have "length bs - 1 < 1" using assms by (auto simp: cseg_def)
  then show ?thesis using assms(1) by (cases bs) (auto simp: cseg_def)
qed

lemma clist_took_blocks:
  assumes c: "cq st q xs bs off" and f: "free st fs" and d: "set bs \<inter> set fs = {}"
    and k: "0 < k" "k \<le> length xs" "off + k \<le> CBSIZE"
  shows "\<exists>q' st' bs' off' fs' m. clist_took (q\<lparr>c_cf := c_cf q + k, c_cc := c_cc q - int k\<rparr>) st = Inr (q', st')
    \<and> cq st' q' (drop k xs) bs' off' \<and> free st' fs' \<and> set bs' \<inter> set fs' = {} \<and> set bs' \<union> set fs' = set bs \<union> set fs
    \<and> others (set bs \<union> set fs) st st' \<and> c_info st' = c_info st
    \<and> length fs' = length fs + m \<and> (if k = length xs then m = 1 else off + k = CBSIZE * m + off')"
proof -
  have ne: "xs \<noteq> []" using k by auto
  then have s: "cseg st xs bs off" and q: "q = \<lparr>c_cc = int (length xs), c_cf = pos bs off, c_cl = c_end bs (off + length xs)\<rparr>"
    using c by (auto simp: cq_def)
  have b: "\<forall>b \<in> set bs. blk b" and nb: "bs \<noteq> []" and o: "off < CBSIZE" using s by (auto simp: cseg_def)
  have hs: "hd bs \<in> set bs" using nb by simp
  then have hb: "blk (hd bs)" and hf: "hd bs \<notin> set fs" using b d by blast+
  have p0: "pos bs off = hd bs + (4 + off)" using o nb by (simp add: pos_def hd_conv_nth)
  let ?q = "q\<lparr>c_cf := c_cf q + k, c_cc := c_cc q - int k\<rparr>"
  have cf: "c_cf ?q = hd bs + (4 + off + k)" by (simp add: q p0)
  from cb_free_spec [OF f hb hf] obtain st' where st': "cb_free (hd bs) st = Inr st'" "free st' (hd bs # fs)"
    "others {hd bs} st st'" "c_info st' = c_info st" by blast
  have oth: "others (set bs \<union> set fs) st st'" using others_mono [OF st'(3)] hs by simp
  consider "k = length xs" | "k < length xs" "off + k = CBSIZE" | "k < length xs" "off + k < CBSIZE" using k by linarith
  then show ?thesis
  proof cases
    case 1
    then have one: "bs = [hd bs]" using cseg_single [OF s _ ne] k by simp
    have "block_of (c_cf ?q - 1) = hd bs" using blk_add(1) [OF hb, of "3 + off + k"] k cf by (simp add: add.commute add.left_commute)
    then have "clist_took ?q st = Inr (clist0, st')" using 1 st'(1) by (simp add: clist_took_def q clist0_def)
    moreover have "cq st' clist0 (drop k xs) [] 0" using 1 by (simp add: cq_def)
    moreover have "set bs = {hd bs}" by (subst one) simp
    ultimately show ?thesis using oth st'(2,4) 1
      by (intro exI [of _ clist0] exI [of _ st'] exI [of _ "[]"] exI [of _ 0] exI [of _ "hd bs # fs"] exI [of _ 1]) simp
  next
    case 2
    note n = cseg_next [OF s 2]
    have "c_cf ?q = hd bs + CBLOCK" using cf 2 by simp
    then have m: "c_cf ?q mod CBLOCK = 0" "c_cf ?q - CBLOCK = hd bs" using hb by (simp_all add: blk_def)
    let ?q' = "\<lparr>c_cc = int (length xs) - int k, c_cf = hd (tl bs) + 4, c_cl = c_end bs (off + length xs)\<rparr>"
    have "clist_took ?q st = Inr (?q', st')"
      unfolding clist_took_def m using 2(1) st'(1) n(3) by (simp add: q info_of_def)
    moreover have "cseg st' (drop k xs) (tl bs) 0" by (rule cseg_others [OF n(1) st'(3)]) (use n(4) in auto)
    then have "cq st' ?q' (drop k xs) (tl bs) 0"
      using 2(1) n(2,5) by (simp add: cq_def pos_def hd_conv_nth of_nat_diff)
    moreover have "set bs = insert (hd bs) (set (tl bs))" using nb by (metis list.exhaust_sel list.simps(15))
    ultimately show ?thesis using st'(2) oth n(4) d st'(4) 2
      by (intro exI [of _ ?q'] exI [of _ st'] exI [of _ "tl bs"] exI [of _ 0] exI [of _ "hd bs # fs"] exI [of _ 1]) auto
  next
    case 3
    have "c_cf ?q mod CBLOCK = 4 + off + k" unfolding cf using 3 by (intro blk_add(2) [OF hb]) simp
    then have "clist_took ?q st = Inr (?q, st)" using 3 by (simp add: clist_took_def q)
    moreover have "cq st ?q (drop k xs) bs (off + k)"
      using 3 cseg_rest [OF s k(1) 3] nb by (simp add: cq_def q p0 pos_def hd_conv_nth of_nat_diff)
    ultimately show ?thesis using f d 3
      by (intro exI [of _ ?q] exI [of _ st] exI [of _ bs] exI [of _ "off + k"] exI [of _ fs] exI [of _ 0]) simp
  qed
qed

lemma cq_first:
  assumes "cq st q (x # xs) bs off"
  shows "c_info st (c_cf q) = x" and "c_cc q = int (length xs) + 1" and "off < CBSIZE" and "c_cf q mod CBLOCK = 4 + off"
proof -
  have s: "cseg st (x # xs) bs off" and q: "q = \<lparr>c_cc = int (length (x # xs)), c_cf = pos bs off, c_cl = c_end bs (off + length (x # xs))\<rparr>"
    using assms by (auto simp: cq_def)
  show o: "off < CBSIZE" using s by (simp add: cseg_def)
  have "c_info st (pos bs (off + 0)) = (x # xs) ! 0" using s unfolding cseg_def by blast
  then show "c_info st (c_cf q) = x" by (simp add: q)
  show "c_cc q = int (length xs) + 1" by (simp add: q)
  have "off < CBSIZE * length bs" and "\<forall>b \<in> set bs. blk b" using s by (auto simp: cseg_def)
  from pos_block(2) [OF this(2,1)] show "c_cf q mod CBLOCK = 4 + off" using o by (simp add: q)
qed

lemma cq_prefix:
  assumes "cq st q xs bs off" and "nc \<le> length xs" and "off + nc \<le> CBSIZE" and "xs \<noteq> []"
  shows "map (\<lambda>i. c_info st (c_cf q + i)) [0..<nc] = take nc xs"
proof (rule nth_equalityI)
  fix i assume "i < length (map (\<lambda>i. c_info st (c_cf q + i)) [0..<nc])"
  then have i: "i < nc" by simp
  have s: "cseg st xs bs off" and q: "c_cf q = pos bs off" using assms(1,4) by (auto simp: cq_def)
  have "pos bs (off + i) = pos bs off + i" using assms(3) i by (simp add: pos_def)
  moreover have "c_info st (pos bs (off + i)) = xs ! i" using s assms(2) i by (simp add: cseg_def)
  ultimately show "map (\<lambda>i. c_info st (c_cf q + i)) [0..<nc] ! i = take nc xs ! i" using i q by simp
qed (use assms(2) in simp)

lemma q_to_b_go_spec:
  assumes "cq st q xs bs off" and "free st fs" and "set bs \<inter> set fs = {}" and "xs \<noteq> []" and "cc < n"
  shows "\<exists>q' st' bs' off' fs' m. q_to_b_go n q cc out st = Inr (out @ take cc xs, q', st')
    \<and> cq st' q' (drop cc xs) bs' off' \<and> free st' fs' \<and> set bs' \<inter> set fs' = {} \<and> set bs' \<union> set fs' = set bs \<union> set fs
    \<and> others (set bs \<union> set fs) st st' \<and> length fs' = length fs + m
    \<and> (if length xs \<le> cc then off + length xs \<le> CBSIZE * m else off + cc = CBSIZE * m + off')"
  using assms
proof (induction n arbitrary: st q xs bs off fs cc out)
  case (Suc n)
  show ?case
  proof (cases "cc = 0")
    case True
    then show ?thesis using Suc.prems
      by (intro exI [of _ q] exI [of _ st] exI [of _ bs] exI [of _ off] exI [of _ fs] exI [of _ 0]) simp
  next
    case False
    obtain x xs' where xs: "xs = x # xs'" using Suc.prems(4) by (cases xs) auto
    note g = cq_first [OF Suc.prems(1) [unfolded xs]]
    define nc where "nc = min (min (CBLOCK - c_cf q mod CBLOCK) cc) (nat (c_cc q))"
    have nc: "nc = min (min (CBSIZE - off) cc) (length xs)" unfolding nc_def g(4) using g(2) by (simp add: xs nat_add_distrib)
    have k: "0 < nc" "nc \<le> length xs" "off + nc \<le> CBSIZE" "nc \<le> cc" using nc g(3) False Suc.prems(4) by auto
    from clist_took_blocks [OF Suc.prems(1-3) k(1-3)] obtain q1 s1 bs1 off1 fs1 m where
      t: "clist_took (q\<lparr>c_cf := c_cf q + nc, c_cc := c_cc q - int nc\<rparr>) st = Inr (q1, s1)" "cq s1 q1 (drop nc xs) bs1 off1"
      "free s1 fs1" "set bs1 \<inter> set fs1 = {}" "set bs1 \<union> set fs1 = set bs \<union> set fs" "others (set bs \<union> set fs) st s1"
      "length fs1 = length fs + m" "if nc = length xs then m = 1 else off + nc = CBSIZE * m + off1" by blast
    have pre: "map (\<lambda>i. c_info st (c_cf q + i)) [0..<nc] = take nc xs" by (rule cq_prefix [OF Suc.prems(1) k(2,3) Suc.prems(4)])
    have "c_cc q = int (length xs)" using g(2) by (simp add: xs)
    then have le: "c_cc q \<le> int nc \<longleftrightarrow> nc = length xs" using k(2) by auto
    have step: "q_to_b_go (Suc n) q cc out st =
        (if nc = length xs then Inr (out @ take nc xs, q1, s1) else q_to_b_go n q1 (cc - nc) (out @ take nc xs) s1)"
      using False unfolding q_to_b_go.simps Let_def nc_def [symmetric] t(1) pre by (simp add: le)
    show ?thesis
    proof (cases "nc = length xs")
      case True
      then have "length xs \<le> cc" using k(4) by simp
      then show ?thesis using step t True k(3)
        by (intro exI [of _ q1] exI [of _ s1] exI [of _ bs1] exI [of _ off1] exI [of _ fs1] exI [of _ m]) simp
    next
      case ne: False
      then have d: "drop nc xs \<noteq> []" using k(2) by simp
      have "cc - nc < n" using Suc.prems(5) k(1) False by linarith
      from Suc.IH [OF t(2-4) d this, of "out @ take nc xs"] obtain q' st' bs' off' fs' m' where
        r: "q_to_b_go n q1 (cc - nc) (out @ take nc xs) s1 = Inr ((out @ take nc xs) @ take (cc - nc) (drop nc xs), q', st')"
        "cq st' q' (drop (cc - nc) (drop nc xs)) bs' off'" "free st' fs'" "set bs' \<inter> set fs' = {}" "set bs' \<union> set fs' = set bs1 \<union> set fs1"
        "others (set bs1 \<union> set fs1) s1 st'" "length fs' = length fs1 + m'"
        "if length (drop nc xs) \<le> cc - nc then off1 + length (drop nc xs) \<le> CBSIZE * m' else off1 + (cc - nc) = CBSIZE * m' + off'"
        by blast
      have tk: "take nc xs @ take (cc - nc) (drop nc xs) = take cc xs" "drop (cc - nc) (drop nc xs) = drop cc xs"
        using k(4) by (simp_all add: take_add [symmetric] drop_drop)
      have oth: "others (set bs \<union> set fs) st st'" using others_trans [OF t(6)] r(6) t(5) by simp
      have cnt: "if length xs \<le> cc then off + length xs \<le> CBSIZE * (m + m') else off + cc = CBSIZE * (m + m') + off'"
        using t(8) r(8) ne k by (auto split: if_splits)
      show ?thesis using step r ne tk oth t(5,7) cnt
        by (intro exI [of _ q'] exI [of _ st'] exI [of _ bs'] exI [of _ off'] exI [of _ fs'] exI [of _ "m + m'"]) simp
    qed
  qed
qed simp

subsection \<open>Adding bytes at the end\<close>

text \<open>As \<open>cseg\<close>, but the last block may still be unused.\<close>

definition cpre :: "'a cst_scheme \<Rightarrow> u8 list \<Rightarrow> nat list \<Rightarrow> nat \<Rightarrow> bool" where
  "cpre st xs bs off \<longleftrightarrow>
     off < CBSIZE \<and> bs \<noteq> [] \<and> off + length xs \<le> CBSIZE * length bs \<and> CBSIZE * (length bs - 1) \<le> off + length xs
     \<and> chain (c_next st) (Some (hd bs)) bs \<and> (\<forall>b \<in> set bs. blk b)
     \<and> (\<forall>j < length xs. c_info st (pos bs (off + j)) = xs ! j)"

lemma cseg_cpre: "cseg st xs bs off \<Longrightarrow> cpre st xs bs off"
  by (simp add: cseg_def cpre_def)

lemma pos_shift: "n mod CBSIZE + i < CBSIZE \<Longrightarrow> pos bs (n + i) = pos bs n + i"
proof -
  assume a: "n mod CBSIZE + i < CBSIZE"
  define q r where "q = n div CBSIZE" and "r = n mod CBSIZE"
  have n: "n = CBSIZE * q + r" by (simp add: q_def r_def)
  have r: "r + i < CBSIZE" using a by (simp add: r_def)
  have e: "n + i = (r + i) + CBSIZE * q" using n by simp
  have "(n + i) div CBSIZE = q" "(n + i) mod CBSIZE = r + i"
    unfolding e using r by (simp only: div_mult_self2 mod_mult_self2, simp)+
  moreover have "n div CBSIZE = q" "n mod CBSIZE = r" by (simp_all add: q_def r_def)
  ultimately have "(n + i) div CBSIZE = n div CBSIZE" "(n + i) mod CBSIZE = n mod CBSIZE + i" by simp_all
  then show ?thesis by (simp add: pos_def)
qed

lemma cpre_store:
  assumes s: "cpre st xs bs off" and n: "n = off + length xs" and lt: "n < CBSIZE * length bs"
    and ys: "ys \<noteq> []" "n mod CBSIZE + length ys \<le> CBSIZE"
  shows "cseg (c_store ys (pos bs n) st) (xs @ ys) bs off" and "others (set bs) st (c_store ys (pos bs n) st)"
    and "c_end bs (n + length ys) = pos bs n + length ys"
proof -
  have b: "\<forall>b \<in> set bs. blk b" and d: "distinct bs" using s chain_distinct by (auto simp: cpre_def)
  have ps: "pos bs (n + i) = pos bs n + i" if "i < length ys" for i using that ys(2) by (intro pos_shift) simp
  have top: "n + length ys \<le> CBSIZE * length bs"
  proof -
    have "n = CBSIZE * (n div CBSIZE) + n mod CBSIZE" by simp
    moreover have "n div CBSIZE < length bs" using lt by (simp add: less_mult_imp_div_less mult.commute)
    then have "CBSIZE * Suc (n div CBSIZE) \<le> CBSIZE * length bs" by (intro mult_le_mono2) simp
    ultimately show ?thesis using ys(2) unfolding mult_Suc_right by linarith
  qed
  have new: "c_info (c_store ys (pos bs n) st) (pos bs (n + i)) = ys ! i" if "i < length ys" for i
    using ps [OF that] that by (simp add: c_store_def)
  have old: "c_info (c_store ys (pos bs n) st) (pos bs (off + j)) = xs ! j" if "j < length xs" for j
  proof -
    have "\<not> (pos bs n \<le> pos bs (off + j) \<and> pos bs (off + j) < pos bs n + length ys)"
    proof
      assume r: "pos bs n \<le> pos bs (off + j) \<and> pos bs (off + j) < pos bs n + length ys"
      then have i: "pos bs (off + j) - pos bs n < length ys" by linarith
      from ps [OF this] r have e: "pos bs (off + j) = pos bs (n + (pos bs (off + j) - pos bs n))" by simp
      have "off + j < CBSIZE * length bs" "n + (pos bs (off + j) - pos bs n) < CBSIZE * length bs" using that n lt top i by linarith+
      from pos_inj [OF b d this e] show False using that n by linarith
    qed
    moreover have "c_info st (pos bs (off + j)) = xs ! j" using s that by (simp add: cpre_def)
    ultimately show ?thesis by (auto simp: c_store_def)
  qed
  have con: "\<forall>j < length (xs @ ys). c_info (c_store ys (pos bs n) st) (pos bs (off + j)) = (xs @ ys) ! j"
  proof (intro allI impI)
    fix j assume j: "j < length (xs @ ys)"
    show "c_info (c_store ys (pos bs n) st) (pos bs (off + j)) = (xs @ ys) ! j"
    proof (cases "j < length xs")
      case True
      then show ?thesis using old by (simp add: nth_append)
    next
      case False
      then have e: "off + j = n + (j - length xs)" and l: "j - length xs < length ys" using n j by auto
      show ?thesis unfolding e new [OF l] using False by (simp add: nth_append)
    qed
  qed
  have nx: "c_next (c_store ys (pos bs n) st) = c_next st" by (simp add: c_store_def)
  have "CBSIZE * (length bs - 1) \<le> off + length xs" "0 < length ys" using s ys(1) by (simp_all add: cpre_def)
  then have "CBSIZE * (length bs - 1) < off + length (xs @ ys)" unfolding length_append by linarith
  then show "cseg (c_store ys (pos bs n) st) (xs @ ys) bs off"
    using s top n con unfolding cseg_def cpre_def nx by simp
  have "c_info (c_store ys (pos bs n) st) a = c_info st a" if "block_of a \<notin> set bs" for a
  proof -
    have "\<not> (pos bs n \<le> a \<and> a < pos bs n + length ys)"
    proof
      assume r: "pos bs n \<le> a \<and> a < pos bs n + length ys"
      then have i: "a - pos bs n < length ys" by linarith
      have e: "a = pos bs (n + (a - pos bs n))" using ps [OF i] r by simp
      have "n + (a - pos bs n) < CBSIZE * length bs" using i top by linarith
      from pos_block(1,3) [OF b this] e that show False by metis
    qed
    then show ?thesis by (auto simp: c_store_def)
  qed
  then show "others (set bs) st (c_store ys (pos bs n) st)" unfolding others_def nx by simp
  show "c_end bs (n + length ys) = pos bs n + length ys"
  proof -
    obtain k where k: "length ys = Suc k" using ys(1) by (cases ys) auto
    then show ?thesis using ps [of k] by (simp add: c_end_def)
  qed
qed

text \<open>The queue \<open>xs\<close> in \<open>bs\<close>, the free list \<open>fs\<close>, and how they may change: blocks are only moved.\<close>

definition parts :: "'a cst_scheme \<Rightarrow> nat list \<Rightarrow> nat list \<Rightarrow> bool" where
  "parts st bs fs \<longleftrightarrow> free st fs \<and> set bs \<inter> set fs = {}"

definition moved :: "'a cst_scheme \<Rightarrow> nat list \<Rightarrow> nat list \<Rightarrow> 'a cst_scheme \<Rightarrow> nat list \<Rightarrow> nat list \<Rightarrow> bool" where
  "moved st bs fs st' bs' fs' \<longleftrightarrow> parts st' bs' fs' \<and> set bs' \<union> set fs' = set bs \<union> set fs
     \<and> length bs' + length fs' = length bs + length fs \<and> others (set bs \<union> set fs) st st'"

lemma moved_refl: "parts st bs fs \<Longrightarrow> moved st bs fs st bs fs"
  by (simp add: moved_def)

lemma moved_trans: "moved st bs fs st1 bs1 fs1 \<Longrightarrow> moved st1 bs1 fs1 st2 bs2 fs2 \<Longrightarrow> moved st bs fs st2 bs2 fs2"
  unfolding moved_def using others_trans by auto

lemma cseg_full:
  assumes "cseg st xs bs off" and "n = off + length xs" and "0 < n" and "n mod CBSIZE = 0"
  shows "n = CBSIZE * length bs" and "c_end bs n = last bs + CBLOCK" and "c_next st (last bs) = None"
proof -
  obtain m where m: "n = CBSIZE * m" using assms(4) by (auto simp: mod_eq_0_iff_dvd elim: dvdE)
  have b: "bs \<noteq> []" "off < CBSIZE" "n \<le> CBSIZE * length bs" "\<forall>b \<in> set bs. blk b" using assms(1,2) by (auto simp: cseg_def)
  have "xs \<noteq> []" using assms(2-4) b(2) by auto
  then have "CBSIZE * (length bs - 1) < n" using assms(1,2) by (auto simp: cseg_def)
  then have "m = length bs" using m b(1,3) by (cases "length bs") auto
  then show n: "n = CBSIZE * length bs" using m by simp
  have "c_end bs n = bs ! (n div CBSIZE - 1) + CBLOCK" by (rule c_end_boundary(3) [OF b(4,3,1) assms(3,4)])
  then show "c_end bs n = last bs + CBLOCK" using n b(1) by (simp add: last_conv_nth)
  have "chain (c_next st) (Some (hd bs)) (butlast bs @ [last bs])" using assms(1) b(1) by (simp add: cseg_def)
  from chain_suffix [OF this] show "c_next st (last bs) = None" by simp
qed

lemma clist_more_block:
  assumes s: "cseg st xs bs off" and n: "n = off + length xs" "0 < n" "n mod CBSIZE = 0" and p: "parts st bs (b # fs)"
  shows "\<exists>st'. clist_more (c_end bs n) st = (Some (pos (bs @ [b]) n), st') \<and> cpre st' xs (bs @ [b]) off
    \<and> moved st bs (b # fs) st' (bs @ [b]) fs"
proof -
  note e = cseg_full [OF s n]
  have f: "free st (b # fs)" and d: "set bs \<inter> set (b # fs) = {}" using p by (auto simp: parts_def)
  have nb: "bs \<noteq> []" and c: "chain (c_next st) (Some (hd bs)) bs" and o: "off < CBSIZE" and bl: "\<forall>b \<in> set bs. blk b"
    using s by (auto simp: cseg_def)
  have lb: "last bs \<in> set bs" using nb by simp
  then have ld: "last bs \<notin> set (b # fs)" using d by blast
  let ?s1 = "st\<lparr>c_next := (c_next st)(last bs := cfreelist st)\<rparr>"
  let ?s2 = "cb_alloc b ?s1"
  have "b \<noteq> last bs" "last bs \<notin> set fs" using ld by auto
  then have f1: "free ?s1 (b # fs)" using f by (simp add: free_def)
  note a = cb_alloc_free [OF f1]
  have cf: "cfreelist st = Some b" using a(3) by simp
  have ne: "n div CBSIZE = length bs" "n mod CBSIZE = 0" using e(1) by simp_all
  have "c_end bs n - CBLOCK = last bs" using e(2) by simp
  then have more: "clist_more (c_end bs n) st = (Some (pos (bs @ [b]) n), ?s2)"
    using cf ne by (simp add: clist_more_def Let_def pos_def)
  have bn: "b \<notin> set bs" using d by auto
  have nx: "c_next ?s2 = (c_next st)(last bs := Some b, b := None)" using cf by (simp add: cb_alloc_def)
  have bb: "butlast bs @ [last bs] = bs" using nb by simp
  have ch: "chain ((c_next st)(b := None)) (Some (hd bs)) (butlast bs @ [last bs])" using c bn by (simp add: bb)
  have "b \<notin> set (butlast bs)" "last bs \<noteq> b" using bn lb in_set_butlastD [of b bs] by auto
  with chain_link_last [OF ch, of "Some b" "[b]"] have "chain (c_next ?s2) (Some (hd bs)) (butlast bs @ last bs # [b])"
    unfolding nx by (simp add: fun_upd_twist)
  then have c2: "chain (c_next ?s2) (Some (hd (bs @ [b]))) (bs @ [b])" using bb nb by (metis append.assoc append_Cons append_Nil hd_append)
  have "c_info ?s2 (pos (bs @ [b]) (off + j)) = xs ! j" if "j < length xs" for j
    using that s pos_append [of "off + j" bs "[b]"] by (simp add: cseg_def cb_alloc_def)
  then have "cpre ?s2 xs (bs @ [b]) off"
    using o bl f c2 e(1) n(1) unfolding cpre_def free_def by auto
  moreover have "others (set bs \<union> set (b # fs)) st ?s2"
    using lb nx by (auto simp: others_def cb_alloc_def)
  then have "moved st bs (b # fs) ?s2 (bs @ [b]) fs"
    using a(1) d chain_distinct [of "c_next st" "cfreelist st" "b # fs"] f by (auto simp: moved_def parts_def free_def)
  ultimately show ?thesis using more by blast
qed

text \<open>The place for the next byte: in the last block, in a block taken from the free list, or nowhere.\<close>

lemma next_place:
  assumes s: "cseg st xs bs off" and n: "n = off + length xs" and p: "parts st bs fs"
  obtains st' bs' fs' where
      "(if c_end bs n mod CBLOCK = 0 then clist_more (c_end bs n) st else (Some (c_end bs n), st)) = (Some (pos bs' n), st')"
      "cpre st' xs bs' off" "n < CBSIZE * length bs'" "moved st bs fs st' bs' fs'" "hd bs' = hd bs"
  | "(if c_end bs n mod CBLOCK = 0 then clist_more (c_end bs n) st else (Some (c_end bs n), st)) = (None, st)"
      "fs = []" "n = CBSIZE * length bs"
proof -
  have b: "\<forall>b \<in> set bs. blk b" "n \<le> CBSIZE * length bs" "bs \<noteq> []" using s n by (auto simp: cseg_def)
  note eb = c_end_boundary [OF b]
  show thesis
  proof (cases "n > 0 \<and> n mod CBSIZE = 0")
    case full: True
    note e = cseg_full [OF s n full [THEN conjunct1] full [THEN conjunct2]]
    show thesis
    proof (cases fs)
      case Nil
      have "clist_more (c_end bs n) st = (None, st)"
        using p Nil e(2,3) by (simp add: clist_more_def parts_def free_def Let_def fun_upd_idem)
      then show thesis using that(2) Nil e(1) eb(1) full by simp
    next
      case (Cons b' fs')
      from clist_more_block [OF s n full [THEN conjunct1] full [THEN conjunct2] p [unfolded Cons]] obtain st' where
        "clist_more (c_end bs n) st = (Some (pos (bs @ [b']) n), st')" "cpre st' xs (bs @ [b']) off"
        "moved st bs (b' # fs') st' (bs @ [b']) fs'" by blast
      then show thesis using that(1) Cons e(1) eb(1) full b(3) by simp
    qed
  next
    case False
    then have "c_end bs n = pos bs n" using eb(2) by blast
    moreover have "n < CBSIZE * length bs" using False b(2,3) by (cases "n = CBSIZE * length bs") auto
    ultimately show thesis using that(1) [of bs st fs] eb(1) False cseg_cpre [OF s] moved_refl [OF p] by simp
  qed
qed

lemma clist_first_spec:
  assumes "parts st [] fs"
  shows "fs = [] \<Longrightarrow> clist_first q st = None"
    and "fs = b # fs' \<Longrightarrow> clist_first q st = Some (c_end [b] 0, q\<lparr>c_cf := pos [b] 0\<rparr>, cb_alloc b st)
      \<and> cseg (cb_alloc b st) [] [b] 0 \<and> moved st [] fs (cb_alloc b st) [b] fs'"
proof -
  have f: "free st fs" using assms by (simp add: parts_def)
  show "fs = [] \<Longrightarrow> clist_first q st = None" using f by (simp add: free_def clist_first_def)
  assume fs: "fs = b # fs'"
  note a = cb_alloc_free [OF f [unfolded fs]]
  have "b \<notin> set fs'" using f chain_distinct [of "c_next st" "cfreelist st" fs] by (simp add: fs free_def)
  then have "moved st [] fs (cb_alloc b st) [b] fs'" using a fs others_mono [OF a(2)] by (simp add: moved_def parts_def)
  moreover have "cseg (cb_alloc b st) [] [b] 0" using a f by (simp add: cseg_def free_def fs)
  ultimately show "clist_first q st = Some (c_end [b] 0, q\<lparr>c_cf := pos [b] 0\<rparr>, cb_alloc b st)
      \<and> cseg (cb_alloc b st) [] [b] 0 \<and> moved st [] fs (cb_alloc b st) [b] fs'"
    using a(3) by (simp add: clist_first_def c_end_def pos_def)
qed

lemma c_store_moved: "parts st bs fs \<Longrightarrow> others (set bs) st (c_store ys a st) \<Longrightarrow> moved st bs fs (c_store ys a st) bs fs"
  using others_mono [of "set bs" st "c_store ys a st" "set bs \<union> set fs"] by (simp add: moved_def parts_def free_def c_store_def)

lemma append_chunk:
  assumes s: "cseg st xs bs off" and n: "n = off + length xs" and p: "parts st bs fs" and cp: "cp \<noteq> []"
  obtains bs' fs' nc a st1 st' where
      "(if c_end bs n mod CBLOCK = 0 then clist_more (c_end bs n) st else (Some (c_end bs n), st)) = (Some a, st1)"
      "nc = min (length cp) (CBLOCK - a mod CBLOCK)" "0 < nc" "n + nc \<le> CBSIZE * length bs'"
      "st' = c_store (take nc cp) a st1" "a + nc = c_end bs' (n + nc)" "cseg st' (xs @ take nc cp) bs' off" "moved st bs fs st' bs' fs'"
      "hd bs' = hd bs"
  | "(if c_end bs n mod CBLOCK = 0 then clist_more (c_end bs n) st else (Some (c_end bs n), st)) = (None, st)"
      "fs = []" "n = CBSIZE * length bs"
proof (rule next_place [OF s n p])
  fix st1 bs1 fs1
  assume a: "(if c_end bs n mod CBLOCK = 0 then clist_more (c_end bs n) st else (Some (c_end bs n), st)) = (Some (pos bs1 n), st1)"
    and c: "cpre st1 xs bs1 off" and lt: "n < CBSIZE * length bs1" and m: "moved st bs fs st1 bs1 fs1" and h: "hd bs1 = hd bs"
  have b: "\<forall>b \<in> set bs1. blk b" using c by (simp add: cpre_def)
  define nc where "nc = min (length cp) (CBLOCK - pos bs1 n mod CBLOCK)"
  have nc: "nc = min (length cp) (CBSIZE - n mod CBSIZE)" unfolding nc_def pos_block(2) [OF b lt] by simp
  have pos: "0 < nc" using nc cp by simp
  have y: "take nc cp \<noteq> []" "n mod CBSIZE + length (take nc cp) \<le> CBSIZE" using nc cp by auto
  note st = cpre_store [OF c n lt y]
  have len: "length (take nc cp) = nc" using nc by simp
  have le: "n + nc \<le> CBSIZE * length bs1" using st(1) len n by (simp add: cseg_def add.assoc)
  have "moved st bs fs (c_store (take nc cp) (pos bs1 n) st1) bs1 fs1"
    using moved_trans [OF m c_store_moved [OF _ st(2)]] m by (simp add: moved_def)
  then show thesis using that(1) [OF a nc_def pos le refl _ st(1) _ h] st(3) len by simp
qed (rule that(2))

lemma b_to_q_go_spec:
  assumes "cseg st xs bs off" and "parts st bs fs" and "length cp < k" and "room = CBSIZE * (length bs + length fs) - (off + length xs)"
  shows "\<exists>st' bs' fs'. b_to_q_go k cp (c_end bs (off + length xs)) st = Inr (drop room cp, c_end bs' (off + length (xs @ take room cp)), st')
    \<and> cseg st' (xs @ take room cp) bs' off \<and> moved st bs fs st' bs' fs' \<and> hd bs' = hd bs"
  using assms
proof (induction k arbitrary: st xs bs fs cp room)
  case (Suc k)
  define n where n: "n = off + length xs"
  show ?case
  proof (cases "cp = []")
    case True
    then show ?thesis using Suc.prems(1) moved_refl [OF Suc.prems(2)]
      by (intro exI [of _ st] exI [of _ bs] exI [of _ fs]) simp
  next
    case False
    show ?thesis
    proof (rule append_chunk [OF Suc.prems(1) n Suc.prems(2) False])
      fix bs1 fs1 nc a st1 st2
      assume a: "(if c_end bs n mod CBLOCK = 0 then clist_more (c_end bs n) st else (Some (c_end bs n), st)) = (Some a, st1)"
        "nc = min (length cp) (CBLOCK - a mod CBLOCK)" "0 < nc" "n + nc \<le> CBSIZE * length bs1"
        "st2 = c_store (take nc cp) a st1" "a + nc = c_end bs1 (n + nc)" "cseg st2 (xs @ take nc cp) bs1 off" "moved st bs fs st2 bs1 fs1"
        "hd bs1 = hd bs"
      have m: "parts st2 bs1 fs1" "length bs1 + length fs1 = length bs + length fs" using a(8) by (simp_all add: moved_def)
      have "nc \<le> length cp" using a(2) by simp
      then have l: "length (drop nc cp) < k" "length (take nc cp) = nc" using Suc.prems(3) a(3) by simp_all
      have r: "nc \<le> room" "room - nc = CBSIZE * (length bs1 + length fs1) - (off + length (xs @ take nc cp))"
      proof -
        have "CBSIZE * length bs1 \<le> CBSIZE * (length bs + length fs)" using m(2) by simp
        then show "nc \<le> room" using a(4) Suc.prems(4) n by linarith
        show "room - nc = CBSIZE * (length bs1 + length fs1) - (off + length (xs @ take nc cp))"
          unfolding m(2) length_append l(2) Suc.prems(4) by simp
      qed
      have t: "take nc cp @ take (room - nc) (drop nc cp) = take room cp" "drop (room - nc) (drop nc cp) = drop room cp"
        using r(1) by (simp_all add: take_add [symmetric] drop_drop)
      have step: "b_to_q_go (Suc k) cp (c_end bs n) st = b_to_q_go k (drop nc cp) (c_end bs1 (off + length (xs @ take nc cp))) st2"
        unfolding b_to_q_go.simps a(1) using False a(2,5,6) l(2) n by (simp add: Let_def add.assoc)
      from Suc.IH [OF a(7) m(1) l(1) r(2)] obtain st' bs' fs' where
        "b_to_q_go k (drop nc cp) (c_end bs1 (off + length (xs @ take nc cp))) st2 =
          Inr (drop room cp, c_end bs' (off + length (xs @ take room cp)), st')"
        "cseg st' (xs @ take room cp) bs' off" "moved st2 bs1 fs1 st' bs' fs'" "hd bs' = hd bs1" unfolding append_assoc t by blast
      then show ?thesis using step moved_trans [OF a(8)]
        by (intro exI [of _ st'] exI [of _ bs'] exI [of _ fs']) (simp add: n a(9))
    next
      assume a: "(if c_end bs n mod CBLOCK = 0 then clist_more (c_end bs n) st else (Some (c_end bs n), st)) = (None, st)"
        "fs = []" "n = CBSIZE * length bs"
      have "b_to_q_go (Suc k) cp (c_end bs n) st = Inr (cp, c_end bs n, st)"
        unfolding b_to_q_go.simps a(1) using False by simp
      moreover have "room = 0" using a n Suc.prems(4) by simp
      ultimately show ?thesis using Suc.prems(1) moved_refl [OF Suc.prems(2)]
        by (intro exI [of _ st] exI [of _ bs] exI [of _ fs]) (simp add: n)
    qed
  qed
qed simp

end
