(* ===== verification/Clistpool.thy ===== *)
theory Clistpool
  imports Clistq
begin

text \<open>
  The operations on character lists against lists of bytes, and any number of queues that
  share the pool: whatever operations are done on them in whatever order, each queue is a
  list of bytes in which nothing is lost, reordered or mixed with another queue, and every
  block of the pool stays in a queue or on the free list.
\<close>

subsection \<open>Single operations\<close>

declare b_to_q_go.simps [simp del] q_to_b_go.simps [simp del] ndflush_go.simps [simp del]

definition becomes :: "'a cst_scheme \<Rightarrow> nat list \<Rightarrow> nat list \<Rightarrow> 'a cst_scheme \<Rightarrow> clist \<Rightarrow> u8 list \<Rightarrow> bool" where
  "becomes st bs fs st' q' xs' \<longleftrightarrow> (\<exists>bs' off' fs'. cq st' q' xs' bs' off' \<and> moved st bs fs st' bs' fs')"

lemma becomesI: "cq st' q' xs' bs' off' \<Longrightarrow> moved st bs fs st' bs' fs' \<Longrightarrow> becomes st bs fs st' q' xs'"
  unfolding becomes_def by blast

lemma cq_distinct: "cq st q xs bs off \<Longrightarrow> distinct bs"
  using chain_distinct by (auto simp: cq_def cseg_def split: if_splits)

lemma moved_sets:
  assumes "cq st q xs bs off" "parts st bs fs" "cq st' q' xs' bs' off'" "free st' fs'" "set bs' \<inter> set fs' = {}"
    "set bs' \<union> set fs' = set bs \<union> set fs" "others (set bs \<union> set fs) st st'"
  shows "moved st bs fs st' bs' fs'"
proof -
  have d: "distinct fs" "distinct fs'" using assms(2,4) chain_distinct unfolding parts_def free_def by blast+
  have "length bs' + length fs' = card (set bs' \<union> set fs')"
    using assms(5) d cq_distinct [OF assms(3)] by (simp add: card_Un_disjoint distinct_card)
  moreover have "length bs + length fs = card (set bs \<union> set fs)"
    using assms(2) d cq_distinct [OF assms(1)] by (simp add: card_Un_disjoint distinct_card parts_def)
  ultimately show ?thesis using assms by (simp add: moved_def parts_def)
qed

lemma cseg_pos: "cseg st xs bs off \<Longrightarrow> pos bs off = hd bs + 4 + off"
  by (simp add: cseg_def pos_def hd_conv_nth)

text \<open>The bytes that still fit: the blocks of the queue and the free ones, less what has been used.\<close>

definition c_room :: "u8 list \<Rightarrow> nat list \<Rightarrow> nat \<Rightarrow> nat list \<Rightarrow> nat" where
  "c_room xs bs off fs = CBSIZE * (length bs + length fs) - (off + length xs)"

lemma putc_store: "st\<lparr>c_info := (c_info st)(a := c)\<rparr> = c_store [c] a st"
  unfolding c_store_def by (rule arg_cong [where f = "\<lambda>i. c_info_update i st"]) (auto simp: fun_eq_iff)

lemma putc_spec:
  assumes c: "cq st q xs bs off" and p: "parts st bs fs"
  shows "if c_room xs bs off fs = 0 then putc c q st = (-1, q, st)
    else \<exists>q' st'. putc c q st = (0, q', st') \<and> becomes st bs fs st' q' (xs @ [c])"
proof (cases "xs = []")
  case True
  then have q: "q = clist0" "bs = []" "off = 0" using c by (auto simp: cq_def)
  note f = clist_first_spec [OF p [unfolded q(2)], where q = q]
  show ?thesis
  proof (cases fs)
    case Nil
    then show ?thesis using f(1) by (simp add: putc_def q clist0_def c_room_def True)
  next
    case (Cons b fs')
    note f2 = f(2) [OF Cons]
    let ?st = "c_store [c] (pos [b] 0) (cb_alloc b st)"
    have s: "cseg (cb_alloc b st) [] [b] 0" and m: "moved st [] fs (cb_alloc b st) [b] fs'" using f2 by simp_all
    have e: "c_end [b] 0 = pos [b] 0" by (simp add: c_end_def)
    note st = cpre_store [OF cseg_cpre [OF s], of 0 "[c]", simplified]
    have "putc c q st = (0, \<lparr>c_cc = 1, c_cf = pos [b] 0, c_cl = pos [b] 0 + 1\<rparr>, ?st)"
      using f2 unfolding putc_def putc_store by (simp add: q clist0_def e)
    moreover have "cq ?st \<lparr>c_cc = 1, c_cf = pos [b] 0, c_cl = pos [b] 0 + 1\<rparr> [c] [b] 0" using st by (simp add: cq_def)
    moreover have "moved st [] fs ?st [b] fs'"
      using moved_trans [OF m c_store_moved] m st(2) by (simp add: moved_def)
    ultimately show ?thesis using becomesI [of ?st _ "[c]" "[b]" 0] by (simp add: q True c_room_def Cons)
  qed
next
  case ne: False
  define n where n: "n = off + length xs"
  have s: "cseg st xs bs off" and q: "q = \<lparr>c_cc = int (length xs), c_cf = pos bs off, c_cl = c_end bs n\<rparr>"
    using c ne by (auto simp: cq_def n)
  have cl: "c_end bs n \<noteq> 0" using ne n by (simp add: c_end_def)
  have put: "putc c q st = (case (if c_end bs n mod CBLOCK = 0 then clist_more (c_end bs n) st else (Some (c_end bs n), st)) of
      (None, st) \<Rightarrow> (-1, q, st) | (Some a, st) \<Rightarrow> (0, q\<lparr>c_cc := c_cc q + 1, c_cl := a + 1\<rparr>, c_store [c] a st))"
    unfolding putc_def putc_store using cl by (simp add: q split: prod.splits option.splits)
  show ?thesis
  proof (rule append_chunk [OF s n p, of "[c]"])
    fix bs1 fs1 nc a st1 st2
    assume a: "(if c_end bs n mod CBLOCK = 0 then clist_more (c_end bs n) st else (Some (c_end bs n), st)) = (Some a, st1)"
      "nc = min (length [c]) (CBLOCK - a mod CBLOCK)" "0 < nc" "n + nc \<le> CBSIZE * length bs1"
      "st2 = c_store (take nc [c]) a st1" "a + nc = c_end bs1 (n + nc)" "cseg st2 (xs @ take nc [c]) bs1 off" "moved st bs fs st2 bs1 fs1"
      "hd bs1 = hd bs"
    have nc: "nc = 1" using a(2,3) by simp
    let ?q = "q\<lparr>c_cc := c_cc q + 1, c_cl := a + 1\<rparr>"
    have "putc c q st = (0, ?q, st2)" unfolding put a(1) using a(5) nc by simp
    moreover have "pos bs1 off = pos bs off" using cseg_pos [OF s] cseg_pos [OF a(7)] a(9) by simp
    then have "cq st2 ?q (xs @ [c]) bs1 off" using a(6,7) nc q n by (simp add: cq_def)
    moreover have "c_room xs bs off fs \<noteq> 0"
    proof -
      have "length bs1 + length fs1 = length bs + length fs" using a(8) by (simp add: moved_def)
      then have "CBSIZE * length bs1 \<le> CBSIZE * (length bs + length fs)" by simp
      then show ?thesis unfolding c_room_def using a(4) nc n by linarith
    qed
    ultimately show ?thesis using becomesI [OF _ a(8)] by auto
  next
    assume a: "(if c_end bs n mod CBLOCK = 0 then clist_more (c_end bs n) st else (Some (c_end bs n), st)) = (None, st)"
      "fs = []" "n = CBSIZE * length bs"
    then show ?thesis unfolding put a(1) by (simp add: c_room_def n)
  qed simp
qed

lemma b_to_q_spec:
  assumes c: "cq st q xs bs off" and p: "parts st bs fs" and r: "room = c_room xs bs off fs"
  shows "\<exists>q' st'. b_to_q cp q st = Inr (int (length cp - room), q', st') \<and> becomes st bs fs st' q' (xs @ take room cp)"
proof -
  consider "cp = []" | "cp \<noteq> []" "xs = []" "fs = []" | b fs' where "cp \<noteq> []" "xs = []" "fs = b # fs'" | "cp \<noteq> []" "xs \<noteq> []"
    by (cases fs) auto
  then show ?thesis
  proof cases
    case 1
    then show ?thesis using becomesI [OF c moved_refl [OF p]] by (auto simp: b_to_q_def)
  next
    case 2
    then have q: "q = clist0" "bs = []" "off = 0" using c by (auto simp: cq_def)
    have "clist_first q st = None" using clist_first_spec(1) [of st fs] p 2 q by simp
    then have "b_to_q cp q st = Inr (int (length cp), q, st)" using 2 q by (simp add: b_to_q_def clist0_def)
    moreover have "room = 0" using r 2 q by (simp add: c_room_def)
    ultimately show ?thesis using becomesI [OF c moved_refl [OF p]] by auto
  next
    case 3
    then have q: "q = clist0" "bs = []" "off = 0" using c by (auto simp: cq_def)
    note f = clist_first_spec(2) [OF p [unfolded q(2)] 3(3), of q]
    have s: "cseg (cb_alloc b st) [] [b] 0" and m: "moved st [] fs (cb_alloc b st) [b] fs'" using f by simp_all
    have m1: "parts (cb_alloc b st) [b] fs'" using m by (simp add: moved_def)
    have rm: "room = CBSIZE * (length [b] + length fs') - (0 + length ([] :: u8 list))" using r 3 q by (simp add: c_room_def)
    from b_to_q_go_spec [OF s m1 lessI rm, of cp] obtain st' bs2 fs2 where
      g: "b_to_q_go (Suc (length cp)) cp (c_end [b] 0) (cb_alloc b st) = Inr (drop room cp, c_end bs2 (length (take room cp)), st')"
      "cseg st' (take room cp) bs2 0" "moved (cb_alloc b st) [b] fs' st' bs2 fs2" "hd bs2 = b" by auto
    let ?q = "\<lparr>c_cc = int (length cp - length (drop room cp)), c_cf = pos [b] 0, c_cl = c_end bs2 (length (take room cp))\<rparr>"
    have "b_to_q cp q st = Inr (int (length cp - room), ?q, st')" using 3 f g(1) q by (simp add: b_to_q_def clist0_def)
    moreover have "take room cp \<noteq> []" using 3(1) rm by simp
    then have "cq st' ?q (take room cp) bs2 0" using g(2,4) cseg_pos [OF g(2)] cseg_pos [OF s] by (simp add: cq_def min_def)
    from becomesI [OF this moved_trans [OF m g(3)]] have "becomes st bs fs st' ?q (xs @ take room cp)" using q 3 by simp
    ultimately show ?thesis by blast
  next
    case 4
    have s: "cseg st xs bs off" and q: "q = \<lparr>c_cc = int (length xs), c_cf = pos bs off, c_cl = c_end bs (off + length xs)\<rparr>"
      using c 4 by (auto simp: cq_def)
    have cl: "c_end bs (off + length xs) \<noteq> 0" using 4 by (simp add: c_end_def)
    from b_to_q_go_spec [OF s p lessI r [unfolded c_room_def]] obtain st' bs2 fs2 where
      g: "b_to_q_go (Suc (length cp)) cp (c_end bs (off + length xs)) st = Inr (drop room cp, c_end bs2 (off + length (xs @ take room cp)), st')"
      "cseg st' (xs @ take room cp) bs2 off" "moved st bs fs st' bs2 fs2" "hd bs2 = hd bs" by blast
    let ?q = "q\<lparr>c_cl := c_end bs2 (off + length (xs @ take room cp)), c_cc := c_cc q + int (length cp - length (drop room cp))\<rparr>"
    have "b_to_q cp q st = Inr (int (length cp - room), ?q, st')" using 4 cl g(1) q by (simp add: b_to_q_def)
    moreover have "cq st' ?q (xs @ take room cp) bs2 off" using 4 g(2,4) cseg_pos [OF g(2)] cseg_pos [OF s] q by (simp add: cq_def min_def)
    ultimately show ?thesis using becomesI [OF _ g(3)] by blast
  qed
qed

lemma getc_becomes:
  assumes c: "cq st q (x # xs) bs off" and p: "parts st bs fs"
  shows "\<exists>q' st'. getc q st = Inr (uint x, q', st') \<and> becomes st bs fs st' q' xs"
proof -
  have f: "free st fs" "set bs \<inter> set fs = {}" using p by (simp_all add: parts_def)
  note g = cq_first [OF c]
  have "off + 1 \<le> CBSIZE" using g(3) by simp
  from clist_took_blocks [OF c f, of 1] this obtain q' st' bs' off' fs' where
    t: "clist_took (q\<lparr>c_cf := c_cf q + 1, c_cc := c_cc q - 1\<rparr>) st = Inr (q', st')" "cq st' q' xs bs' off'" "free st' fs'"
    "set bs' \<inter> set fs' = {}" "set bs' \<union> set fs' = set bs \<union> set fs" "others (set bs \<union> set fs) st st'" by auto
  then show ?thesis using g(1,2) becomesI [OF t(2) moved_sets [OF c p t(2-6)]] by (auto simp: getc_def)
qed

lemma q_to_b_blocks:
  assumes c: "cq st q xs bs off" and p: "parts st bs fs" and ne: "xs \<noteq> []" "0 < cc"
  shows "\<exists>q' st' bs' off' fs' m. q_to_b q (int cc) st = Inr (take cc xs, q', st') \<and> cq st' q' (drop cc xs) bs' off'
    \<and> moved st bs fs st' bs' fs' \<and> length fs' = length fs + m
    \<and> (if length xs \<le> cc then off + length xs \<le> CBSIZE * m else off + cc = CBSIZE * m + off')"
proof -
  have f: "free st fs" "set bs \<inter> set fs = {}" using p by (simp_all add: parts_def)
  have q: "c_cc q > 0" using c ne by (auto simp: cq_def)
  have "q_to_b q (int cc) st = q_to_b_go (Suc cc) q cc [] st" using ne q by (simp add: q_to_b_def)
  with q_to_b_go_spec [OF c f ne(1), of cc "Suc cc" "[]"] obtain q' st' bs' off' fs' m where
    t: "q_to_b q (int cc) st = Inr (take cc xs, q', st')" "cq st' q' (drop cc xs) bs' off'" "free st' fs'" "set bs' \<inter> set fs' = {}"
    "set bs' \<union> set fs' = set bs \<union> set fs" "others (set bs \<union> set fs) st st'" "length fs' = length fs + m"
    "if length xs \<le> cc then off + length xs \<le> CBSIZE * m else off + cc = CBSIZE * m + off'" by auto
  from t moved_sets [OF c p t(2-6)] show ?thesis by blast
qed

lemma q_to_b_spec:
  assumes c: "cq st q xs bs off" and p: "parts st bs fs"
  shows "\<exists>q' st'. q_to_b q cc st = Inr (take (nat cc) xs, q', st') \<and> becomes st bs fs st' q' (drop (nat cc) xs)"
proof (cases "xs = [] \<or> cc \<le> 0")
  case True
  then have "q_to_b q cc st = Inr ([], q, st)" using c by (auto simp: q_to_b_def cq_def clist0_def)
  then show ?thesis using True becomesI [OF c moved_refl [OF p]] by auto
next
  case False
  then have "cc = int (nat cc)" "0 < nat cc" by simp_all
  with q_to_b_blocks [OF c p, of "nat cc"] False show ?thesis unfolding becomes_def by metis
qed

lemma cseg_last:
  assumes s: "cseg st xs bs off" and ne: "xs \<noteq> []"
  shows "c_end bs (off + length xs) = pos bs (off + length xs - 1) + 1" and "block_of (pos bs (off + length xs - 1)) = last bs"
    and "pos bs (off + length xs - 1) mod CBLOCK = 4 + (off + length xs - 1) mod CBSIZE" and "(off + length xs - 1) div CBSIZE = length bs - 1"
    and "c_info st (pos bs (off + length xs - 1)) = last xs"
proof -
  define n where "n = off + length xs - 1"
  obtain m where m: "length xs = Suc m" using ne by (cases xs) auto
  have n: "n = off + m" unfolding n_def m by simp
  have b: "\<forall>b \<in> set bs. blk b" "bs \<noteq> []" "n < CBSIZE * length bs" "CBSIZE * (length bs - 1) \<le> n" using s ne m n by (auto simp: cseg_def)
  show "c_end bs (off + length xs) = pos bs (off + length xs - 1) + 1" by (simp add: c_end_def m)
  obtain l where l: "length bs = Suc l" using b(2) by (cases bs) auto
  then have "CBSIZE * l \<le> n" "n < CBSIZE * l + CBSIZE" using b(3,4) by simp_all
  then have d: "n div CBSIZE = length bs - 1" using l by (simp add: div_nat_eqI)
  then show "(off + length xs - 1) div CBSIZE = length bs - 1" by (simp only: n_def)
  show "block_of (pos bs (off + length xs - 1)) = last bs"
    using pos_block(1) [OF b(1,3)] d b(2) unfolding n_def by (metis last_conv_nth)
  show "pos bs (off + length xs - 1) mod CBLOCK = 4 + (off + length xs - 1) mod CBSIZE"
    using pos_block(2) [OF b(1,3)] by (simp only: n_def)
  have "c_info st (pos bs (off + m)) = xs ! m" using s m by (simp add: cseg_def)
  then show "c_info st (pos bs (off + length xs - 1)) = last xs" using n m ne unfolding n_def by (simp add: last_conv_nth)
qed

lemma cseg_many:
  assumes "cseg st xs bs off" and "xs \<noteq> []"
  shows "hd bs = last bs \<longleftrightarrow> off + length xs \<le> CBSIZE"
proof -
  have d: "distinct bs" "bs \<noteq> []" using assms(1) chain_distinct by (auto simp: cseg_def)
  show ?thesis
  proof (cases "tl bs = []")
    case True
    then have "bs = [hd bs]" using d(2) by (metis list.collapse)
    then have "length bs = 1" "hd bs = last bs" by (metis length_Cons list.size(3) One_nat_def, metis last.simps)
    then show ?thesis using assms(1) by (auto simp: cseg_def)
  next
    case False
    then obtain a b cs where bs: "bs = a # b # cs" using d(2) by (metis list.collapse)
    then have "hd bs \<noteq> last bs" using d(1) by auto
    then show ?thesis using assms bs by (auto simp: cseg_def)
  qed
qed

lemma ndflush_go_spec:
  assumes "cq st q xs bs off" and "xs \<noteq> []" and "parts st bs fs" and "0 \<le> cc" and "length xs < k"
  shows "\<exists>q' st' bs' off' fs'. ndflush_go k q cc st = Inr (q', st') \<and> moved st bs fs st' bs' fs'
    \<and> (if drop (nat cc) xs = [] then c_cc q' = 0 \<and> bs' = [] else cq st' q' (drop (nat cc) xs) bs' off')"
  using assms
proof (induction k arbitrary: st q xs bs off fs cc)
  case (Suc k)
  have s: "cseg st xs bs off" and q: "q = \<lparr>c_cc = int (length xs), c_cf = pos bs off, c_cl = c_end bs (off + length xs)\<rparr>"
    and f: "free st fs" "set bs \<inter> set fs = {}" using Suc.prems by (auto simp: cq_def parts_def)
  have b: "blk (hd bs)" "bs \<noteq> []" "off < CBSIZE" "hd bs \<in> set bs" using s by (auto simp: cseg_def)
  note l = cseg_last [OF s Suc.prems(2)] and p0 = cseg_pos [OF s]
  have blk0: "block_of (pos bs off) = hd bs" using blk_add(1) [OF b(1), of "4 + off"] b(3) p0 by (simp add: add.assoc)
  have blkl: "block_of (c_cl q - 1) = last bs" using l(1,2) by (simp add: q)
  define rem where "rem = (if off + length xs \<le> CBSIZE then length xs else CBSIZE - off)"
  have rem: "int (if hd bs = block_of (c_cl q - 1) then c_cl q else hd bs + CBLOCK) - int (pos bs off) = int rem"
  proof (cases "off + length xs \<le> CBSIZE")
    case True
    have "off + length xs - 1 < CBSIZE" using True b(3) by linarith
    then have "pos bs (off + length xs - 1) = hd bs + 4 + (off + length xs - 1)" using b(2) by (simp add: pos_def hd_conv_nth)
    moreover obtain m where "length xs = Suc m" using Suc.prems(2) by (cases xs) auto
    ultimately show ?thesis using True l(1) cseg_many [OF s Suc.prems(2)] blkl p0 by (simp add: rem_def q)
  next
    case False
    then show ?thesis using cseg_many [OF s Suc.prems(2)] blkl p0 b(3) by (simp add: rem_def)
  qed
  have cc0: "c_cc q \<noteq> 0" and cf: "c_cf q = pos bs off" using Suc.prems(2) by (simp_all add: q)
  have go: "ndflush_go (Suc k) q cc st =
      (if cc \<le> 0 then Inr (q, st)
       else if int rem \<le> cc
       then rbind (cb_free (hd bs) st) (\<lambda>st'. ndflush_go k (q\<lparr>c_cc := c_cc q - int rem, c_cf := info_of (c_next st (hd bs))\<rparr>) (cc - int rem) st')
       else let q' = q\<lparr>c_cc := c_cc q - cc, c_cf := c_cf q + nat cc\<rparr>
            in if c_cc q' \<le> 0 then rbind (cb_free (hd bs) st) (\<lambda>st. Inr (q', st)) else Inr (q', st))"
    using cc0 unfolding ndflush_go.simps(2) Let_def cf blk0 rem by simp
  from cb_free_spec [OF f(1) b(1)] f(2) b(4) obtain st1 where st1: "cb_free (hd bs) st = Inr st1" "free st1 (hd bs # fs)"
    "others {hd bs} st st1" by blast
  have oth: "others (set bs \<union> set fs) st st1" using others_mono [OF st1(3)] b(4) by simp
  consider "cc = 0" | "cc > 0" "cc < int rem" | "cc > 0" "int rem \<le> cc" "off + length xs \<le> CBSIZE" | "cc > 0" "int rem \<le> cc" "CBSIZE < off + length xs"
    using Suc.prems(4) by linarith
  then show ?case
  proof cases
    case 1
    then show ?thesis using Suc.prems moved_refl [OF Suc.prems(3)] go
      by (intro exI [of _ q] exI [of _ st] exI [of _ bs] exI [of _ off] exI [of _ fs]) simp
  next
    case 2
    let ?q = "q\<lparr>c_cc := c_cc q - cc, c_cf := c_cf q + nat cc\<rparr>"
    have n: "0 < nat cc" "nat cc < length xs" "off + nat cc < CBSIZE" using 2 b(3) by (auto simp: rem_def split: if_splits)
    have nl: "\<not> int (length xs) \<le> cc" using n(2) by linarith
    have "ndflush_go (Suc k) q cc st = Inr (?q, st)" unfolding go using 2 n nl by (simp add: q Let_def)
    moreover have "cq st ?q (drop (nat cc) xs) bs (off + nat cc)"
      using cseg_rest [OF s n] n p0 cseg_pos [OF cseg_rest [OF s n]] 2 by (simp add: cq_def q)
    ultimately show ?thesis using moved_refl [OF Suc.prems(3)] n(2)
      by (intro exI [of _ ?q] exI [of _ st] exI [of _ bs] exI [of _ "off + nat cc"] exI [of _ fs]) simp
  next
    case 3
    then have r: "int rem = c_cc q" by (simp add: rem_def q)
    have one: "bs = [hd bs]" by (rule cseg_single [OF s 3(3) Suc.prems(2)])
    obtain k' where k: "k = Suc k'" using Suc.prems(2,5) by (cases k) auto
    let ?q = "q\<lparr>c_cc := 0, c_cf := info_of (c_next st (hd bs))\<rparr>"
    have "ndflush_go (Suc k) q cc st = Inr (?q, st1)" unfolding go using 3 r st1(1) by (simp add: k ndflush_go.simps(2))
    moreover have "moved st bs fs st1 [] (hd bs # fs)"
    proof -
      have "set bs = {hd bs}" "length bs = 1" by (subst one, simp)+
      then show ?thesis using st1(2) oth by (simp add: moved_def parts_def)
    qed
    moreover have "drop (nat cc) xs = []" using 3 by (simp add: rem_def)
    ultimately show ?thesis by auto
  next
    case 4
    have n: "rem < length xs" "off + rem = CBSIZE" using 4 b(3) by (auto simp: rem_def)
    note nx = cseg_next [OF s n]
    let ?q = "q\<lparr>c_cc := c_cc q - int rem, c_cf := info_of (c_next st (hd bs))\<rparr>"
    have step: "ndflush_go (Suc k) q cc st = ndflush_go k ?q (cc - int rem) st1" unfolding go using 4 st1(1) by simp
    have c1: "cseg st1 (drop rem xs) (tl bs) 0" by (rule cseg_others [OF nx(1) st1(3)]) (use nx(4) in auto)
    have cq1: "cq st1 ?q (drop rem xs) (tl bs) 0" using c1 n nx(3,5) cseg_pos [OF c1] by (simp add: cq_def q info_of_def)
    have bs: "bs = hd bs # tl bs" using b(2) by simp
    have sb: "set bs = insert (hd bs) (set (tl bs))" by (subst bs) simp
    have lb: "length bs = Suc (length (tl bs))" using b(2) by simp
    have m: "moved st bs fs st1 (tl bs) (hd bs # fs)"
      using oth st1(2) nx(4) f(2) sb lb unfolding moved_def parts_def by auto
    have "drop rem xs \<noteq> []" "0 \<le> cc - int rem" "length (drop rem xs) < k" using n 4 Suc.prems(5) b(3) by (auto simp: rem_def)
    moreover have dd: "drop (nat (cc - int rem)) (drop rem xs) = drop (nat cc) xs"
    proof -
      have "nat (cc - int rem) + rem = nat cc" using 4 by simp
      then show ?thesis by (simp only: drop_drop)
    qed
    ultimately obtain q' st' bs' off' fs' where
      "ndflush_go k ?q (cc - int rem) st1 = Inr (q', st')" "moved st1 (tl bs) (hd bs # fs) st' bs' fs'"
      "if drop (nat cc) xs = [] then c_cc q' = 0 \<and> bs' = [] else cq st' q' (drop (nat cc) xs) bs' off'"
      using Suc.IH [OF cq1, of "hd bs # fs" "cc - int rem"] m unfolding moved_def dd by blast
    then show ?thesis using step moved_trans [OF m]
      by (intro exI [of _ q'] exI [of _ st'] exI [of _ bs'] exI [of _ off'] exI [of _ fs']) simp
  qed
qed simp

lemma ndflush_spec:
  assumes c: "cq st q xs bs off" and p: "parts st bs fs" and cc: "0 \<le> cc"
  shows "\<exists>q' st'. ndflush q cc st = Inr (q', st') \<and> becomes st bs fs st' q' (drop (nat cc) xs)"
proof (cases "xs = []")
  case True
  then have "ndflush q cc st = Inr (q, st)" using c by (simp add: ndflush_def cq_def clist0_def)
  then show ?thesis using True becomesI [OF c moved_refl [OF p]] by simp
next
  case False
  have q: "c_cc q = int (length xs)" using c False by (simp add: cq_def)
  from ndflush_go_spec [OF c False p cc lessI] obtain q' st' bs' off' fs' where
    n: "ndflush_go (Suc (length xs)) q cc st = Inr (q', st')" "moved st bs fs st' bs' fs'"
    "if drop (nat cc) xs = [] then c_cc q' = 0 \<and> bs' = [] else cq st' q' (drop (nat cc) xs) bs' off'" by blast
  define q2 where "q2 = (if c_cc q' \<le> 0 then q'\<lparr>c_cf := 0, c_cl := 0, c_cc := 0\<rparr> else q')"
  have "ndflush q cc st = Inr (q2, st')" using q n(1) False by (simp add: ndflush_def q2_def)
  moreover have "\<exists>off2. cq st' q2 (drop (nat cc) xs) bs' off2"
  proof (cases "drop (nat cc) xs = []")
    case True
    then have "cq st' q2 (drop (nat cc) xs) bs' 0" using n(3) by (simp add: q2_def cq_def clist0_def)
    then show ?thesis ..
  next
    case False
    then have "cq st' q' (drop (nat cc) xs) bs' off'" using n(3) by simp
    moreover from this False have "q2 = q'" by (auto simp: q2_def cq_def)
    ultimately show ?thesis by auto
  qed
  ultimately show ?thesis using becomesI [OF _ n(2)] by blast
qed

lemma unputc_prev_chain:
  "chain (c_next st) p (as @ [o', t]) \<Longrightarrow> distinct (as @ [o', t]) \<Longrightarrow> length as < k \<Longrightarrow> unputc_prev k p t st = Inr o'"
proof (induction as arbitrary: p k)
  case Nil
  then show ?case by (cases k) auto
next
  case (Cons a as)
  from Cons.prems(3) obtain k' where k: "k = Suc k'" by (cases k) auto
  have p: "p = Some a" "chain (c_next st) (c_next st a) (as @ [o', t])" using Cons.prems(1) by simp_all
  have "c_next st a \<noteq> Some t"
  proof
    assume "c_next st a = Some t"
    then have "hd (as @ [o', t]) = t" using p(2) by (cases as) auto
    then show False using Cons.prems(2) by (cases as) auto
  qed
  then show ?case using Cons.IH [OF p(2), of k'] Cons.prems k p(1) by simp
qed

lemma unputc_block:
  assumes s: "cseg st xs bs off" and xs: "1 < length xs" "(off + length xs - 1) mod CBSIZE = 0" and p: "parts st bs fs"
  shows "\<exists>as o'. bs = as @ [o', last bs]
    \<and> cseg ((cb_push (last bs) st)\<lparr>c_next := (c_next (cb_push (last bs) st))(o' := None)\<rparr>) (butlast xs) (as @ [o']) off
    \<and> moved st bs fs ((cb_push (last bs) st)\<lparr>c_next := (c_next (cb_push (last bs) st))(o' := None)\<rparr>) (as @ [o']) (last bs # fs)
    \<and> o' + CBLOCK = c_end (as @ [o']) (off + length xs - 1)"
proof -
  define n where n: "n = off + length xs - 1"
  have ne: "xs \<noteq> []" using xs(1) by auto
  have "n = CBSIZE * (n div CBSIZE)" using xs(2) n by (simp add: mod_eq_0_iff_dvd)
  then have nn: "n = CBSIZE * (length bs - 1)" using cseg_last(4) [OF s ne] n by metis
  have "n > 0" using n xs(1) by linarith
  then have "2 \<le> length bs" using nn by (cases "length bs - 1") auto
  then obtain as o' t where bs: "bs = as @ [o', t]" 
    by (metis Suc_le_length_iff append_butlast_last_id append.assoc append_Cons append_Nil butlast.simps(2) length_0_conv list.distinct(1) numeral_2_eq_2)
  have lt: "last bs = t" by (simp add: bs)
  have f: "free st fs" "set bs \<inter> set fs = {}" using p by (simp_all add: parts_def)
  have ch: "chain (c_next st) (Some (hd bs)) (as @ o' # t # [])" and b: "\<forall>b \<in> set bs. blk b" using s bs by (auto simp: cseg_def)
  have d: "distinct (as @ [o', t])" using chain_distinct [OF ch] .
  let ?st = "(cb_push t st)\<lparr>c_next := (c_next (cb_push t st))(o' := None)\<rparr>"
  have nt: "c_next st t = None" using chain_suffix [of "c_next st" "Some (hd bs)" "as @ [o']" t "[]"] ch by simp
  have ch1: "chain ((c_next st)(o' := None)) (Some (hd bs)) (as @ [o'])" using chain_unlink [OF ch] nt d by simp
  have nx: "c_next ?st = ((c_next st)(o' := None))(t := cfreelist st)" using d by (auto simp: cb_push_def fun_upd_twist)
  have ch2: "chain (c_next ?st) (Some (hd bs)) (as @ [o'])" unfolding nx using ch1 d by (subst chain_upd) auto
  have "free (cb_push t st) (t # fs)" using cb_push_free [OF f(1)] b f(2) bs by auto
  then have fr: "free ?st (t # fs)" using d f(2) bs by (auto simp: free_def)
  have oth: "others (set bs \<union> set fs) st ?st" using bs by (auto simp: others_def cb_push_def)
  have m: "moved st bs fs ?st (as @ [o']) (t # fs)" using fr oth d f(2) bs by (auto simp: moved_def parts_def)
  have la: "CBSIZE * length (as @ [o']) = off + length (butlast xs)" using nn n xs(1) bs by simp
  have con: "c_info ?st (pos (as @ [o']) (off + j)) = butlast xs ! j" if "j < length (butlast xs)" for j
  proof -
    have "off + j < CBSIZE * length (as @ [o'])" using la that by linarith
    then have "pos bs (off + j) = pos (as @ [o']) (off + j)" using pos_append [of "off + j" "as @ [o']" "[t]"] bs by simp
    moreover have "c_info st (pos bs (off + j)) = xs ! j" using s that by (simp add: cseg_def)
    ultimately show ?thesis using that by (simp add: cb_push_def nth_butlast)
  qed
  have hd: "hd (as @ [o']) = hd bs" using bs by (cases as) auto
  have o: "off < CBSIZE" using s by (simp add: cseg_def)
  have c: "cseg ?st (butlast xs) (as @ [o']) off"
    unfolding cseg_def hd using ch2 con o la b bs by auto
  have nb: "n = off + length (butlast xs)" "n mod CBSIZE = 0" using n xs by simp_all
  from cseg_full(2) [OF c nb(1) \<open>n > 0\<close> nb(2)] have "o' + CBLOCK = c_end (as @ [o']) n" by simp
  then show ?thesis using bs m c lt unfolding n [symmetric] by (intro exI [of _ as] exI [of _ o']) simp
qed

lemma unputc_spec:
  assumes c: "cq st q xs bs off" and p: "parts st bs fs" and ne: "xs \<noteq> []" and len: "length bs \<le> NCLIST"
  shows "\<exists>q' st'. unputc q st = Inr (sint (last xs), q', st') \<and> becomes st bs fs st' q' (butlast xs)"
proof -
  have s: "cseg st xs bs off" and q: "q = \<lparr>c_cc = int (length xs), c_cf = pos bs off, c_cl = c_end bs (off + length xs)\<rparr>"
    and f: "free st fs" "set bs \<inter> set fs = {}" using c p ne by (auto simp: cq_def parts_def)
  define n where n: "n = off + length xs - 1"
  obtain m where m: "length xs = Suc m" using ne by (cases xs) auto
  note l = cseg_last [OF s ne, folded n]
  have b: "\<forall>b \<in> set bs. blk b" "bs \<noteq> []" "off < CBSIZE" and ch: "chain (c_next st) (Some (hd bs)) bs" using s by (auto simp: cseg_def)
  have d: "distinct bs" by (rule chain_distinct [OF ch])
  have "last bs \<in> set bs" using b(2) by simp
  then have lb: "last bs \<in> set bs" "blk (last bs)" "last bs \<notin> set fs" using b(1) f(2) by blast+
  have cl: "c_cl q - 1 = pos bs n" using l(1) by (simp add: q)
  let ?q = "q\<lparr>c_cl := pos bs n, c_cc := c_cc q - 1\<rparr>" and ?st = "cb_push (last bs) st"
  have fr: "free ?st (last bs # fs)" by (rule cb_push_free [OF f(1) lb(2,3)])
  have un: "unputc q st = (if length xs = 1 then Inr (sint (last xs), ?q\<lparr>c_cl := 0, c_cf := 0\<rparr>, ?st)
     else if n mod CBSIZE = 0
     then rbind (unputc_prev (Suc NCLIST) (Some (hd bs)) (last bs) st) (\<lambda>obp.
            Inr (sint (last xs), ?q\<lparr>c_cl := obp + CBLOCK\<rparr>, ?st\<lparr>c_next := (c_next ?st)(obp := None)\<rparr>))
     else Inr (sint (last xs), ?q, st))"
  proof -
    have "block_of (pos bs off) = hd bs" using blk_add(1) [of "hd bs" "4 + off"] b cseg_pos [OF s] by (simp add: add.assoc)
    then show ?thesis using ne m l(2,3,5) unfolding unputc_def Let_def cl by (simp add: q)
  qed
  consider "length xs = 1" | "1 < length xs" "n mod CBSIZE = 0" | "1 < length xs" "n mod CBSIZE \<noteq> 0" using m by linarith
  then show ?thesis
  proof cases
    case 1
    then have one: "bs = [last bs]" using cseg_single [OF s _ ne] b(3) by (metis Suc_eq_plus1 Suc_leI last.simps)
    have "set bs = {last bs}" "length bs = 1" by (subst one, simp)+
    then have "moved st bs fs ?st [] (last bs # fs)"
      using fr others_mono [OF cb_push_others(1), of "last bs" "set bs \<union> set fs" st] by (simp add: moved_def parts_def)
    moreover have "butlast xs = []" using 1 by (cases xs) auto
    then have "cq ?st (?q\<lparr>c_cl := 0, c_cf := 0\<rparr>) (butlast xs) [] 0" using 1 by (simp add: cq_def q clist0_def)
    ultimately show ?thesis using un 1 becomesI by auto
  next
    case 2
    from unputc_block [OF s 2(1) _ p] obtain as o' where
      o: "bs = as @ [o', last bs]" "cseg (?st\<lparr>c_next := (c_next ?st)(o' := None)\<rparr>) (butlast xs) (as @ [o']) off"
      "moved st bs fs (?st\<lparr>c_next := (c_next ?st)(o' := None)\<rparr>) (as @ [o']) (last bs # fs)" "o' + CBLOCK = c_end (as @ [o']) n"
      using 2(2) n by auto
    have "length bs = length as + 2" by (subst o(1)) simp
    then have "length as < Suc NCLIST" using len by simp
    from unputc_prev_chain [OF _ _ this] ch d o(1) have "unputc_prev (Suc NCLIST) (Some (hd bs)) (last bs) st = Inr o'" by metis
    then have "unputc q st = Inr (sint (last xs), ?q\<lparr>c_cl := o' + CBLOCK\<rparr>, ?st\<lparr>c_next := (c_next ?st)(o' := None)\<rparr>)" using un 2 by simp
    moreover have "cq (?st\<lparr>c_next := (c_next ?st)(o' := None)\<rparr>) (?q\<lparr>c_cl := o' + CBLOCK\<rparr>) (butlast xs) (as @ [o']) off"
    proof -
      have "pos (as @ [o']) off = pos bs off" using cseg_pos [OF o(2)] cseg_pos [OF s] o(1) by (metis hd_append2 hd_append list.sel(1))
      moreover have "butlast xs \<noteq> []" using 2(1) by (metis length_butlast list.size(3) zero_less_diff less_numeral_extra(3))
      ultimately show ?thesis using o(2,4) m n by (simp add: cq_def q)
    qed
    ultimately show ?thesis using becomesI [OF _ o(3)] by blast
  next
    case 3
    have bx: "butlast xs \<noteq> []" using 3(1) by (metis length_butlast list.size(3) zero_less_diff less_numeral_extra(3))
    have n': "n = off + m" using n m by simp
    have le: "CBSIZE * (length bs - 1) < n" "n \<le> CBSIZE * length bs"
    proof -
      have "CBSIZE * (length bs - 1) \<le> n" "n \<le> CBSIZE * length bs" using s m ne by (auto simp: cseg_def n')
      moreover have "CBSIZE * (length bs - 1) \<noteq> n" using 3(2) by auto
      ultimately show "CBSIZE * (length bs - 1) < n" "n \<le> CBSIZE * length bs" by simp_all
    qed
    then have "cseg st (butlast xs) bs off" using s m by (auto simp: cseg_def n' nth_butlast)
    moreover have "pos bs n = c_end bs n" using c_end_boundary(2) [OF b(1) le(2) b(2)] 3(2) by simp
    ultimately have "cq st ?q (butlast xs) bs off" using bx m n' by (simp add: cq_def q)
    then show ?thesis using un 3 becomesI [OF _ moved_refl [OF p]] by auto
  qed
qed

lemma moved_append:
  assumes "moved st bs fs st' bs' fs'" and "set cs \<inter> (set bs \<union> set fs) = {}"
  shows "moved st (bs @ cs) fs st' (bs' @ cs) fs'" and "moved st (cs @ bs) fs st' (cs @ bs') fs'"
    and "set cs \<inter> (set bs' \<union> set fs') = {}" and "cq st q xs cs off \<Longrightarrow> cq st' q xs cs off"
  using assms others_mono [of "set bs \<union> set fs" st st' "set cs \<union> (set bs \<union> set fs)"] cq_others
  unfolding moved_def parts_def by (auto simp: Un_ac)

lemma catq_go_spec:
  assumes "cq st from xs bs off" and "cq st to ys bs2 off2" and "parts st bs fs" and "set bs2 \<inter> (set bs \<union> set fs) = {}"
    and "ys \<noteq> []" and "length xs < k"
  shows "\<exists>to' st' bs' off' fs'. catq_go k from to st = Inr (clist0, to', st') \<and> cq st' to' (ys @ xs) bs' off'
    \<and> moved st (bs @ bs2) fs st' bs' fs'"
  using assms
proof (induction k arbitrary: st "from" to xs ys bs off bs2 off2 fs)
  case (Suc k)
  show ?case
  proof (cases "xs = []")
    case True
    then have q: "from = clist0" "bs = []" using Suc.prems(1) by (auto simp: cq_def)
    have "parts st bs2 fs" using Suc.prems(3,4) q by (auto simp: parts_def)
    from moved_refl [OF this] have "moved st (bs @ bs2) fs st bs2 fs" by (simp add: q)
    moreover have "catq_go (Suc k) from to st = Inr (clist0, to, st)" by (simp add: q clist0_def)
    ultimately show ?thesis using Suc.prems(2) unfolding True append_Nil2 by blast
  next
    case False
    let ?c = "take (CBSIZE * 4) xs" and ?xs = "drop (CBSIZE * 4) xs"
    have cc: "c_cc from > 0" using Suc.prems(1) False by (auto simp: cq_def)
    from q_to_b_blocks [OF Suc.prems(1,3) False, of "CBSIZE * 4"] obtain from1 st1 bs1 off1 fs1 m where
      t: "q_to_b from (int (CBSIZE * 4)) st = Inr (?c, from1, st1)" "cq st1 from1 ?xs bs1 off1" "moved st bs fs st1 bs1 fs1"
      "length fs1 = length fs + m" "if length xs \<le> CBSIZE * 4 then off + length xs \<le> CBSIZE * m else off + CBSIZE * 4 = CBSIZE * m + off1"
      by auto
    note m1 = moved_append [OF t(3) Suc.prems(4)]
    have to1: "cq st1 to ys bs2 off2" by (rule m1(4) [OF Suc.prems(2)])
    have p1: "parts st1 bs2 fs1" using m1(3) t(3) unfolding moved_def parts_def by blast
    have "length ?c \<le> CBSIZE * m"
    proof (cases "length xs \<le> CBSIZE * 4")
      case False
      then have "off1 < CBSIZE" using t(2) by (simp add: cq_def cseg_def)
      then have "4 \<le> m" using False t(5) by simp
      then show ?thesis by simp
    qed (use t(5) in simp)
    moreover have "off2 + length ys \<le> CBSIZE * length bs2" using Suc.prems(2,5) by (simp add: cq_def cseg_def)
    ultimately have "length ?c \<le> c_room ys bs2 off2 fs1" unfolding c_room_def t(4) by simp
    then have "take (c_room ys bs2 off2 fs1) ?c = ?c" by (rule take_all)
    with b_to_q_spec [OF to1 p1 refl, of ?c] obtain to2 st2 bs3 off3 fs3 n where
      b: "b_to_q ?c to st1 = Inr (n, to2, st2)" "cq st2 to2 (ys @ ?c) bs3 off3" "moved st1 bs2 fs1 st2 bs3 fs3"
      unfolding becomes_def by metis
    have d: "set bs1 \<inter> (set bs2 \<union> set fs1) = {}" using m1(3) t(3) unfolding moved_def parts_def by blast
    note m2 = moved_append [OF b(3) d]
    have p2: "parts st2 bs1 fs3" "set bs3 \<inter> (set bs1 \<union> set fs3) = {}" using m2(3) b(3) unfolding moved_def parts_def by blast+
    have "0 < length xs" using False by simp
    then have l: "length ?xs < k" "ys @ ?c \<noteq> []" using Suc.prems(5,6) unfolding length_drop by (linarith, simp)
    from Suc.IH [OF m2(4) [OF t(2)] b(2) p2 l(2,1)] obtain to' st' bs' off' fs' where
      r: "catq_go k from1 to2 st2 = Inr (clist0, to', st')" "cq st' to' ((ys @ ?c) @ ?xs) bs' off'" "moved st2 (bs1 @ bs3) fs3 st' bs' fs'" by blast
    have "catq_go (Suc k) from to st = Inr (clist0, to', st')" using cc t(1) b(1) r(1) by simp
    moreover have "moved st (bs @ bs2) fs st' bs' fs'" by (rule moved_trans [OF moved_trans [OF m1(1) m2(2)] r(3)])
    ultimately show ?thesis using r(2) unfolding append_assoc append_take_drop_id by blast
  qed
qed simp

lemma catq_spec:
  assumes "cq st from xs bs off" and "cq st to ys bs2 off2" and "parts st bs fs" and "set bs2 \<inter> (set bs \<union> set fs) = {}"
  shows "\<exists>to' st'. catq from to st = Inr (clist0, to', st') \<and> becomes st (bs @ bs2) fs st' to' (ys @ xs)"
proof (cases "ys = []")
  case True
  then have "to = clist0" "bs2 = []" using assms(2) by (auto simp: cq_def)
  then show ?thesis using assms(1) moved_refl [OF assms(3)] True becomesI by (auto simp: catq_def clist0_def)
next
  case False
  have "c_cc from = int (length xs)" "c_cc to \<noteq> 0" using assms(1,2) False by (auto simp: cq_def clist0_def split: if_splits)
  then show ?thesis using catq_go_spec [OF assms False lessI] unfolding catq_def becomes_def by auto
qed

lemma cinit_go_free:
  assumes "free st fs" and "blk cp" and "\<forall>b \<in> set fs. b < cp"
  shows "free (cinit_go hi cp st) (rev (map (\<lambda>i. cp + CBLOCK * i) [0..<if cp \<le> hi then Suc ((hi - cp) div CBLOCK) else 0]) @ fs)"
  using assms
proof (induction hi cp st arbitrary: fs rule: cinit_go.induct)
  case (1 hi cp st)
  show ?case
  proof (cases "cp \<le> hi")
    case True
    have nf: "cp \<notin> set fs" using "1.prems"(3) by auto
    have "blk (cp + CBLOCK)" using "1.prems"(2) by (simp add: blk_def)
    moreover have "\<forall>b \<in> set (cp # fs). b < cp + CBLOCK" using "1.prems"(3) by fastforce
    ultimately have
      i: "free (cinit_go hi (cp + CBLOCK) (cb_push cp st)) (rev (map (\<lambda>i. cp + CBLOCK + CBLOCK * i)
            [0..<if cp + CBLOCK \<le> hi then Suc ((hi - (cp + CBLOCK)) div CBLOCK) else 0]) @ cp # fs)"
      by (rule "1.IH" [OF True cb_push_free [OF "1.prems"(1,2) nf]])
    have e: "(if cp + CBLOCK \<le> hi then Suc ((hi - (cp + CBLOCK)) div CBLOCK) else 0) = (hi - cp) div CBLOCK"
    proof (cases "cp + CBLOCK \<le> hi")
      case True
      then obtain r where "hi = cp + CBLOCK + r" using le_Suc_ex by blast
      then show ?thesis by simp
    qed auto
    have "map (\<lambda>i. cp + CBLOCK * i) [0..<Suc j] = cp # map (\<lambda>i. cp + CBLOCK + CBLOCK * i) [0..<j]" for j
      by (simp add: upt_conv_Cons map_Suc_upt [symmetric] o_def add.assoc del: upt_Suc)
    then show ?thesis using i True unfolding e by (subst cinit_go.simps) simp
  next
    case False
    then show ?thesis using "1.prems"(1) by (subst cinit_go.simps) simp
  qed
qed

subsection \<open>Looking at a queue\<close>

lemma pos_step:
  assumes "\<forall>b \<in> set bs. blk b" and "Suc j < CBSIZE * length bs" and ch: "chain (c_next st) (Some (hd bs)) bs"
  shows "pos bs (Suc j) = (if (pos bs j + 1) mod CBLOCK = 0 then info_of (c_next st (pos bs j + 1 - CBLOCK)) else pos bs j + 1)"
proof -
  define k r where "k = j div CBSIZE" and "r = j mod CBSIZE"
  have j: "j = CBSIZE * k + r" "r < CBSIZE" by (simp_all add: k_def r_def)
  have kl: "k < length bs" using assms(2) unfolding k_def by (simp add: less_mult_imp_div_less mult.commute)
  have b: "blk (bs ! k)" using assms(1) kl by simp
  have pj: "pos bs j + 1 = bs ! k + (5 + r)" by (simp add: pos_def k_def r_def)
  show ?thesis
  proof (cases "r = 27")
    case True
    have sj: "Suc j = CBSIZE * Suc k + 0" using j True by simp
    then have l: "Suc k < length bs" using assms(2) by simp
    have "chain (c_next st) (Some (hd bs)) (take k bs @ bs ! k # bs ! Suc k # drop (Suc (Suc k)) bs)"
      using ch kl l by (metis Cons_nth_drop_Suc append_take_drop_id)
    from chain_suffix [OF this] have "c_next st (bs ! k) = Some (bs ! Suc k)" by simp
    moreover have "pos bs (Suc j) = bs ! Suc k + 4" unfolding sj by (simp add: pos_def)
    ultimately show ?thesis unfolding pj using True b by (simp add: info_of_def blk_def)
  next
    case False
    have "(bs ! k + (5 + r)) mod CBLOCK = 5 + r" using False j(2) by (intro blk_add(2) [OF b]) simp
    moreover have "pos bs (j + 1) = pos bs j + 1" using False j(2) by (intro pos_shift) (simp add: r_def)
    ultimately show ?thesis unfolding pj by (simp add: pj [symmetric])
  qed
qed

text \<open>\<open>nextc\<close> steps through the bytes of a queue and returns NULL after the last.\<close>

lemma nextc_steps:
  assumes c: "cq st q xs bs off" and i: "i < length xs"
  shows "nextc q (pos bs (off + i)) st = (if Suc i = length xs then 0 else pos bs (off + Suc i))"
proof -
  have ne: "xs \<noteq> []" using i by auto
  have s: "cseg st xs bs off" and q: "q = \<lparr>c_cc = int (length xs), c_cf = pos bs off, c_cl = c_end bs (off + length xs)\<rparr>"
    using c ne by (auto simp: cq_def)
  have b: "\<forall>b \<in> set bs. blk b" "distinct bs" "off + length xs \<le> CBSIZE * length bs" and ch: "chain (c_next st) (Some (hd bs)) bs"
    using s chain_distinct by (auto simp: cseg_def)
  have le: "off + i < CBSIZE * length bs" "off + length xs - 1 < CBSIZE * length bs" using b(3) i by linarith+
  have "pos bs (off + i) + 1 = c_cl q \<longleftrightarrow> Suc i = length xs"
  proof
    assume "pos bs (off + i) + 1 = c_cl q"
    then have "pos bs (off + i) = pos bs (off + length xs - 1)" using cseg_last(1) [OF s ne] by (simp add: q)
    from pos_inj [OF b(1,2) le this] show "Suc i = length xs" using i by linarith
  next
    assume "Suc i = length xs"
    then have "off + length xs - 1 = off + i" by linarith
    then show "pos bs (off + i) + 1 = c_cl q" using cseg_last(1) [OF s ne] by (simp add: q)
  qed
  moreover have "pos bs (Suc (off + i)) = (if (pos bs (off + i) + 1) mod CBLOCK = 0
      then info_of (c_next st (pos bs (off + i) + 1 - CBLOCK)) else pos bs (off + i) + 1)" if "Suc i \<noteq> length xs"
    using pos_step [OF b(1) _ ch, of "off + i"] that b(3) i by simp
  ultimately show ?thesis using ne by (auto simp: nextc_def q)
qed

text \<open>\<open>ndqb\<close> with no flag: the bytes that lie in the first block.\<close>

lemma ndqb_contiguous:
  assumes "cq st q xs bs off"
  shows "ndqb q 0 st = int (min (length xs) (CBSIZE - off))"
proof (cases "xs = []")
  case True
  then show ?thesis using assms by (simp add: cq_def ndqb_def clist0_def)
next
  case False
  then have s: "cseg st xs bs off" and q: "q = \<lparr>c_cc = int (length xs), c_cf = pos bs off, c_cl = c_end bs (off + length xs)\<rparr>"
    using assms by (auto simp: cq_def)
  have o: "off < CBSIZE" and b: "blk (hd bs)" using s by (auto simp: cseg_def)
  have "block_of (pos bs off + CBSIZE) = hd bs + CBLOCK"
  proof -
    have "blk (hd bs + CBLOCK)" using b by (simp add: blk_def)
    from blk_add(1) [OF this, of off] show ?thesis using cseg_pos [OF s] o by (simp add: add.commute add.left_commute)
  qed
  then show ?thesis using False o cseg_pos [OF s] by (simp add: ndqb_def q Let_def min_def) linarith
qed

end
