(* ===== verification/Clistrun.thy ===== *)
theory Clistrun
  imports Clistpool Kill
begin

text \<open>
  Any number of character lists over the one pool, and any sequence of operations on them,
  from the state that \<open>cinit\<close> leaves. A list is known by a number; each of its operations
  is one of the functions of theory \<open>Clist\<close>.
\<close>

subsection \<open>Operations and their specification\<close>

datatype cop = Putc u8 nat | Getc nat | Unputc nat | B_to_q "u8 list" nat | Q_to_b nat int | Ndflush nat int | Catq nat nat

datatype cout = Num int | Bytes "u8 list" | Done

definition cop_at :: "nat \<Rightarrow> (clist \<Rightarrow> 'a cst_scheme \<Rightarrow> ('r \<times> clist \<times> 'a cst_scheme) res) \<Rightarrow> ('r \<Rightarrow> cout)
    \<Rightarrow> (nat \<Rightarrow> clist) \<times> 'a cst_scheme \<Rightarrow> (cout \<times> (nat \<Rightarrow> clist) \<times> 'a cst_scheme) res" where
  "cop_at i f g s = rbind (f (fst s i) (snd s)) (\<lambda>(r, q, st). Inr (g r, (fst s)(i := q), st))"

fun cop_do :: "cop \<Rightarrow> (nat \<Rightarrow> clist) \<times> 'a cst_scheme \<Rightarrow> (cout \<times> (nat \<Rightarrow> clist) \<times> 'a cst_scheme) res" where
  "cop_do (Putc c i) s = cop_at i (\<lambda>q st. Inr (putc c q st)) Num s"
| "cop_do (Getc i) s = cop_at i getc Num s"
| "cop_do (Unputc i) s = cop_at i unputc Num s"
| "cop_do (B_to_q cp i) s = cop_at i (b_to_q cp) Num s"
| "cop_do (Q_to_b i n) s = cop_at i (\<lambda>q. q_to_b q n) Bytes s"
| "cop_do (Ndflush i n) s = cop_at i (\<lambda>q st. rbind (ndflush q n st) (\<lambda>r. Inr ((), r))) (\<lambda>_. Done) s"
| "cop_do (Catq i j) s = rbind (catq (fst s i) (fst s j) (snd s)) (\<lambda>(from, to, st). Inr (Done, (fst s)(i := from, j := to), st))"

text \<open>
  The lists of bytes the queues stand for: what each result says about them, and what they
  are afterwards.
\<close>

fun cop_spec :: "cop \<Rightarrow> cout \<Rightarrow> (nat \<Rightarrow> u8 list) \<Rightarrow> (nat \<Rightarrow> u8 list) option" where
  "cop_spec (Putc c i) (Num r) xs = (if r = 0 then Some (xs(i := xs i @ [c])) else if r = -1 then Some xs else None)"
| "cop_spec (Getc i) (Num r) xs =
     (case xs i of [] \<Rightarrow> if r = -1 then Some xs else None | y # ys \<Rightarrow> if r = uint y then Some (xs(i := ys)) else None)"
| "cop_spec (Unputc i) (Num r) xs =
     (if xs i = [] then if r = -1 then Some xs else None
      else if r = sint (last (xs i)) then Some (xs(i := butlast (xs i))) else None)"
| "cop_spec (B_to_q cp i) (Num r) xs =
     (if 0 \<le> r \<and> r \<le> int (length cp) then Some (xs(i := xs i @ take (length cp - nat r) cp)) else None)"
| "cop_spec (Q_to_b i n) (Bytes bs) xs = (if bs = take (nat n) (xs i) then Some (xs(i := drop (nat n) (xs i))) else None)"
| "cop_spec (Ndflush i n) Done xs = Some (xs(i := drop (nat n) (xs i)))"
| "cop_spec (Catq i j) Done xs = Some (xs(i := [], j := xs j @ xs i))"
| "cop_spec _ _ xs = None"

text \<open>\<open>ndflush\<close> of a negative count and \<open>catq\<close> of a list to itself are left out.\<close>

fun cop_ok :: "cop \<Rightarrow> bool" where
  "cop_ok (Ndflush i n) \<longleftrightarrow> 0 \<le> n"
| "cop_ok (Catq i j) \<longleftrightarrow> i \<noteq> j"
| "cop_ok _ \<longleftrightarrow> True"

subsection \<open>The pool\<close>

text \<open>Every block of \<open>B\<close> is in one queue or on the free list \<open>fs\<close>.\<close>

definition cpool :: "nat set \<Rightarrow> (nat \<Rightarrow> clist) \<times> 'a cst_scheme \<Rightarrow> (nat \<Rightarrow> u8 list) \<Rightarrow> (nat \<Rightarrow> nat list) \<Rightarrow> nat list \<Rightarrow> bool" where
  "cpool B s xss bss fs \<longleftrightarrow>
     (\<forall>i. \<exists>off. cq (snd s) (fst s i) (xss i) (bss i) off) \<and> free (snd s) fs \<and> (\<forall>i. set (bss i) \<inter> set fs = {})
     \<and> (\<forall>i j. i \<noteq> j \<longrightarrow> set (bss i) \<inter> set (bss j) = {}) \<and> (\<Union>i. set (bss i)) \<union> set fs = B \<and> finite B \<and> card B \<le> NCLIST"

definition crel :: "nat set \<Rightarrow> (nat \<Rightarrow> clist) \<times> 'a cst_scheme \<Rightarrow> (nat \<Rightarrow> u8 list) \<Rightarrow> bool" where
  "crel B s xss \<longleftrightarrow> (\<exists>bss fs. cpool B s xss bss fs)"

lemma cpoolD:
  assumes "cpool B s xss bss fs"
  shows "\<exists>off. cq (snd s) (fst s i) (xss i) (bss i) off" and "parts (snd s) (bss i) fs" and "length (bss i) \<le> NCLIST"
    and "i \<noteq> j \<Longrightarrow> set (bss j) \<inter> (set (bss i) \<union> set fs) = {}"
proof -
  show c: "\<exists>off. cq (snd s) (fst s i) (xss i) (bss i) off" "parts (snd s) (bss i) fs" using assms by (simp_all add: cpool_def parts_def)
  from c(1) have d: "distinct (bss i)" using cq_distinct by blast
  have "set (bss i) \<subseteq> B" using assms unfolding cpool_def by blast
  moreover have "finite B" and n: "card B \<le> NCLIST" using assms by (simp_all add: cpool_def)
  ultimately have "card (set (bss i)) \<le> NCLIST" using card_mono le_trans by blast
  then show "length (bss i) \<le> NCLIST" using d by (simp add: distinct_card)
  show "i \<noteq> j \<Longrightarrow> set (bss j) \<inter> (set (bss i) \<union> set fs) = {}" using assms unfolding cpool_def by blast
qed

text \<open>The queues of \<open>I\<close> change, the blocks they held being moved among them and the free list.\<close>

lemma cpool_upd:
  assumes p: "cpool B s xss bss fs" and m: "moved (snd s) bs fs st' bs' fs'"
    and bs: "set bs = (\<Union>j \<in> I. set (bss j))" "set bs' = (\<Union>j \<in> I. set (bss' j))"
    and same: "\<And>j. j \<notin> I \<Longrightarrow> qs' j = fst s j \<and> xss' j = xss j \<and> bss' j = bss j"
    and new: "\<And>j. j \<in> I \<Longrightarrow> \<exists>off. cq st' (qs' j) (xss' j) (bss' j) off"
    and dis: "\<And>j k. j \<in> I \<Longrightarrow> k \<in> I \<Longrightarrow> j \<noteq> k \<Longrightarrow> set (bss' j) \<inter> set (bss' k) = {}"
  shows "crel B (qs', st') xss'"
proof -
  have d: "set (bss j) \<inter> (set bs \<union> set fs) = {}" if "j \<notin> I" for j
  proof -
    have "set (bss j) \<inter> set (bss k) = {}" if "k \<in> I" for k
    proof -
      have "j \<noteq> k" using that \<open>j \<notin> I\<close> by blast
      then show ?thesis using p by (simp add: cpool_def)
    qed
    moreover have "set (bss j) \<inter> set fs = {}" using p by (simp add: cpool_def)
    ultimately show ?thesis unfolding bs(1) by blast
  qed
  note o = moved_append(3,4) [OF m d]
  have "cpool B (qs', st') xss' bss' fs'"
    unfolding cpool_def fst_conv snd_conv
  proof (intro conjI allI impI)
    show "\<exists>off. cq st' (qs' j) (xss' j) (bss' j) off" for j
      using new same o(2) cpoolD(1) [OF p, of j] by (cases "j \<in> I") metis+
    show f: "free st' fs'" using m by (simp add: moved_def parts_def)
    show "set (bss' j) \<inter> set fs' = {}" for j
      using o(1) [of j] same [of j] m bs(2) unfolding moved_def parts_def by (cases "j \<in> I") auto
    show "set (bss' j) \<inter> set (bss' k) = {}" if jk: "j \<noteq> k" for j k
    proof -
      have "set (bss j) \<inter> set (bss k) = {}" using p jk by (simp add: cpool_def)
      then show ?thesis using dis o(1) [of j] o(1) [of k] same [of j] same [of k] jk bs(2) by (cases "j \<in> I"; cases "k \<in> I") auto
    qed
    show "(\<Union>j. set (bss' j)) \<union> set fs' = B"
    proof -
      have u: "(\<Union>j. f j) = (\<Union>j \<in> -I. f j) \<union> (\<Union>j \<in> I. f j)" for f :: "nat \<Rightarrow> nat set" by blast
      have "(\<Union>j \<in> -I. set (bss' j)) = (\<Union>j \<in> -I. set (bss j))" using same by simp
      then have "(\<Union>j. set (bss' j)) = (\<Union>j \<in> -I. set (bss j)) \<union> set bs'" "(\<Union>j. set (bss j)) = (\<Union>j \<in> -I. set (bss j)) \<union> set bs"
        unfolding bs using u by metis+
      moreover have "(\<Union>j. set (bss j)) \<union> set fs = B" "set bs' \<union> set fs' = set bs \<union> set fs" using p m by (simp_all add: cpool_def moved_def)
      ultimately show ?thesis by (metis Un_assoc)
    qed
    show "finite B" "card B \<le> NCLIST" using p by (simp_all add: cpool_def)
  qed
  then show ?thesis unfolding crel_def by blast
qed

lemma cpool_step:
  assumes p: "cpool B s xss bss fs" and b: "becomes (snd s) (bss i) fs st' q' xs'"
  shows "crel B ((fst s)(i := q'), st') (xss(i := xs'))"
proof -
  from b obtain bs' off' fs' where c: "cq st' q' xs' bs' off'" and m: "moved (snd s) (bss i) fs st' bs' fs'" unfolding becomes_def by blast
  from c have "\<exists>off. cq st' q' xs' bs' off" by blast
  then show ?thesis by (intro cpool_upd [OF p m, where I = "{i}" and bss' = "bss(i := bs')"]) auto
qed

lemma cpool_catq:
  assumes p: "cpool B s xss bss fs" and ij: "i \<noteq> j" and b: "becomes (snd s) (bss i @ bss j) fs st' to' xs'"
  shows "crel B ((fst s)(i := clist0, j := to'), st') (xss(i := [], j := xs'))"
proof -
  from b obtain bs' off' fs' where c: "cq st' to' xs' bs' off'" and m: "moved (snd s) (bss i @ bss j) fs st' bs' fs'"
    unfolding becomes_def by blast
  from c have "\<exists>off. cq st' to' xs' bs' off" by blast
  then show ?thesis using ij
    by (intro cpool_upd [OF p m, where I = "{i, j}" and bss' = "bss(i := [], j := bs')"]) (auto simp: cq_def)
qed

lemma cop_at_step:
  assumes p: "cpool B s xss bss fs"
    and f: "\<And>off. cq (snd s) (fst s i) (xss i) (bss i) off \<Longrightarrow> parts (snd s) (bss i) fs \<Longrightarrow> length (bss i) \<le> NCLIST \<Longrightarrow>
      \<exists>r q' st'. f (fst s i) (snd s) = Inr (r, q', st') \<and> cop_spec x (g r) xss = Some (xss(i := xs' r)) \<and> becomes (snd s) (bss i) fs st' q' (xs' r)"
  shows "\<exists>r s' xss'. cop_at i f g s = Inr (r, s') \<and> cop_spec x r xss = Some xss' \<and> crel B s' xss'"
proof -
  from f cpoolD(1-3) [OF p, of i] obtain r q' st' where r: "f (fst s i) (snd s) = Inr (r, q', st')"
    "cop_spec x (g r) xss = Some (xss(i := xs' r))" "becomes (snd s) (bss i) fs st' q' (xs' r)" by blast
  then show ?thesis using cpool_step [OF p r(3)]
    by (intro exI [of _ "g r"] exI [of _ "((fst s)(i := q'), st')"] exI [of _ "xss(i := xs' r)"]) (simp add: cop_at_def)
qed

lemma cop_do_spec:
  assumes "crel B s xss" and ok: "cop_ok x"
  shows "\<exists>r s' xss'. cop_do x s = Inr (r, s') \<and> cop_spec x r xss = Some xss' \<and> crel B s' xss'"
proof -
  from assms(1) obtain bss fs where p: "cpool B s xss bss fs" unfolding crel_def by blast
  show ?thesis
  proof (cases x)
    case (Putc c i)
    show ?thesis unfolding Putc cop_do.simps
    proof (rule cop_at_step [OF p, where xs' = "\<lambda>r. if r = 0 then xss i @ [c] else xss i"])
      fix off assume c: "cq (snd s) (fst s i) (xss i) (bss i) off" and q: "parts (snd s) (bss i) fs"
      from putc_spec [OF this, of c] becomesI [OF c moved_refl [OF q]] obtain r q' st' where
        "putc c (fst s i) (snd s) = (r, q', st')" "r = 0 \<or> r = -1" "becomes (snd s) (bss i) fs st' q' (if r = 0 then xss i @ [c] else xss i)"
        by (fastforce split: if_splits)
      then show "\<exists>r q' st'. Inr (putc c (fst s i) (snd s)) = (Inr (r, q', st') :: (_ \<times> _ \<times> _) res)
          \<and> cop_spec (Putc c i) (Num r) xss = Some (xss(i := if r = 0 then xss i @ [c] else xss i))
          \<and> becomes (snd s) (bss i) fs st' q' (if r = 0 then xss i @ [c] else xss i)"
        by (intro exI [of _ r] exI [of _ q'] exI [of _ st']) auto
    qed
  next
    case (Getc i)
    show ?thesis unfolding Getc cop_do.simps
    proof (rule cop_at_step [OF p, where xs' = "\<lambda>r. tl (xss i)"])
      fix off assume c: "cq (snd s) (fst s i) (xss i) (bss i) off" and q: "parts (snd s) (bss i) fs"
      show "\<exists>r q' st'. getc (fst s i) (snd s) = Inr (r, q', st') \<and> cop_spec (Getc i) (Num r) xss = Some (xss(i := tl (xss i)))
          \<and> becomes (snd s) (bss i) fs st' q' (tl (xss i))"
      proof (cases "xss i")
        case Nil
        then have "getc (fst s i) (snd s) = Inr (-1, fst s i, snd s)" using c by (simp add: cq_def getc_def clist0_def)
        then show ?thesis using becomesI [OF c moved_refl [OF q]] Nil by (auto simp: fun_upd_idem)
      next
        case (Cons y ys)
        then show ?thesis using getc_becomes [of _ _ y ys, OF _ q] c by auto
      qed
    qed
  next
    case (Unputc i)
    show ?thesis unfolding Unputc cop_do.simps
    proof (rule cop_at_step [OF p, where xs' = "\<lambda>r. butlast (xss i)"])
      fix off assume c: "cq (snd s) (fst s i) (xss i) (bss i) off" and q: "parts (snd s) (bss i) fs" and n: "length (bss i) \<le> NCLIST"
      show "\<exists>r q' st'. unputc (fst s i) (snd s) = Inr (r, q', st') \<and> cop_spec (Unputc i) (Num r) xss = Some (xss(i := butlast (xss i)))
          \<and> becomes (snd s) (bss i) fs st' q' (butlast (xss i))"
      proof (cases "xss i = []")
        case True
        then have "unputc (fst s i) (snd s) = Inr (-1, fst s i, snd s)" using c by (simp add: cq_def unputc_def clist0_def)
        then show ?thesis using becomesI [OF c moved_refl [OF q]] True by (auto simp: fun_upd_idem)
      next
        case False
        then show ?thesis using unputc_spec [OF c q False n] by auto
      qed
    qed
  next
    case (B_to_q cp i)
    show ?thesis unfolding B_to_q cop_do.simps
    proof (rule cop_at_step [OF p, where xs' = "\<lambda>r. xss i @ take (length cp - nat r) cp"])
      fix off assume c: "cq (snd s) (fst s i) (xss i) (bss i) off" and q: "parts (snd s) (bss i) fs"
      let ?room = "c_room (xss i) (bss i) off fs"
      have "take (length cp - nat (int (length cp - ?room))) cp = take ?room cp"
        unfolding nat_int by (cases "?room \<le> length cp") simp_all
      then show "\<exists>r q' st'. b_to_q cp (fst s i) (snd s) = Inr (r, q', st')
          \<and> cop_spec (B_to_q cp i) (Num r) xss = Some (xss(i := xss i @ take (length cp - nat r) cp))
          \<and> becomes (snd s) (bss i) fs st' q' (xss i @ take (length cp - nat r) cp)"
        using b_to_q_spec [OF c q refl, of cp] by fastforce
    qed
  next
    case (Q_to_b i n)
    show ?thesis unfolding Q_to_b cop_do.simps
      by (rule cop_at_step [OF p, where xs' = "\<lambda>r. drop (nat n) (xss i)"]) (use q_to_b_spec in fastforce)
  next
    case (Ndflush i n)
    then have n: "0 \<le> n" using ok by simp
    show ?thesis unfolding Ndflush cop_do.simps
      by (rule cop_at_step [OF p, where xs' = "\<lambda>r. drop (nat n) (xss i)"]) (use ndflush_spec [OF _ _ n] in fastforce)
  next
    case (Catq i j)
    then have ij: "i \<noteq> j" using ok by simp
    from cpoolD(1) [OF p] obtain o1 o2 where c: "cq (snd s) (fst s i) (xss i) (bss i) o1" "cq (snd s) (fst s j) (xss j) (bss j) o2" by blast
    from catq_spec [OF c cpoolD(2) [OF p] cpoolD(4) [OF p ij]] obtain to' st' where
      "catq (fst s i) (fst s j) (snd s) = Inr (clist0, to', st')" "becomes (snd s) (bss i @ bss j) fs st' to' (xss j @ xss i)" by blast
    then show ?thesis using cpool_catq [OF p ij] by (auto simp: Catq)
  qed
qed

interpretation chars: simulation cop_do cop_spec cop_ok "crel B" for B
  by unfold_locales (rule cop_do_spec)

subsection \<open>From boot\<close>

lemma block_up:
  assumes "a > (0::nat)"
  shows "blk (block_of (a + 31))" and "block_of (a + 31) = (if a mod CBLOCK = 0 then a else a + (CBLOCK - a mod CBLOCK))"
proof -
  define m r where "m = a div CBLOCK" and "r = a mod CBLOCK"
  have a: "a = CBLOCK * m + r" "r < CBLOCK" by (simp_all add: m_def r_def)
  have am: "a mod CBLOCK = r" by (simp add: r_def)
  show e: "block_of (a + 31) = (if a mod CBLOCK = 0 then a else a + (CBLOCK - a mod CBLOCK))"
  proof (cases "r = 0")
    case True
    then have "(a + 31) div CBLOCK = m" unfolding a(1) by simp
    then have "block_of (a + 31) = a" using True a(1) by (simp add: block_of_def)
    then show ?thesis using True am by simp
  next
    case False
    then have x: "a + 31 = (r - 1) + CBLOCK * Suc m" using a by simp
    have "(a + 31) div CBLOCK = Suc m" unfolding x using a(2) by (subst div_mult_self2) simp_all
    then have "block_of (a + 31) = CBLOCK * m + CBLOCK" by (simp add: block_of_def)
    moreover have "CBLOCK * m + CBLOCK = a + (CBLOCK - r)" using a by linarith
    ultimately show ?thesis using False am by simp
  qed
  show "blk (block_of (a + 31))" using assms unfolding blk_def by (simp add: block_of_def)
qed

text \<open>The number of blocks in the array \<open>cfree\<close>: one fewer than its size unless it starts at a multiple of the size.\<close>

definition cinit_blocks :: "nat \<Rightarrow> nat" where
  "cinit_blocks a = (if a mod CBLOCK = 0 then NCLIST else NCLIST - 1)"

lemma cinit_free:
  assumes q: "\<exists>rq sq. queues st rq sq" and n: "cfreelist st = None" "cfreecount st = 0" and a: "0 < a_cfree st"
  shows "\<exists>fs. free (cinit st) fs \<and> length fs = cinit_blocks (a_cfree st)"
proof -
  have f: "free st []" using q n by (simp add: free_def)
  let ?hi = "a_cfree st + CBLOCK * (NCLIST - 1)" and ?cp = "block_of (a_cfree st + 31)"
  note b = block_up [OF a]
  have "?cp \<le> ?hi \<and> Suc ((?hi - ?cp) div CBLOCK) = cinit_blocks (a_cfree st)"
  proof (cases "a_cfree st mod CBLOCK = 0")
    case True
    then show ?thesis unfolding b(2) by (simp add: cinit_blocks_def)
  next
    case False
    define r where "r = a_cfree st mod CBLOCK"
    have r: "r < CBLOCK" "0 < r" using False by (simp_all add: r_def)
    then have h: "?hi - ?cp = r + CBLOCK * 30" and "?cp \<le> ?hi" using False unfolding b(2) by (simp_all add: r_def)
    moreover have "(r + CBLOCK * 30) div CBLOCK = 30" using r(1) by (subst div_mult_self2) simp_all
    ultimately show ?thesis using False unfolding h by (simp only: cinit_blocks_def) simp
  qed
  with cinit_go_free [OF f b(1), of ?hi] show ?thesis
    by (intro exI [of _ "rev (map (\<lambda>i. ?cp + CBLOCK * i) [0..<Suc ((?hi - ?cp) div CBLOCK)])"]) (simp add: cinit_def del: upt_Suc)
qed

lemma cinit_crel:
  assumes "free st fs" and "length fs \<le> NCLIST"
  shows "crel (set fs) (\<lambda>_. clist0, st) (\<lambda>_. [])"
proof -
  have "card (set fs) \<le> NCLIST" using card_length assms(2) le_trans by blast
  then have "cpool (set fs) (\<lambda>_. clist0, st) (\<lambda>_. []) (\<lambda>_. []) fs" using assms(1) by (simp add: cpool_def cq_def)
  then show ?thesis unfolding crel_def by blast
qed

text \<open>When every queue is empty, every block is free.\<close>

lemma crel_empty:
  assumes "crel B (qm, st) (\<lambda>_. [])"
  shows "cfreecount st = int (CBSIZE * card B)"
proof -
  from assms obtain bss fs where p: "cpool B (qm, st) (\<lambda>_. []) bss fs" unfolding crel_def by blast
  have f: "free st fs" using p by (simp add: cpool_def)
  have "bss i = []" for i using cpoolD(1) [OF p, of i] by (auto simp: cq_def)
  then have "set fs = B" using p by (simp add: cpool_def)
  moreover have "distinct fs" using f chain_distinct unfolding free_def by blast
  ultimately show ?thesis using f distinct_card [of fs] by (simp add: free_def)
qed

lemma crel_count:
  assumes "crel B (qm, st) xss"
  shows "c_cc (qm i) = int (length (xss i))"
proof -
  from assms obtain bss fs where p: "cpool B (qm, st) xss bss fs" unfolding crel_def by blast
  show ?thesis using cpoolD(1) [OF p, of i] by (auto simp: cq_def clist0_def split: if_splits)
qed

text \<open>C10: Character lists are queues of bytes. Start from the pool that \<open>cinit\<close> builds, with
  every list empty, and do any sequence of \<open>putc\<close>, \<open>getc\<close>, \<open>unputc\<close>, \<open>b_to_q\<close>, \<open>q_to_b\<close>,
  \<open>ndflush\<close> and \<open>catq\<close> on any of the lists: every operation returns, what it returns and what
  it does to the lists is what the same operation does to independent lists of bytes (a byte
  refused by \<open>putc\<close> or \<open>b_to_q\<close> is reported as such; \<open>catq\<close> never loses one), the count of a list is
  its length, and when all lists are empty again all blocks of the pool are free again. Left out
  are \<open>ndflush\<close> with a negative count and \<open>catq\<close> of a list to itself.\<close>

theorem clists_are_queues:
  assumes "\<exists>rq sq. queues st rq sq" and "cfreelist st = None" and "cfreecount st = 0" and "0 < a_cfree st" and "list_all cop_ok ops"
  shows "\<exists>rs qs' st' xss'. runs cop_do ops (\<lambda>_. clist0, cinit st) = Inr (rs, qs', st')
    \<and> follows cop_spec ops rs (\<lambda>_. []) = Some xss' \<and> (\<forall>i. c_cc (qs' i) = int (length (xss' i)))
    \<and> (xss' = (\<lambda>_. []) \<longrightarrow> cfreecount st' = int (CBSIZE * cinit_blocks (a_cfree st)))"
proof -
  from cinit_free [OF assms(1-4)] obtain fs where f: "free (cinit st) fs" "length fs = cinit_blocks (a_cfree st)" by blast
  have d: "card (set fs) = length fs" using f(1) chain_distinct distinct_card unfolding free_def by blast
  have "crel (set fs) (\<lambda>_. clist0, cinit st) (\<lambda>_. [])" by (rule cinit_crel [OF f(1)]) (simp add: f(2) cinit_blocks_def)
  from chars.run [OF this assms(5)] obtain rs s' xss' where r: "runs cop_do ops (\<lambda>_. clist0, cinit st) = Inr (rs, s')"
    "follows cop_spec ops rs (\<lambda>_. []) = Some xss'" "crel (set fs) s' xss'" by blast
  obtain qs' st' where s': "s' = (qs', st')" by (cases s')
  show ?thesis using r crel_count [of "set fs" qs' st' xss'] crel_empty [of "set fs" qs' st'] d f(2) unfolding s' by auto
qed

definition clist_example :: cst where
  "clist_example = kst.extend sig_example (cst.fields (\<lambda>_. None) (\<lambda>_. 0) None 0 True 0x80000100 0x80001004)"

theorem clists_are_queues_witness:
  "\<exists>rs qs' st' xss'. runs cop_do [B_to_q [1, 2, 3] 0, Putc 4 1, Catq 1 0, Getc 0, Unputc 0, Ndflush 0 9] (\<lambda>_. clist0, cinit clist_example) = Inr (rs, qs', st')
    \<and> follows cop_spec [B_to_q [1, 2, 3] 0, Putc 4 1, Catq 1 0, Getc 0, Unputc 0, Ndflush 0 9] rs (\<lambda>_. []) = Some xss'
    \<and> (\<forall>i. c_cc (qs' i) = int (length (xss' i)))"
proof -
  have "queues clist_example = queues sig_example" by (intro ext) (simp add: clist_example_def queues_def qlinks_def kst.defs)
  then have "\<exists>rq sq. queues clist_example rq sq" using sig_example_queues by auto
  moreover have "cfreelist clist_example = None" "cfreecount clist_example = 0" "0 < a_cfree clist_example"
    by (simp_all add: clist_example_def kst.defs cst.defs)
  moreover have "list_all cop_ok [B_to_q [1, 2, 3] 0, Putc 4 1, Catq 1 0, Getc 0, Unputc 0, Ndflush 0 9]" by simp
  ultimately show ?thesis using clists_are_queues by blast
qed

end
