(* ===== verification/Meter.thy ===== *)
theory Meter
  imports Resource
begin

text \<open>
  Metering once a second (\<open>vmmeter\<close>, \<open>vmtotal\<close> and \<open>loadav\<close> of \<open>sys/kernel/vm_sched.c\<close>, with
  \<open>UCB_METER\<close> as the board configurations define it): smoothed rates of events, totals over the
  processes, and the load averages. The lemmas show that these functions return, that the load
  averages stay between their old value and the present load, and what becomes of the rates of
  swapping.
\<close>

subsection \<open>Averages\<close>

abbreviation (input) maxslp :: int where "maxslp \<equiv> 20"
abbreviation (input) USIZE :: u32 where "USIZE \<equiv> 3072"

text \<open>The macro \<open>ave(smooth, cnt, time)\<close> on two 16-bit counters, and on one and the 32-bit \<open>freemem\<close>.\<close>

definition ave16 :: "u16 \<Rightarrow> u16 \<Rightarrow> nat \<Rightarrow> u16" where
  "ave16 smooth n t = of_nat (((t - 1) * unat smooth + unat n) div t)"

definition ave32 :: "u16 \<Rightarrow> u32 \<Rightarrow> u32 \<Rightarrow> u16" where
  "ave32 smooth n t = ucast (((t - 1) * ucast smooth + n) div t)"

definition cexp :: "int list" where
  "cexp = [235, 251, 254]"

definition loadav :: "(nat \<Rightarrow> int) \<Rightarrow> int \<Rightarrow> nat \<Rightarrow> int" where
  "loadav avg n = (\<lambda>i. if i < 3 then sshort (s32 (cexp ! i * (avg i - n * 256) + n * 65536) div 256) else avg i)"

subsection \<open>Totals over the processes\<close>

definition vm_size :: "proc \<Rightarrow> u32" where
  "vm_size r = p_dsize r + p_ssize r + USIZE"

definition vm_active :: "proc \<Rightarrow> vmtotal \<Rightarrow> vmtotal" where
  "vm_active r t =
     (let t = t\<lparr>t_avm := t_avm t + vm_size r\<rparr>
      in if tst (p_flag r) SLOAD then t\<lparr>t_arm := t_arm t + vm_size r\<rparr> else t)"

definition vm_asleep :: "proc \<Rightarrow> vmtotal \<Rightarrow> vmtotal" where
  "vm_asleep r t =
     (let t = (if tst (p_flag r) SLOAD
               then if \<not> tst (p_flag r) P_SINTR then t\<lparr>t_dw := sshort (t_dw t + 1)\<rparr>
                    else if p_slptime r < maxslp then t\<lparr>t_sl := sshort (t_sl t + 1)\<rparr> else t
               else if p_slptime r < maxslp then t\<lparr>t_sw := sshort (t_sw t + 1)\<rparr> else t)
      in if p_slptime r < maxslp then vm_active r t else t)"

definition vm_one :: "proc \<Rightarrow> int \<times> vmtotal \<Rightarrow> int \<times> vmtotal" where
  "vm_one r nt =
     (case nt of (nrun, t) \<Rightarrow>
        if tst (p_flag r) SSYS \<or> p_stat r = 0 then (nrun, t)
        else let t = (if p_stat r \<noteq> SZOMB
                      then let t = t\<lparr>t_vm := t_vm t + vm_size r\<rparr>
                           in if tst (p_flag r) SLOAD then t\<lparr>t_rm := t_rm t + vm_size r\<rparr> else t
                      else t)
             in if p_stat r = SSLEEP \<or> p_stat r = SSTOP
                then (if \<not> tst (p_flag r) P_SINTR \<and> p_stat r = SSLEEP then nrun + 1 else nrun, vm_asleep r t)
                else if p_stat r = SRUN \<or> p_stat r = SIDL
                then (nrun + 1, vm_active r (if tst (p_flag r) SLOAD then t\<lparr>t_rq := sshort (t_rq t + 1)\<rparr> else t\<lparr>t_sw := sshort (t_sw t + 1)\<rparr>))
                else (nrun, t))"

definition vm_clear :: "vmtotal \<Rightarrow> vmtotal" where
  "vm_clear t = t\<lparr>t_vmtxt := 0, t_avmtxt := 0, t_rmtxt := 0, t_armtxt := 0, t_vm := 0, t_avm := 0, t_rm := 0, t_arm := 0,
     t_rq := 0, t_dw := 0, t_sl := 0, t_sw := 0\<rparr>"

definition vmtotal_f :: "'a kst_scheme \<Rightarrow> 'a kst_scheme res" where
  "vmtotal_f st =
     rbind (walk (Suc NPROC) (\<lambda>_. pnxt st) (\<lambda>i s. Inr (vm_one (procs st i) s)) (allproc st) (0, vm_clear (vtotal st))) (\<lambda>(nrun, t).
       let t = t\<lparr>t_vm := t_vm t + t_vmtxt t, t_avm := t_avm t + t_avmtxt t, t_rm := t_rm t + t_rmtxt t, t_arm := t_arm t + t_armtxt t,
                 t_free := ucast (avefree st)\<rparr>
       in Inr (st\<lparr>vtotal := t, avenrun := loadav (avenrun st) nrun\<rparr>))"

subsection \<open>Once a second\<close>

text \<open>The loop over the members of \<open>cnt\<close>, \<open>rate\<close> and \<open>sum\<close>, for the member at position \<open>i\<close>.\<close>

definition vm_rate :: "nat \<Rightarrow> 'a kst_scheme \<Rightarrow> 'a kst_scheme" where
  "vm_rate i st = st\<lparr>rate := (rate st)(i := ave16 (rate st i) (cnt st i) 5), vsum := (vsum st)(i := vsum st i + ucast (cnt st i)),
     cnt := (cnt st)(i := 0)\<rparr>"

definition vm_swap :: "nat \<Rightarrow> 'a kst_scheme \<Rightarrow> 'a kst_scheme" where
  "vm_swap i st = st\<lparr>rate := (rate st)(i := cnt st i), vsum := (vsum st)(i := vsum st i + ucast (cnt st i)), cnt := (cnt st)(i := 0)\<rparr>"

definition vmmeter :: "'a kst_scheme \<Rightarrow> 'a kst_scheme res" where
  "vmmeter st =
     (let st = st\<lparr>avefree := ave32 (avefree st) (freemem st) 5\<rparr>;
          st = st\<lparr>avefree30 := ave32 (avefree30 st) (freemem st) 30\<rparr>;
          st = fold vm_rate [v_swtch..<Suc v_last] st
      in if cmod (tv_sec (time st)) 5 = 0
         then rbind (vmtotal_f st) (\<lambda>st. Inr (vm_swap v_swpout (vm_swap v_swpin st)))
         else Inr st)"

subsection \<open>Load averages\<close>

lemma load_step:
  fixes c a n :: int
  assumes "0 \<le> c" "c \<le> 256" "a \<le> b" "n \<le> b" "l \<le> a" "l \<le> n"
  shows "l \<le> (c * a + (256 - c) * n) div 256" and "(c * a + (256 - c) * n) div 256 \<le> b"
proof -
  have "c * l \<le> c * a" "(256 - c) * l \<le> (256 - c) * n" "c * a \<le> c * b" "(256 - c) * n \<le> (256 - c) * b"
    using assms by (auto intro: mult_left_mono)
  moreover have "c * l + (256 - c) * l = 256 * l" "c * b + (256 - c) * b = 256 * b" by (simp_all add: algebra_simps)
  ultimately have "256 * l \<le> c * a + (256 - c) * n" "c * a + (256 - c) * n \<le> 256 * b" by linarith+
  then show "l \<le> (c * a + (256 - c) * n) div 256" "(c * a + (256 - c) * n) div 256 \<le> b" by linarith+
qed

lemma loadav_eq:
  assumes "0 \<le> avg i" "avg i \<le> 2560" "0 \<le> n" "n \<le> 10" "i < 3"
  shows "loadav avg n i = (cexp ! i * avg i + (256 - cexp ! i) * (256 * n)) div 256"
proof -
  define c where "c = cexp ! i"
  have "i = 0 \<or> i = 1 \<or> i = 2" using assms(5) by linarith
  then have c: "0 \<le> c" "c \<le> 256" by (auto simp: c_def cexp_def)
  have e: "c * (avg i - n * 256) + n * 65536 = c * avg i + (256 - c) * (256 * n)" by (simp add: algebra_simps)
  note s = load_step [OF c, of "avg i" 2560 "256 * n" 0]
  have b: "0 \<le> (c * avg i + (256 - c) * (256 * n)) div 256" "(c * avg i + (256 - c) * (256 * n)) div 256 \<le> 2560"
    using s assms by simp_all
  then have "0 \<le> c * avg i + (256 - c) * (256 * n)" "c * avg i + (256 - c) * (256 * n) \<le> 655615" by linarith+
  then have "s32 (c * avg i + (256 - c) * (256 * n)) = c * avg i + (256 - c) * (256 * n)" by (intro s32_id) linarith+
  then show ?thesis using b assms(5) by (simp add: loadav_def c_def [symmetric] e sshort_def)
qed

subsection \<open>Results\<close>

text \<open>The processes that \<open>vmtotal\<close> counts as running: runnable, being created, or asleep at a high priority.\<close>

definition counted :: "proc \<Rightarrow> bool" where
  "counted r \<longleftrightarrow> \<not> tst (p_flag r) SSYS
     \<and> (p_stat r = SRUN \<or> p_stat r = SIDL \<or> p_stat r = SSLEEP \<and> \<not> tst (p_flag r) P_SINTR)"

lemma vm_one_count: "fst (vm_one r (n, t)) = n + (if counted r then 1 else 0)"
  by (auto simp: vm_one_def counted_def Let_def)

lemma vm_fold_count: "fst (fold (\<lambda>i. vm_one (g i)) xs (n, t)) = n + int (length (filter (\<lambda>i. counted (g i)) xs))"
proof (induction xs arbitrary: n t)
  case (Cons i xs)
  obtain n' t' where v: "vm_one (g i) (n, t) = (n', t')" by (cases "vm_one (g i) (n, t)")
  then have "n' = n + (if counted (g i) then 1 else 0)" using vm_one_count [of "g i" n t] by simp
  then show ?case using Cons.IH [of n' t'] v by simp
qed simp

lemma vmtotal_spec:
  assumes "plist st xs"
  shows "\<exists>t. vmtotal_f st = Inr (st\<lparr>vtotal := t, avenrun := loadav (avenrun st) (int (length (filter (\<lambda>i. counted (procs st i)) xs)))\<rparr>)"
proof -
  let ?s = "(0, vm_clear (vtotal st))"
  have "walk (Suc NPROC) (\<lambda>_. pnxt st) (\<lambda>i s. Inr (vm_one (procs st i) s)) (allproc st) ?s
      = Inr (fold (\<lambda>i. vm_one (procs st i)) xs ?s)"
  proof -
    have "chain (pnxt st) (allproc st) xs" using assms by (simp add: plist_def)
    from walk_rfold [where nx = "\<lambda>_. pnxt st" and s = ?s and f = "\<lambda>i s. Inr (vm_one (procs st i) s)", OF this plist_length [OF assms]]
    have "walk (Suc NPROC) (\<lambda>_. pnxt st) (\<lambda>i s. Inr (vm_one (procs st i) s)) (allproc st) ?s
        = rfold (\<lambda>i s. Inr (vm_one (procs st i) s)) xs ?s" by simp
    then show ?thesis by (simp only: rfold_total)
  qed
  moreover have "fst (fold (\<lambda>i. vm_one (procs st i)) xs ?s) = int (length (filter (\<lambda>i. counted (procs st i)) xs))"
    using vm_fold_count [of "procs st" xs 0] by simp
  ultimately show ?thesis unfolding vmtotal_f_def by (cases "fold (\<lambda>i. vm_one (procs st i)) xs ?s") (auto simp: Let_def)
qed

lemma vm_rates_sel: "time (fold vm_rate is st) = time st" "procs (fold vm_rate is st) = procs st" "allproc (fold vm_rate is st) = allproc st"
  "avenrun (fold vm_rate is st) = avenrun st"
  by (induction "is" arbitrary: st) (simp_all add: vm_rate_def)

lemma vm_rates_cnt: "i \<in> set is \<Longrightarrow> cnt (fold vm_rate is st) i = 0"
proof (induction "is" arbitrary: st)
  case (Cons j "is")
  have "cnt (fold vm_rate ks s) i = 0" if "cnt s i = 0" for ks and s :: "'a kst_scheme"
    using that by (induction ks arbitrary: s) (simp_all add: vm_rate_def)
  moreover have "cnt (vm_rate j st) j = 0" by (simp add: vm_rate_def)
  ultimately show ?case using Cons by (cases "i = j") simp_all
qed simp

lemma plist_env: "procs st' = procs st \<Longrightarrow> allproc st' = allproc st \<Longrightarrow> plist st' xs = plist st xs"
  by (simp add: plist_def)



text \<open>C37: The rates of swapping are lost every five seconds: the loop of \<open>vmmeter\<close> has already cleared
  \<open>cnt.v_swpin\<close> and \<open>cnt.v_swpout\<close> when the branch taken every five seconds copies them to \<open>rate\<close>,
  so both rates become 0 however many processes were swapped.\<close>

theorem swap_rates_lost:
  assumes "plist st xs" and "cmod (tv_sec (time st)) 5 = 0"
  shows "\<exists>st'. vmmeter st = Inr st' \<and> rate st' v_swpin = 0 \<and> rate st' v_swpout = 0"
proof -
  define s0 where "s0 = st\<lparr>avefree := ave32 (avefree st) (freemem st) 5, avefree30 := ave32 (avefree30 st) (freemem st) 30\<rparr>"
  define s where "s = fold vm_rate [v_swtch..<Suc v_last] s0"
  have z: "cnt s v_swpin = 0" "cnt s v_swpout = 0" unfolding s_def by (rule vm_rates_cnt, simp)+
  have p: "plist s xs" using assms(1) plist_env [of s st] by (simp add: s_def vm_rates_sel s0_def)
  from vmtotal_spec [OF p] obtain t v where "vmtotal_f s = Inr (s\<lparr>vtotal := t, avenrun := v\<rparr>)" by blast
  moreover have "vmmeter st = rbind (vmtotal_f s) (\<lambda>st. Inr (vm_swap v_swpout (vm_swap v_swpin st)))"
    using assms(2) vm_rates_sel(1) [of "[v_swtch..<Suc v_last]" s0] unfolding vmmeter_def s_def by (simp add: s0_def Let_def del: upt_Suc)
  ultimately show ?thesis using z by (simp add: vm_swap_def)
qed

theorem swap_rates_lost_witness:
  "\<exists>st'. vmmeter (kst0\<lparr>cnt := (\<lambda>_. 7), rate := (\<lambda>_. 9)\<rparr>) = Inr st' \<and> rate st' v_swpin = 0"
proof -
  have "plist (kst0\<lparr>cnt := (\<lambda>_. 7), rate := (\<lambda>_. 9)\<rparr>) []" by (simp add: plist_def boot_defs)
  from swap_rates_lost [OF this] show ?thesis by (auto simp: boot_defs cmod_def cdiv_def)
qed

text \<open>Metering changes its own variables only.\<close>

definition metered :: "'a kst_scheme \<Rightarrow> 'a kst_scheme \<Rightarrow> bool" where
  "metered st st' \<longleftrightarrow> st'\<lparr>avefree := avefree st, avefree30 := avefree30 st, rate := rate st, vsum := vsum st, cnt := cnt st,
     vtotal := vtotal st, avenrun := avenrun st\<rparr> = st"

lemma metered_rates: "metered st (fold vm_rate is (st\<lparr>avefree := a, avefree30 := b\<rparr>))"
proof -
  have "metered st (fold vm_rate is s)" if "metered st s" for s
    using that by (induction "is" arbitrary: s) (simp_all add: vm_rate_def metered_def)
  then show ?thesis by (simp add: metered_def)
qed

lemma vmmeter_spec:
  assumes "plist st xs"
  shows "\<exists>st'. vmmeter st = Inr st' \<and> metered st st'"
proof -
  define s where "s = fold vm_rate [v_swtch..<Suc v_last]
    (st\<lparr>avefree := ave32 (avefree st) (freemem st) 5, avefree30 := ave32 (avefree30 st) (freemem st) 30\<rparr>)"
  have m: "metered st s" unfolding s_def by (rule metered_rates)
  have p: "plist s xs" using assms(1) plist_env [of s st] by (simp add: s_def vm_rates_sel)
  from vmtotal_spec [OF p] obtain t v where v: "vmtotal_f s = Inr (s\<lparr>vtotal := t, avenrun := v\<rparr>)" by blast
  have "vmmeter st = (if cmod (tv_sec (time s)) 5 = 0 then rbind (vmtotal_f s) (\<lambda>st. Inr (vm_swap v_swpout (vm_swap v_swpin st))) else Inr s)"
    unfolding vmmeter_def s_def by (simp add: Let_def del: upt_Suc)
  then show ?thesis using v m by (auto simp: metered_def vm_swap_def)
qed

end
