(* ===== verification/Clock.thy ===== *)
theory Clock
  imports Meter Ktime Callout Kill
begin

text \<open>
  The clock interrupt: \<open>hardclock\<close>, \<open>softclock\<close> and \<open>gatherstats\<close> of \<open>sys/kernel/kern_clock.c\<close>, and
  \<open>schedcpu\<close> of \<open>sys/kernel/kern_synch.c\<close>, which \<open>softclock\<close> runs once a second. They drive the callout
  queue, post the signals of the interval timers and of the processor time limit, and age
  priorities. Theory \<open>Clocksafe\<close> holds the lemmas about them.
\<close>

subsection \<open>Once a second\<close>

text \<open>The body of the loop of \<open>schedcpu\<close>; \<open>SCHMAG\<close> is the text \<open>8/10\<close>, here a factor on the right.\<close>

definition sched_decay :: "nat \<Rightarrow> 'a kst_scheme \<Rightarrow> 'a kst_scheme" where
  "sched_decay p st =
     (let st = (if p_of st p_stat p = SSLEEP \<or> p_of st p_stat p = SSTOP
                then if p_of st p_slptime p \<noteq> 127 then updp p (\<lambda>r. r\<lparr>p_slptime := schar (p_slptime r + 1)\<rparr>) st else st
                else st)
      in if p_of st p_slptime p > 1 then st
         else let a = p_of st p_cpu p mod 256 * 8 div 10 + p_of st p_nice p;
                  a = (if a < 0 then 0 else a);
                  a = (if a > 255 then 255 else a);
                  st = updp p (\<lambda>r. r\<lparr>p_cpu := schar a\<rparr>) st
              in if p_of st p_pri p \<ge> PUSER then snd (setpri p st) else st)"

definition sched_alarm :: "nat \<Rightarrow> 'a kst_scheme \<Rightarrow> 'a kst_scheme res" where
  "sched_alarm p st =
     (if it_value (p_of st p_realtimer p) \<noteq> 0
      then let v = s32 (it_value (p_of st p_realtimer p) - 1);
               st = updp p (\<lambda>r. r\<lparr>p_realtimer := (p_realtimer r)\<lparr>it_value := v\<rparr>\<rparr>) st
           in if v = 0
              then rbind (psignal p SIGALRM st) (\<lambda>st.
                     Inr (updp p (\<lambda>r. r\<lparr>p_realtimer := (p_realtimer r)\<lparr>it_value := it_interval (p_realtimer r)\<rparr>\<rparr>) st))
              else Inr st
      else Inr st)"

definition sched_one :: "nat \<Rightarrow> 'a kst_scheme \<Rightarrow> 'a kst_scheme res" where
  "sched_one p st =
     (let st = (if p_of st p_time p \<noteq> 127 then updp p (\<lambda>r. r\<lparr>p_time := schar (p_time r + 1)\<rparr>) st else st)
      in rbind (sched_alarm p st) (\<lambda>st. Inr (sched_decay p st)))"

definition schedcpu :: "'a kst_scheme \<Rightarrow> 'a kst_scheme res" where
  "schedcpu st =
     rbind (wakeup (a_lbolt (lay st)) st) (\<lambda>st.
     rbind (walk (Suc NPROC) (\<lambda>s i. p_of s p_nxt i) sched_one (allproc st) st) (\<lambda>st.
     rbind (vmmeter st) (\<lambda>st.
     rbind (if runin st \<noteq> 0 then wakeup (a_runin (lay st)) (st\<lparr>runin := 0\<rparr>) else Inr st) (\<lambda>st.
       timeout C_schedcpu 0 hz (st\<lparr>runrun := s32 (runrun st + 1)\<rparr>)))))"

subsection \<open>The clock interrupt\<close>

abbreviation (input) CP_USER :: nat where "CP_USER \<equiv> 0"
abbreviation (input) CP_NICE :: nat where "CP_NICE \<equiv> 1"
abbreviation (input) CP_SYS :: nat where "CP_SYS \<equiv> 2"
abbreviation (input) CP_IDLE :: nat where "CP_IDLE \<equiv> 3"

definition USERMODE :: "u32 \<Rightarrow> bool" where
  "USERMODE ps \<longleftrightarrow> tst ps 0x10"

definition BASEPRI :: "u32 \<Rightarrow> bool" where
  "BASEPRI ps \<longleftrightarrow> drop_bit 10 ps AND 63 = 0"

definition gatherstats :: "u32 \<Rightarrow> 'a kst_scheme \<Rightarrow> 'a kst_scheme" where
  "gatherstats ps st =
     (let cpstate = (if USERMODE ps then if p_of st p_nice (curproc st) > NZERO then CP_NICE else CP_USER
                     else if noproc st \<noteq> 0 \<and> BASEPRI ps then CP_IDLE else CP_SYS)
      in st\<lparr>cp_time := (cp_time st)(cpstate := s32 (cp_time st cpstate + 1))\<rparr>)"

text \<open>The process at an address.\<close>

definition proc_at :: "'a kst_scheme \<Rightarrow> u32 \<Rightarrow> nat option" where
  "proc_at st a = find (\<lambda>i. a_proc (lay st) i = a) [0..<NPROC]"

text \<open>\<open>(*func) (arg)\<close>\<close>

definition cfunc_call :: "cfunc \<Rightarrow> u32 \<Rightarrow> 'a kst_scheme \<Rightarrow> 'a kst_scheme res" where
  "cfunc_call func arg st =
     (case func of
        C_schedcpu \<Rightarrow> schedcpu st
      | C_endtsleep \<Rightarrow> (case proc_at st arg of None \<Rightarrow> Inl Fault | Some p \<Rightarrow> endtsleep p st)
      | C_wakeup \<Rightarrow> wakeup arg st)"

primrec softclock_go :: "nat \<Rightarrow> 'a kst_scheme \<Rightarrow> 'a kst_scheme res" where
  "softclock_go 0 st = Inl Loop"
| "softclock_go (Suc n) st =
     (case callout_take st of
        None \<Rightarrow> Inr st
      | Some (func, arg, st) \<Rightarrow> rbind (cfunc_call func arg st) (softclock_go n))"

definition softclock_user :: "u32 \<Rightarrow> 'a kst_scheme \<Rightarrow> 'a kst_scheme" where
  "softclock_user pc st =
     (let p = curproc st;
          st = (if pr_scale (u_prof (uu st)) \<noteq> 0 then st\<lparr>umem := addupc pc (u_prof (uu st)) 1 (umem st)\<rparr> else st)
      in if p_of st p_uid p \<noteq> 0 \<and> p_of st p_nice p = NZERO \<and> ru_utime (u_ru (uu st)) > 10 * 60 * hz
         then snd (setpri p (updp p (\<lambda>r. r\<lparr>p_nice := NZERO + 4\<rparr>) st))
         else st)"

definition softclock :: "u32 \<Rightarrow> u32 \<Rightarrow> 'a kst_scheme \<Rightarrow> 'a kst_scheme res" where
  "softclock pc ps st =
     rbind (softclock_go (Suc NCALL) st) (\<lambda>st. Inr (if USERMODE ps then softclock_user pc st else st))"

text \<open>A timer of the current process counts down; at 0 it is reloaded after its signal is posted.\<close>

definition itimer_tick :: "nat \<Rightarrow> nat \<Rightarrow> 'a kst_scheme \<Rightarrow> 'a kst_scheme res" where
  "itimer_tick k sig st =
     (if it_value (u_timer (uu st) k) \<noteq> 0
      then let v = s32 (it_value (u_timer (uu st) k) - 1);
               st = updu (\<lambda>u. u\<lparr>u_timer := (u_timer u)(k := (u_timer u k)\<lparr>it_value := v\<rparr>)\<rparr>) st
           in if v = 0
              then rbind (psignal (curproc st) sig st) (\<lambda>st.
                     Inr (updu (\<lambda>u. u\<lparr>u_timer := (u_timer u)(k := (u_timer u k)\<lparr>it_value := it_interval (u_timer u k)\<rparr>)\<rparr>) st))
              else Inr st
      else Inr st)"

definition charge_mode :: "u32 \<Rightarrow> 'a kst_scheme \<Rightarrow> 'a kst_scheme res" where
  "charge_mode ps st =
     (if USERMODE ps
      then itimer_tick 0 SIGVTALRM (updu (\<lambda>u. u\<lparr>u_ru := (u_ru u)\<lparr>ru_utime := s32 (ru_utime (u_ru u) + 1)\<rparr>\<rparr>) st)
      else if noproc st = 0 then Inr (updu (\<lambda>u. u\<lparr>u_ru := (u_ru u)\<lparr>ru_stime := s32 (ru_stime (u_ru u) + 1)\<rparr>\<rparr>) st)
      else Inr st)"

abbreviation (input) RLIMIT_CPU :: nat where "RLIMIT_CPU \<equiv> 0"

definition cpu_limit :: "'a kst_scheme \<Rightarrow> 'a kst_scheme res" where
  "cpu_limit st =
     (let l = u_rlimit (uu st) RLIMIT_CPU
      in if s32 (ru_utime (u_ru (uu st)) + ru_stime (u_ru (uu st)) + 1) > rlim_cur l
         then rbind (psignal (curproc st) SIGXCPU st) (\<lambda>st.
                Inr (if rlim_cur l < rlim_max l
                     then updu (\<lambda>u. u\<lparr>u_rlimit := (u_rlimit u)(RLIMIT_CPU := l\<lparr>rlim_cur := s32 (rlim_cur l + 5 * hz)\<rparr>)\<rparr>) st
                     else st))
         else Inr st)"

definition charge_proc :: "'a kst_scheme \<Rightarrow> 'a kst_scheme res" where
  "charge_proc st =
     (if noproc st = 0
      then let p = curproc st;
               st = updp p (\<lambda>r. r\<lparr>p_cpu := (if schar (p_cpu r + 1) = 0 then schar (schar (p_cpu r + 1) - 1) else schar (p_cpu r + 1))\<rparr>) st
           in rbind (cpu_limit st) (itimer_tick 1 SIGPROF)
      else Inr st)"

definition clock_advance :: "'a kst_scheme \<Rightarrow> 'a kst_scheme" where
  "clock_advance st =
     (let st = (if adjdelta st > 0 then st\<lparr>lbolt := s32 (lbolt st + 1), adjdelta := s32 (adjdelta st - 1)\<rparr>
                else if adjdelta st < 0 then st\<lparr>lbolt := s32 (lbolt st - 1), adjdelta := s32 (adjdelta st + 1)\<rparr> else st);
          st = st\<lparr>lbolt := s32 (lbolt st + 1)\<rparr>
      in if lbolt st \<ge> hz
         then st\<lparr>lbolt := s32 (lbolt st - hz), time := (time st)\<lparr>tv_sec := s32 (tv_sec (time st) + 1)\<rparr>\<rparr> else st)"

definition hardclock :: "u32 \<Rightarrow> u32 \<Rightarrow> 'a kst_scheme \<Rightarrow> 'a kst_scheme res" where
  "hardclock pc ps st =
     rbind (callout_tick st) (\<lambda>(needsoft, st).
       let needsoft = (needsoft \<or> USERMODE ps \<and> pr_scale (u_prof (uu st)) \<noteq> 0)
       in rbind (charge_mode ps st) (\<lambda>st. rbind (charge_proc st) (\<lambda>st.
            let st = clock_advance (gatherstats ps st)
            in if needsoft \<and> BASEPRI ps then softclock pc ps st else Inr st)))"

end
