(* ===== verification/Clocksafe.thy ===== *)
theory Clocksafe
  imports Clock
begin

text \<open>
  The clock interrupt of theory \<open>Clock\<close> on top of the scheduling queues, the signals and the callouts:
  any number of interrupts in any processor state returns and keeps them consistent, and how the
  time of day and the charged times advance.
\<close>

subsection \<open>What the operations keep\<close>

text \<open>The variables that posting signals, waking processes and ageing priorities do not touch.\<close>

definition clk_env :: "'a kst_scheme \<Rightarrow> 'a kst_scheme \<Rightarrow> bool" where
  "clk_env st st' \<longleftrightarrow> lay st' = lay st \<and> allproc st' = allproc st \<and> p_of st' p_nxt = p_of st p_nxt \<and> uu st' = uu st
     \<and> lbolt st' = lbolt st \<and> time st' = time st \<and> adjdelta st' = adjdelta st \<and> noproc st' = noproc st"

definition clk_same :: "'a kst_scheme \<Rightarrow> 'a kst_scheme \<Rightarrow> bool" where
  "clk_same st st' \<longleftrightarrow> clk_env st st' \<and> callouts st' = callouts st \<and> callfree st' = callfree st \<and> calltodo st' = calltodo st"

definition clk_ok :: "nat list \<Rightarrow> 'a kst_scheme \<Rightarrow> bool" where
  "clk_ok xs st \<longleftrightarrow> sched_inv st \<and> plist st xs \<and> curproc st < NPROC"

definition goes :: "nat list \<Rightarrow> 'a kst_scheme \<Rightarrow> 'a kst_scheme res \<Rightarrow> bool" where
  "goes xs st m \<longleftrightarrow> (\<exists>st'. m = Inr st' \<and> clk_ok xs st' \<and> clk_same st st')"

lemma clk_env_refl [simp]: "clk_env st st"
  by (simp add: clk_env_def)

lemma clk_env_trans: "clk_env st st1 \<Longrightarrow> clk_env st1 st2 \<Longrightarrow> clk_env st st2"
  by (simp add: clk_env_def)

lemma clk_same_refl [simp]: "clk_same st st"
  by (simp add: clk_same_def clk_env_def)

lemma clk_same_trans: "clk_same st st1 \<Longrightarrow> clk_same st1 st2 \<Longrightarrow> clk_same st st2"
  by (simp add: clk_same_def clk_env_def)

lemma goes_Inr: "clk_ok xs st' \<Longrightarrow> clk_same st st' \<Longrightarrow> goes xs st (Inr st')"
  by (simp add: goes_def)

lemma goes_bind:
  assumes "goes xs st m" and "\<And>s. clk_ok xs s \<Longrightarrow> clk_same st s \<Longrightarrow> goes xs s (f s)"
  shows "goes xs st (rbind m f)"
proof -
  from assms(1) obtain s where s: "m = Inr s" "clk_ok xs s" "clk_same st s" unfolding goes_def by blast
  from assms(2) [OF s(2,3)] show ?thesis using s clk_same_trans unfolding goes_def by auto
qed

lemma goes_pre: "clk_same st s \<Longrightarrow> goes xs s m \<Longrightarrow> goes xs st m"
  unfolding goes_def using clk_same_trans by blast

lemma goes_then: "goes xs st (Inr s) \<Longrightarrow> (clk_ok xs s \<Longrightarrow> goes xs s m) \<Longrightarrow> goes xs st m"
  unfolding goes_def using clk_same_trans by blast

lemma clk_ok_same: "sched_inv st' \<Longrightarrow> clk_same st st' \<Longrightarrow> clk_ok xs st \<Longrightarrow> clk_ok xs st'"
  by (simp add: clk_ok_def clk_same_def clk_env_def plist_def)

lemma sigframe_same: "sigframe st st' \<Longrightarrow> clk_same st st'"
proof -
  assume f: "sigframe st st'"
  have "p_of st' p_nxt i = p_of st p_nxt i" for i using sig_only_same [OF sigframe_proc [OF f]] by blast
  then show ?thesis using f unfolding clk_same_def clk_env_def sigframe_def sframe_def by (simp add: fun_eq_iff)
qed

lemma goes_chg: "clk_ok xs st \<Longrightarrow> sig_chg S st st' \<Longrightarrow> queues st' rq sq \<Longrightarrow> goes xs st (Inr st')"
  using sched_inv_chg [of st S st' rq sq] clk_ok_same sigframe_same unfolding goes_def clk_ok_def sig_chg_def by blast

lemma goes_posted: "clk_ok xs st \<Longrightarrow> posted S st m \<Longrightarrow> goes xs st m"
  unfolding posted_def using goes_chg by blast

lemma goes_wakeup: "clk_ok xs st \<Longrightarrow> goes xs st (wakeup chan st)"
proof -
  assume i: "clk_ok xs st"
  then obtain rq sq where "queues st rq sq" unfolding clk_ok_def sched_inv_def by blast
  from wakeup_spec [OF this, of chan] obtain st' ws sq' where w: "wakeup chan st = Inr st'" "wakeup_post chan st rq sq st' ws sq'" by blast
  note w' = wakeup_postD [OF w(2)]
  have "sig_chg {} st st'" by (rule sig_chg_same [OF sigframe_sframe [OF w'(2,3)] sframe_sig [OF w'(2)]])
  then show ?thesis using goes_chg [OF i _ w'(1)] w(1) by simp
qed

lemma goes_psignal: "clk_ok xs st \<Longrightarrow> p < NPROC \<Longrightarrow> 1 \<le> sig \<Longrightarrow> sig \<le> NSIG \<Longrightarrow> goes xs st (psignal p sig st)"
  using psignal_posted goes_posted unfolding clk_ok_def sched_inv_def by blast

text \<open>Assignments to fields of a process that the queues and the signals do not depend on.\<close>

definition idle_upd :: "(proc \<Rightarrow> proc) \<Rightarrow> bool" where
  "idle_upd f \<longleftrightarrow> (\<forall>r. p_link (f r) = p_link r \<and> p_stat (f r) = p_stat r \<and> p_wchan (f r) = p_wchan r \<and> p_flag (f r) = p_flag r
     \<and> p_pptr (f r) = p_pptr r \<and> p_sig (f r) = p_sig r \<and> p_nxt (f r) = p_nxt r)"

lemma idle_same: "idle_upd f \<Longrightarrow> clk_same st (updp p f st)"
  by (auto simp: clk_same_def clk_env_def idle_upd_def)

lemma sched_inv_idle:
  assumes f: "idle_upd f" and i: "sched_inv st"
  shows "sched_inv (updp p f st)"
proof -
  from i obtain rq sq where q: "queues st rq sq" unfolding sched_inv_def by blast
  have "queues (updp p f st) rq sq" using f by (intro queues_same [OF q]) (simp_all add: idle_upd_def)
  moreover have "sig_ok (updp p f st)" using i f unfolding sched_inv_def sig_ok_def by (simp add: idle_upd_def)
  moreover have "\<forall>j. excl (procs (updp p f st) j)" using i f unfolding sched_inv_def excl_def by (simp add: idle_upd_def)
  ultimately show ?thesis unfolding sched_inv_def by blast
qed

lemma goes_idle: "idle_upd f \<Longrightarrow> clk_ok xs st \<Longrightarrow> goes xs st (Inr (updp p f st))"
  using sched_inv_idle idle_same clk_ok_same unfolding goes_def clk_ok_def by blast

text \<open>Variables outside the process table that the queues and the signals do not depend on.\<close>

lemma sched_inv_env:
  assumes "procs st' = procs st" "qs st' = qs st" "slpque st' = slpque st" "lay st' = lay st"
  shows "sched_inv st' = sched_inv st"
  using assms unfolding sched_inv_def queues_def qlinks_def sig_ok_def by simp

lemma goes_runrun: "clk_ok xs st \<Longrightarrow> goes xs st (Inr (st\<lparr>runrun := v\<rparr>))" "clk_ok xs st \<Longrightarrow> goes xs st (Inr (st\<lparr>runin := w\<rparr>))"
  using sched_inv_env [of "st\<lparr>runrun := v\<rparr>" st] sched_inv_env [of "st\<lparr>runin := w\<rparr>" st]
  by (simp_all add: goes_def clk_ok_def clk_same_def clk_env_def plist_def)

lemma goes_setpri:
  assumes "clk_ok xs st"
  shows "goes xs st (Inr (snd (setpri p st)))"
proof -
  have "\<exists>v f. snd (setpri p st) = updp p f (st\<lparr>runrun := v\<rparr>) \<and> idle_upd f"
  proof (cases "fst (setpri p st) < curpri st")
    case True
    then show ?thesis by (auto simp: setpri_def Let_def idle_upd_def intro!: exI [of _ "runrun st + 1"])
  next
    case False
    then show ?thesis by (auto simp: setpri_def Let_def idle_upd_def intro!: exI [of _ "runrun st"])
  qed
  then obtain v f where e: "snd (setpri p st) = updp p f (st\<lparr>runrun := v\<rparr>)" "idle_upd f" by blast
  show ?thesis unfolding e(1) by (rule goes_then [OF goes_runrun(1) [OF assms] goes_idle [OF e(2)]])
qed

subsection \<open>Once a second\<close>

lemma goes_endtsleep:
  assumes c: "clk_ok xs st" and p: "p < NPROC"
  shows "goes xs st (endtsleep p st)"
proof (cases "p_of st p_wchan p = 0")
  case True
  with c show ?thesis by (simp add: endtsleep_def goes_Inr)
next
  case False
  from c obtain rq sq where q: "queues st rq sq" unfolding clk_ok_def sched_inv_def by blast
  have s: "p_of st p_stat p \<in> {SSLEEP, SSTOP}"
    using qlinksD(4) [OF queuesD(1) [OF q] HASH_less qlinksD(5) [OF queuesD(1) [OF q] p False]] by blast
  have "goes xs st (if p_of st p_stat p = SSLEEP then setrun p st else unsleep p st)"
  proof (cases "p_of st p_stat p = SSLEEP")
    case True
    then obtain st' ws sq' where u: "setrun p st = Inr st'" "queues st' (ws @ rq) sq'" "sframe st st'"
      "p_of st' p_wchan p = 0" "\<And>i. i \<noteq> p \<Longrightarrow> bystander st st' i" using setrun_spec [OF q p] by blast
    have "p_of st' p_wchan i = p_of st p_wchan i \<or> p_of st' p_wchan i = 0" for i
      using u(4,5) unfolding bystander_def by (cases "i = p") auto
    then have "sig_chg {} st st'" by (rule sig_chg_same [OF sigframe_sframe [OF u(3)] sframe_sig [OF u(3)]])
    then show ?thesis using True u(1) goes_chg [OF c _ u(2)] by simp
  next
    case False
    with s posted1_posted [OF posted1_unsleep [OF q p], of "{p}"] show ?thesis using goes_posted [OF c] by simp
  qed
  then have "goes xs st (rbind (if p_of st p_stat p = SSLEEP then setrun p st else unsleep p st)
      (\<lambda>st. Inr (updp p (\<lambda>r. r\<lparr>p_flag := p_flag r OR P_TIMEOUT\<rparr>) st)))"
  proof (rule goes_bind)
    fix s assume s: "clk_ok xs s"
    have same: "clk_same s (updp p (\<lambda>r. r\<lparr>p_flag := p_flag r OR P_TIMEOUT\<rparr>) s)" by (auto simp: clk_same_def clk_env_def)
    show "goes xs s (Inr (updp p (\<lambda>r. r\<lparr>p_flag := p_flag r OR P_TIMEOUT\<rparr>) s))"
      using sched_inv_timeout_flag [of s p] clk_ok_same [OF _ same s] s same unfolding goes_def clk_ok_def by blast
  qed
  then show ?thesis using False by (simp add: endtsleep_def)
qed

lemma goes_decay:
  assumes "clk_ok xs st"
  shows "goes xs st (Inr (sched_decay p st))"
proof -
  define s1 where "s1 = (if p_of st p_stat p = SSLEEP \<or> p_of st p_stat p = SSTOP
    then if p_of st p_slptime p \<noteq> 127 then updp p (\<lambda>r. r\<lparr>p_slptime := schar (p_slptime r + 1)\<rparr>) st else st else st)"
  have "idle_upd (\<lambda>r. r\<lparr>p_slptime := schar (p_slptime r + 1)\<rparr>)" by (simp add: idle_upd_def)
  then have 1: "goes xs st (Inr s1)" using goes_idle [OF _ assms] goes_Inr [OF assms] by (simp add: s1_def)
  have cpu: "idle_upd (\<lambda>r. r\<lparr>p_cpu := a\<rparr>)" for a by (simp add: idle_upd_def)
  have 2: "goes xs s (Inr (let s = updp p (\<lambda>r. r\<lparr>p_cpu := a\<rparr>) s in if p_of s p_pri p \<ge> PUSER then snd (setpri p s) else s))"
    if "clk_ok xs s" for s and a :: int
    unfolding Let_def by (rule goes_then [OF goes_idle [OF cpu that]]) (auto intro: goes_setpri goes_Inr)
  have "sched_decay p st = (if p_of s1 p_slptime p > 1 then s1 else
      (let a = p_of s1 p_cpu p mod 256 * 8 div 10 + p_of s1 p_nice p; a = (if a < 0 then 0 else a); a = (if a > 255 then 255 else a)
       in let s = updp p (\<lambda>r. r\<lparr>p_cpu := schar a\<rparr>) s1 in if p_of s p_pri p \<ge> PUSER then snd (setpri p s) else s))"
    unfolding sched_decay_def s1_def by (simp only: Let_def)
  then show ?thesis using 1 goes_then [OF 1 2] by (cases "p_of s1 p_slptime p > 1") (simp_all only: Let_def if_True if_False)
qed

lemma goes_alarm:
  assumes c: "clk_ok xs st" and p: "p < NPROC"
  shows "goes xs st (sched_alarm p st)"
proof -
  define v where "v = s32 (it_value (p_of st p_realtimer p) - 1)"
  have i: "idle_upd (\<lambda>r. r\<lparr>p_realtimer := g r\<rparr>)" for g by (simp add: idle_upd_def)
  have a: "goes xs s (rbind (psignal p SIGALRM s) (\<lambda>s. Inr (updp p (\<lambda>r. r\<lparr>p_realtimer := (p_realtimer r)\<lparr>it_value := it_interval (p_realtimer r)\<rparr>\<rparr>) s)))"
    if "clk_ok xs s" for s
    by (rule goes_bind [OF goes_psignal [OF that p]], simp, simp, rule goes_idle [OF i])
  note d = goes_idle [OF i [of "\<lambda>r. (p_realtimer r)\<lparr>it_value := v\<rparr>"] c, of p]
  show ?thesis
    unfolding sched_alarm_def Let_def v_def [symmetric] using goes_then [OF d a] d goes_Inr [OF c clk_same_refl] by (simp only: if_split) blast
qed

lemma goes_one:
  assumes c: "clk_ok xs st" and p: "p < NPROC"
  shows "goes xs st (sched_one p st)"
proof -
  have i: "idle_upd (\<lambda>r. r\<lparr>p_time := schar (p_time r + 1)\<rparr>)" by (simp add: idle_upd_def)
  have a: "goes xs s (rbind (sched_alarm p s) (\<lambda>s. Inr (sched_decay p s)))" if "clk_ok xs s" for s
    by (rule goes_bind [OF goes_alarm [OF that p]]) (rule goes_decay)
  show ?thesis
  proof (cases "p_of st p_time p = 127")
    case True
    then show ?thesis using a [OF c] by (simp add: sched_one_def)
  next
    case False
    then show ?thesis using goes_then [OF goes_idle [OF i c, of p] a] by (simp add: sched_one_def)
  qed
qed

lemma goes_all:
  assumes c: "clk_ok xs st"
  shows "goes xs st (walk (Suc NPROC) (\<lambda>s i. p_of s p_nxt i) sched_one (allproc st) st)"
proof -
  have l: "plist st xs" using c by (simp add: clk_ok_def)
  have "\<exists>s'. walk (Suc NPROC) (\<lambda>s i. p_of s p_nxt i) sched_one (allproc st) st = Inr s' \<and> (clk_ok xs s' \<and> clk_same st s')"
  proof (rule walk_inv [where xs = xs, OF _ plist_length [OF l]])
    show "chain (\<lambda>i. p_of st p_nxt i) (allproc st) xs" using l by (simp add: plist_def)
    show "clk_ok xs st \<and> clk_same st st" using c by simp
    fix i s assume "i \<in> set xs" and s: "clk_ok xs s \<and> clk_same st s"
    then have "i < NPROC" using l by (simp add: plist_def)
    with s obtain s' where "sched_one i s = Inr s'" "clk_ok xs s'" "clk_same s s'" using goes_one [of xs s i] unfolding goes_def by blast
    then show "\<exists>s'. sched_one i s = Inr s' \<and> (\<lambda>i. p_of s' p_nxt i) = (\<lambda>i. p_of s p_nxt i) \<and> (clk_ok xs s' \<and> clk_same st s')"
      using s clk_same_trans by (auto simp: clk_same_def clk_env_def)
  qed
  then show ?thesis unfolding goes_def by blast
qed

lemma goes_vmmeter: "clk_ok xs st \<Longrightarrow> goes xs st (vmmeter st)"
proof -
  assume c: "clk_ok xs st"
  then obtain s where v: "vmmeter st = Inr s" "metered st s" using vmmeter_spec unfolding clk_ok_def by blast
  then have e: "s\<lparr>avefree := avefree st, avefree30 := avefree30 st, rate := rate st, vsum := vsum st, cnt := cnt st,
     vtotal := vtotal st, avenrun := avenrun st\<rparr> = st" (is "?s = st") by (simp add: metered_def)
  have "procs s = procs ?s" "qs s = qs ?s" "slpque s = slpque ?s" "lay s = lay ?s" by simp_all
  then have i: "sched_inv s" using sched_inv_env [of s st] c unfolding e clk_ok_def by simp
  have "clk_same ?s s" by (simp add: clk_same_def clk_env_def)
  then have "clk_same st s" unfolding e .
  then show ?thesis using clk_ok_same [OF i _ c] v(1) by (simp add: goes_def)
qed

text \<open>Operations on the callout queue change nothing else.\<close>

definition co_only :: "'a kst_scheme \<Rightarrow> 'a kst_scheme \<Rightarrow> bool" where
  "co_only st st' \<longleftrightarrow> st'\<lparr>callouts := callouts st, callfree := callfree st, calltodo := calltodo st\<rparr> = st"

lemma co_only_trans:
  assumes 1: "co_only st s1" and 2: "co_only s1 s2"
  shows "co_only st s2"
proof -
  have "s2\<lparr>callouts := callouts st, callfree := callfree st, calltodo := calltodo st\<rparr> =
      s2\<lparr>callouts := callouts s1, callfree := callfree s1, calltodo := calltodo s1\<rparr>
        \<lparr>callouts := callouts st, callfree := callfree st, calltodo := calltodo st\<rparr>" by simp
  also have "\<dots> = s1\<lparr>callouts := callouts st, callfree := callfree st, calltodo := calltodo st\<rparr>"
    by (simp only: 2 [unfolded co_only_def])
  also have "\<dots> = st" by (rule 1 [unfolded co_only_def])
  finally show ?thesis by (simp only: co_only_def)
qed

lemma timeout_co_only: "timeout f a t st = Inr st' \<Longrightarrow> co_only st st'"
  by (auto simp: timeout_def rbind_def Let_def co_only_def set_cnext_def updc_def split: option.splits sum.splits prod.splits)

lemma take_co_only: "callout_take st = Some (f, a, st') \<Longrightarrow> co_only st st'"
  by (auto simp: callout_take_def Let_def co_only_def updc_def split: option.splits if_splits)

lemma tick_co_only: "tick_go n p b st = Inr (b', st') \<Longrightarrow> co_only st st'"
proof (induction n arbitrary: p b st)
  case (Suc n)
  show ?case
  proof (cases p)
    case (Some i)
    define s1 where "s1 = updc i (\<lambda>c. c\<lparr>c_time := c_time c - 1\<rparr>) st"
    have 1: "co_only st s1" by (simp add: co_only_def s1_def updc_def)
    have "s1 = st' \<or> tick_go n (cnext s1 i) True s1 = Inr (b', st')"
      using Suc.prems unfolding Some tick_go.simps Let_def option.case s1_def [symmetric] by (auto split: if_splits)
    then have "co_only s1 st'" using Suc.IH by (auto simp: co_only_def)
    then show ?thesis by (rule co_only_trans [OF 1])
  qed (use Suc.prems in \<open>auto simp: co_only_def\<close>)
qed simp

lemma co_only_sel:
  assumes "co_only st st'"
  shows "procs st' = procs st" "qs st' = qs st" "slpque st' = slpque st" "lay st' = lay st" "uu st' = uu st" "allproc st' = allproc st"
    "lbolt st' = lbolt st" "time st' = time st" "adjdelta st' = adjdelta st" "noproc st' = noproc st"
proof -
  let ?s = "st'\<lparr>callouts := callouts st, callfree := callfree st, calltodo := calltodo st\<rparr>"
  have e: "?s = st" using assms by (simp add: co_only_def)
  have "procs ?s = procs st'" "qs ?s = qs st'" "slpque ?s = slpque st'" "lay ?s = lay st'" "uu ?s = uu st'" "allproc ?s = allproc st'"
    "lbolt ?s = lbolt st'" "time ?s = time st'" "adjdelta ?s = adjdelta st'" "noproc ?s = noproc st'" by simp_all
  then show "procs st' = procs st" "qs st' = qs st" "slpque st' = slpque st" "lay st' = lay st" "uu st' = uu st" "allproc st' = allproc st"
    "lbolt st' = lbolt st" "time st' = time st" "adjdelta st' = adjdelta st" "noproc st' = noproc st" unfolding e by simp_all
qed

lemma co_only_ok: "co_only st st' \<Longrightarrow> clk_ok xs st \<Longrightarrow> clk_ok xs st'" "co_only st st' \<Longrightarrow> clk_env st st'"
  using sched_inv_env [of st' st] co_only_sel [of st st'] by (simp_all add: clk_ok_def plist_def clk_env_def)

subsection \<open>Running what is due\<close>

text \<open>The callouts are in order, and those of sleeps name processes.\<close>

definition timers_ok :: "'a kst_scheme \<Rightarrow> bool" where
  "timers_ok st \<longleftrightarrow> (\<forall>x \<in> set (pending st). fst x = C_endtsleep \<longrightarrow> proc_at st (fst (snd x)) \<noteq> None)"

definition clock_inv :: "nat list \<Rightarrow> 'a kst_scheme \<Rightarrow> bool" where
  "clock_inv xs st \<longleftrightarrow> clk_ok xs st \<and> callouts_ok st \<and> timers_ok st"

definition ready :: "'a kst_scheme \<Rightarrow> timer list" where
  "ready st = filter (\<lambda>x. due x = 0) (pending st)"

lemma callouts_cong:
  assumes "callouts st' = callouts st" "callfree st' = callfree st" "calltodo st' = calltodo st"
  shows "callouts_ok st' = callouts_ok st" and "pending st' = pending st"
  using assms by (simp_all add: callouts_ok_def pending_def ctodo_def cfree_def callout_ok_def)

lemma proc_at_lay: "lay st' = lay st \<Longrightarrow> proc_at st' a = proc_at st a"
  by (simp add: proc_at_def)

lemma proc_at_less: "proc_at st a = Some p \<Longrightarrow> p < NPROC"
  by (auto simp: proc_at_def find_Some_iff)

lemma clock_inv_goes:
  assumes "clock_inv xs st" and "goes xs st m"
  shows "\<exists>st'. m = Inr st' \<and> clock_inv xs st' \<and> clk_env st st' \<and> pending st' = pending st"
proof -
  from assms(2) obtain st' where s: "m = Inr st'" "clk_ok xs st'" "clk_same st st'" unfolding goes_def by blast
  then have e: "callouts_ok st' = callouts_ok st" "pending st' = pending st" "lay st' = lay st" "clk_env st st'"
    using callouts_cong [of st' st] by (simp_all add: clk_same_def clk_env_def)
  then have "clock_inv xs st'" using assms(1) s(2) proc_at_lay [OF e(3)] by (simp add: clock_inv_def timers_ok_def)
  then show ?thesis using s(1) e by blast
qed

lemma timeout_inv:
  assumes i: "clock_inv xs st" and room: "length (pending st) < NCALL" and a: "f = C_endtsleep \<longrightarrow> proc_at st a \<noteq> None"
  shows "\<exists>st'. timeout f a t st = Inr st' \<and> clock_inv xs st' \<and> clk_env st st' \<and> pending st' = insert_timer (f, a, max t 1) (pending st)"
proof -
  have c: "callouts_ok st" using i by (simp add: clock_inv_def)
  from cq.add_room [OF c room] obtain st' where t: "timeout f a t st = Inr st'" "callouts_ok st'"
    "pending st' = insert_timer (f, a, max t 1) (pending st)" by blast
  note o = timeout_co_only [OF t(1)]
  have "timers_ok st'"
    using i a proc_at_lay [OF co_only_sel(4) [OF o]] unfolding timers_ok_def clock_inv_def t(3) insert_timer_def
    by (auto dest: set_takeWhileD set_dropWhileD)
  then have "clock_inv xs st'" using co_only_ok(1) [OF o] i t(2) by (simp add: clock_inv_def)
  then show ?thesis using t co_only_ok(2) [OF o] by blast
qed

lemma schedcpu_spec:
  assumes i: "clock_inv xs st" and room: "length (pending st) < NCALL"
  shows "\<exists>st'. schedcpu st = Inr st' \<and> clock_inv xs st' \<and> clk_env st st' \<and> pending st' = insert_timer (C_schedcpu, 0, hz) (pending st)"
proof -
  let ?f = "\<lambda>s. rbind (walk (Suc NPROC) (\<lambda>s i. p_of s p_nxt i) sched_one (allproc s) s) (\<lambda>s. rbind (vmmeter s) (\<lambda>s.
     rbind (if runin s \<noteq> 0 then wakeup (a_runin (lay s)) (s\<lparr>runin := 0\<rparr>) else Inr s) (\<lambda>s. Inr (s\<lparr>runrun := s32 (runrun s + 1)\<rparr>))))"
  have c: "clk_ok xs st" using i by (simp add: clock_inv_def)
  have "goes xs st (rbind (wakeup (a_lbolt (lay st)) st) ?f)"
  proof (rule goes_bind [OF goes_wakeup [OF c]], rule goes_bind [OF goes_all], assumption, rule goes_bind [OF goes_vmmeter], assumption, rule goes_bind)
    show "goes xs s (if runin s \<noteq> 0 then wakeup (a_runin (lay s)) (s\<lparr>runin := 0\<rparr>) else Inr s)" if "clk_ok xs s" for s
      using goes_then [OF goes_runrun(2) [OF that, of 0] goes_wakeup] goes_Inr [OF that] by simp
  qed (rule goes_runrun(1))
  from clock_inv_goes [OF i this] obtain s where s: "rbind (wakeup (a_lbolt (lay st)) st) ?f = Inr s" "clock_inv xs s" "clk_env st s" "pending s = pending st"
    by blast
  have "schedcpu st = rbind (rbind (wakeup (a_lbolt (lay st)) st) ?f) (timeout C_schedcpu 0 hz)"
    by (simp add: schedcpu_def rbind_def split: sum.split)
  with timeout_inv [OF s(2), of C_schedcpu 0 hz] s room clk_env_trans [OF s(3)] show ?thesis by auto
qed

lemma insert_ready: "0 < due x \<Longrightarrow> length (filter (\<lambda>y. due y = 0) (insert_timer x l)) = length (filter (\<lambda>y. due y = 0) l)"
proof -
  assume x: "0 < due x"
  obtain as bs where l: "l = as @ bs" "insert_timer x l = as @ x # bs" unfolding insert_timer_def by (metis takeWhile_dropWhile_id)
  then show ?thesis using x by simp
qed

lemma cfunc_call_spec:
  assumes i: "clock_inv xs st" and room: "length (pending st) < NCALL" and a: "f = C_endtsleep \<longrightarrow> proc_at st a \<noteq> None"
  shows "\<exists>st'. cfunc_call f a st = Inr st' \<and> clock_inv xs st' \<and> clk_env st st' \<and> length (ready st') = length (ready st)"
proof (cases f)
  case C_schedcpu
  then show ?thesis using schedcpu_spec [OF i room] insert_ready [of "(C_schedcpu, 0, hz)" "pending st"] by (auto simp: cfunc_call_def ready_def)
next
  case C_endtsleep
  then obtain p where p: "proc_at st a = Some p" using a by auto
  have c: "clk_ok xs st" using i by (simp add: clock_inv_def)
  show ?thesis using clock_inv_goes [OF i goes_endtsleep [OF c proc_at_less [OF p]]] p C_endtsleep by (auto simp: cfunc_call_def ready_def)
next
  case C_wakeup
  have c: "clk_ok xs st" using i by (simp add: clock_inv_def)
  show ?thesis using clock_inv_goes [OF i goes_wakeup [OF c, of a]] C_wakeup by (auto simp: cfunc_call_def ready_def)
qed

lemma softclock_go_spec:
  assumes "clock_inv xs st" and "length (ready st) < n"
  shows "\<exists>st'. softclock_go n st = Inr st' \<and> clock_inv xs st' \<and> clk_env st st' \<and> ready st' = []"
  using assms
proof (induction n arbitrary: st)
  case (Suc n)
  have c: "callouts_ok st" "clk_ok xs st" "timers_ok st" using Suc.prems(1) by (simp_all add: clock_inv_def)
  note ord = cq.in_order [OF c(1)]
  show ?case
  proof (cases "\<forall>x \<in> set (pending st). 0 < due x")
    case True
    then have "ready st = []" by (auto simp: ready_def filter_empty_conv)
    then show ?thesis using cq.take_none [OF c(1) True] Suc.prems(1) by simp
  next
    case False
    then obtain x ys where x: "pending st = x # ys" "due x = 0" using ord by (cases "pending st") force+
    from cq.take_first [OF c(1) x] obtain s where t: "callout_take st = Some (fst x, fst (snd x), s)" "callouts_ok s" "pending s = ys" by blast
    note o = take_co_only [OF t(1)]
    have i: "clock_inv xs s" using co_only_ok(1) [OF o c(2)] t(2,3) c(3) x(1) proc_at_lay [OF co_only_sel(4) [OF o]]
      by (simp add: clock_inv_def timers_ok_def)
    have r: "length (pending s) < NCALL" using pending_length [OF c(1)] x(1) t(3) by simp
    have a: "fst x = C_endtsleep \<longrightarrow> proc_at s (fst (snd x)) \<noteq> None"
      using c(3) x(1) proc_at_lay [OF co_only_sel(4) [OF o]] by (simp add: timers_ok_def)
    from cfunc_call_spec [OF i r a] obtain s1 where s1: "cfunc_call (fst x) (fst (snd x)) s = Inr s1" "clock_inv xs s1" "clk_env s s1"
      "length (ready s1) = length (ready s)" by blast
    have "length (ready s1) < n" using Suc.prems(2) s1(4) x t(3) by (simp add: ready_def)
    from Suc.IH [OF s1(2) this] obtain st' where "softclock_go n s1 = Inr st'" "clock_inv xs st'" "clk_env s1 st'" "ready st' = []" by blast
    then show ?thesis using t(1) s1(1,3) clk_env_trans co_only_ok(2) [OF o] by (auto intro: clk_env_trans)
  qed
qed simp

lemma goes_umem: "clk_ok xs st \<Longrightarrow> goes xs st (Inr (st\<lparr>umem := m\<rparr>))"
  using sched_inv_env [of "st\<lparr>umem := m\<rparr>" st] by (simp add: goes_def clk_ok_def clk_same_def clk_env_def plist_def)

lemma goes_user:
  assumes c: "clk_ok xs st"
  shows "goes xs st (Inr (softclock_user pc st))"
proof -
  define s where "s = (if pr_scale (u_prof (uu st)) \<noteq> 0 then st\<lparr>umem := addupc pc (u_prof (uu st)) 1 (umem st)\<rparr> else st)"
  have 1: "goes xs st (Inr s)" using goes_umem [OF c] goes_Inr [OF c clk_same_refl] by (simp add: s_def)
  have n: "idle_upd (\<lambda>r. r\<lparr>p_nice := NZERO + 4\<rparr>)" by (simp add: idle_upd_def)
  have 2: "goes xs s (Inr (snd (setpri p (updp p (\<lambda>r. r\<lparr>p_nice := NZERO + 4\<rparr>) s))))" if "clk_ok xs s" for p
    by (rule goes_then [OF goes_idle [OF n that] goes_setpri])
  show ?thesis unfolding softclock_user_def Let_def s_def [symmetric] using goes_then [OF 1 2] 1 by simp
qed

lemma softclock_spec:
  assumes "clock_inv xs st"
  shows "\<exists>st'. softclock pc ps st = Inr st' \<and> clock_inv xs st' \<and> clk_env st st' \<and> ready st' = []"
proof -
  have "length (pending st) \<le> NCALL" using pending_length [of st] assms by (simp add: clock_inv_def)
  then have "length (ready st) < Suc NCALL"
    unfolding ready_def using length_filter_le [of "\<lambda>x. due x = 0" "pending st"] by linarith
  from softclock_go_spec [OF assms this] obtain s where s: "softclock_go (Suc NCALL) st = Inr s" "clock_inv xs s" "clk_env st s" "ready s = []" by blast
  have c: "clk_ok xs s" using s(2) by (simp add: clock_inv_def)
  from clock_inv_goes [OF s(2) goes_user [OF c, of pc]] have u: "clock_inv xs (softclock_user pc s)" "clk_env s (softclock_user pc s)" "ready (softclock_user pc s) = []"
    using s(4) by (simp_all add: ready_def)
  then show ?thesis using s clk_env_trans [OF s(3) u(2)] by (cases "USERMODE ps") (simp_all add: softclock_def)
qed

subsection \<open>Charging a tick\<close>

definition tick_env :: "'a kst_scheme \<Rightarrow> 'a kst_scheme \<Rightarrow> bool" where
  "tick_env st st' \<longleftrightarrow> lay st' = lay st \<and> lbolt st' = lbolt st \<and> time st' = time st \<and> adjdelta st' = adjdelta st \<and> noproc st' = noproc st
     \<and> curproc st' = curproc st \<and> u_ru (uu st') = u_ru (uu st) \<and> pending st' = pending st"

definition ticks :: "nat list \<Rightarrow> 'a kst_scheme \<Rightarrow> 'a kst_scheme res \<Rightarrow> bool" where
  "ticks xs st m \<longleftrightarrow> (\<exists>st'. m = Inr st' \<and> clock_inv xs st' \<and> tick_env st st')"

lemma ticks_Inr: "clock_inv xs st \<Longrightarrow> ticks xs st (Inr st)"
  by (simp add: ticks_def tick_env_def)

lemma ticks_bind:
  assumes "ticks xs st m" and "\<And>s. clock_inv xs s \<Longrightarrow> curproc s = curproc st \<Longrightarrow> ticks xs s (f s)"
  shows "ticks xs st (rbind m f)"
proof -
  from assms(1) obtain s where s: "m = Inr s" "clock_inv xs s" "tick_env st s" unfolding ticks_def by blast
  from assms(2) [OF s(2)] s(3) obtain s' where "f s = Inr s'" "clock_inv xs s'" "tick_env s s'" unfolding ticks_def tick_env_def by auto
  then show ?thesis using s by (auto simp: ticks_def tick_env_def)
qed

lemma ticks_goes: "clock_inv xs st \<Longrightarrow> goes xs st m \<Longrightarrow> ticks xs st m"
  using clock_inv_goes [of xs st m] unfolding ticks_def tick_env_def clk_env_def by auto

lemma clock_inv_updu:
  assumes "u_procp (f (uu st)) = curproc st"
  shows "clock_inv xs (updu f st) = clock_inv xs st" and "pending (updu f st) = pending st"
  using assms sched_inv_env [of "updu f st" st] callouts_cong [of "updu f st" st] proc_at_lay [of "updu f st" st]
  by (simp_all add: clock_inv_def clk_ok_def plist_def timers_ok_def)

lemma ticks_updu:
  assumes "clock_inv xs st" and "u_procp (f (uu st)) = curproc st" and "u_ru (f (uu st)) = u_ru (uu st)"
  shows "ticks xs st (Inr (updu f st))"
  using assms clock_inv_updu [of f st] by (simp add: ticks_def tick_env_def)

lemma ticks_then:
  assumes "ticks xs st (Inr s)" and "clock_inv xs s \<Longrightarrow> ticks xs s m"
  shows "ticks xs st m"
  using assms by (auto simp: ticks_def tick_env_def)

lemma ticks_psignal: "clock_inv xs st \<Longrightarrow> 1 \<le> sig \<Longrightarrow> sig \<le> NSIG \<Longrightarrow> ticks xs st (psignal (curproc st) sig st)"
  using ticks_goes goes_psignal unfolding clock_inv_def clk_ok_def by blast

lemma ticks_itimer:
  assumes i: "clock_inv xs st" and "1 \<le> sig" "sig \<le> NSIG"
  shows "ticks xs st (itimer_tick k sig st)"
proof -
  define v where "v = s32 (it_value (u_timer (uu st) k) - 1)"
  let ?s = "updu (\<lambda>u. u\<lparr>u_timer := (u_timer u)(k := (u_timer u k)\<lparr>it_value := v\<rparr>)\<rparr>) st"
  have 1: "ticks xs st (Inr ?s)" by (rule ticks_updu [OF i]) simp_all
  have 2: "ticks xs ?s (rbind (psignal (curproc ?s) sig ?s) (\<lambda>st.
      Inr (updu (\<lambda>u. u\<lparr>u_timer := (u_timer u)(k := (u_timer u k)\<lparr>it_value := it_interval (u_timer u k)\<rparr>)\<rparr>) st)))" if "clock_inv xs ?s"
    by (rule ticks_bind [OF ticks_psignal [OF that assms(2,3)]]) (rule ticks_updu, simp_all)
  show ?thesis
  proof (cases "it_value (u_timer (uu st) k) \<noteq> 0")
    case True
    then show ?thesis using 1 ticks_then [OF 1 2] unfolding itimer_tick_def Let_def v_def by (cases "v = 0") (simp_all only: v_def if_True simp_thms if_False)
  qed (simp add: itimer_tick_def ticks_Inr [OF i])
qed

lemma ticks_limit:
  assumes i: "clock_inv xs st"
  shows "ticks xs st (cpu_limit st)"
proof -
  have "ticks xs s (Inr (if b then updu (\<lambda>u. u\<lparr>u_rlimit := (u_rlimit u)(RLIMIT_CPU := l)\<rparr>) s else s))" if "clock_inv xs s" for s b l
    using ticks_updu [OF that, of "\<lambda>u. u\<lparr>u_rlimit := (u_rlimit u)(RLIMIT_CPU := l)\<rparr>"] ticks_Inr [OF that] by (cases b) simp_all
  then show ?thesis unfolding cpu_limit_def Let_def using ticks_Inr [OF i] by (auto intro!: ticks_bind ticks_psignal [OF i])
qed

lemma ticks_charge:
  assumes i: "clock_inv xs st"
  shows "ticks xs st (charge_proc st)"
proof -
  let ?f = "\<lambda>r. r\<lparr>p_cpu := (if schar (p_cpu r + 1) = 0 then schar (schar (p_cpu r + 1) - 1) else schar (p_cpu r + 1))\<rparr>"
  have "idle_upd ?f" by (simp add: idle_upd_def)
  then have 1: "ticks xs st (Inr (updp (curproc st) ?f st))" using ticks_goes [OF i goes_idle] i by (simp add: clock_inv_def)
  have 2: "ticks xs s (rbind (cpu_limit s) (itimer_tick 1 SIGPROF))" if "clock_inv xs s" for s
    by (rule ticks_bind [OF ticks_limit [OF that]]) (rule ticks_itimer, simp_all)
  show ?thesis unfolding charge_proc_def Let_def using ticks_then [OF 1 2] ticks_Inr [OF i] by (simp only: if_split) blast
qed

definition charged :: "u32 \<Rightarrow> int \<Rightarrow> k_rusage \<Rightarrow> k_rusage" where
  "charged ps np ru =
     (if USERMODE ps then ru\<lparr>ru_utime := s32 (ru_utime ru + 1)\<rparr> else if np = 0 then ru\<lparr>ru_stime := s32 (ru_stime ru + 1)\<rparr> else ru)"

lemma charge_mode_spec:
  assumes i: "clock_inv xs st"
  shows "ticks xs (updu (\<lambda>u. u\<lparr>u_ru := charged ps (noproc st) (u_ru u)\<rparr>) st) (charge_mode ps st)"
proof -
  let ?s = "updu (\<lambda>u. u\<lparr>u_ru := charged ps (noproc st) (u_ru u)\<rparr>) st"
  have i': "clock_inv xs ?s" using i by (subst clock_inv_updu) simp_all
  show ?thesis
  proof (cases "USERMODE ps")
    case True
    then have "charge_mode ps st = itimer_tick 0 SIGVTALRM ?s" by (simp add: charge_mode_def charged_def)
    then show ?thesis using ticks_itimer [OF i', of SIGVTALRM 0] by simp
  next
    case False
    have "charge_mode ps st = Inr ?s"
      using False by (cases "noproc st = 0") (simp_all add: charge_mode_def charged_def updu_def)
    then show ?thesis using ticks_Inr [OF i'] by simp
  qed
qed

lemma advance_inv:
  "clock_inv xs (clock_advance st) = clock_inv xs st" "pending (clock_advance st) = pending st" "uu (clock_advance st) = uu st"
  "lay (clock_advance st) = lay st" "noproc (clock_advance st) = noproc st"
proof -
  have e: "procs (clock_advance st) = procs st" "qs (clock_advance st) = qs st" "slpque (clock_advance st) = slpque st"
    "allproc (clock_advance st) = allproc st" "callouts (clock_advance st) = callouts st" "callfree (clock_advance st) = callfree st"
    "calltodo (clock_advance st) = calltodo st"
    by (simp_all add: clock_advance_def Let_def)
  show u: "uu (clock_advance st) = uu st" "lay (clock_advance st) = lay st" "noproc (clock_advance st) = noproc st"
    by (simp_all add: clock_advance_def Let_def)
  show p: "pending (clock_advance st) = pending st" by (rule callouts_cong(2) [OF e(5-7)])
  show "clock_inv xs (clock_advance st) = clock_inv xs st"
    using e u p sched_inv_env [OF e(1-3) u(2)] callouts_cong(1) [OF e(5-7)] proc_at_lay [OF u(2)]
    by (simp add: clock_inv_def clk_ok_def plist_def timers_ok_def)
qed

lemma gather_inv: "clock_inv xs (gatherstats ps st) = clock_inv xs st" "tick_env st (gatherstats ps st)"
proof -
  define g where "g = gatherstats ps st"
  have e: "procs g = procs st" "qs g = qs st" "slpque g = slpque st" "lay g = lay st" "allproc g = allproc st" "callouts g = callouts st"
    "callfree g = callfree st" "calltodo g = calltodo st" "uu g = uu st" "lbolt g = lbolt st" "time g = time st" "adjdelta g = adjdelta st"
    "noproc g = noproc st"
    by (simp_all add: g_def gatherstats_def Let_def)
  then have "clock_inv xs g = clock_inv xs st" "tick_env st g"
    using sched_inv_env [OF e(1-4)] callouts_cong [OF e(6-8)] proc_at_lay [OF e(4)]
    by (simp_all add: clock_inv_def clk_ok_def plist_def timers_ok_def tick_env_def)
  then show "clock_inv xs (gatherstats ps st) = clock_inv xs st" "tick_env st (gatherstats ps st)" by (simp_all add: g_def)
qed

text \<open>One clock interrupt: the clock, the charge for the tick, and what is due when the interrupt came at the base level.\<close>

definition advanced :: "'a kst_scheme \<Rightarrow> 'a kst_scheme \<Rightarrow> bool" where
  "advanced st st' \<longleftrightarrow> lbolt st' = lbolt (clock_advance st) \<and> time st' = time (clock_advance st) \<and> adjdelta st' = adjdelta (clock_advance st)
     \<and> noproc st' = noproc st \<and> curproc st' = curproc st \<and> lay st' = lay st"

lemma clock_advance_cong:
  assumes "lbolt s = lbolt st" "time s = time st" "adjdelta s = adjdelta st"
  shows "lbolt (clock_advance s) = lbolt (clock_advance st)" "time (clock_advance s) = time (clock_advance st)"
    "adjdelta (clock_advance s) = adjdelta (clock_advance st)"
  using assms by (simp_all add: clock_advance_def Let_def)

lemma hardclock_spec:
  assumes i: "clock_inv xs st"
  shows "\<exists>st'. hardclock pc ps st = Inr st' \<and> clock_inv xs st' \<and> advanced st st' \<and> u_ru (uu st') = charged ps (noproc st) (u_ru (uu st))
    \<and> (BASEPRI ps \<longrightarrow> ready st' = [])"
proof -
  have c: "callouts_ok st" "clk_ok xs st" "timers_ok st" using i by (simp_all add: clock_inv_def)
  from cq.tick_ages [OF c(1)] obtain s0 where t: "callout_tick st = Inr (\<exists>x \<in> set (pending s0). due x = 0, s0)" "callouts_ok s0"
    "pending s0 = map age_timer (pending st)" by blast
  have o: "co_only st s0" using tick_co_only t(1) unfolding callout_tick_def by blast
  note sel = co_only_sel [OF o]
  have "timers_ok s0" using c(3) t(3) proc_at_lay [OF sel(4)] by (auto simp: timers_ok_def age_timer_def)
  then have i0: "clock_inv xs s0" using co_only_ok(1) [OF o c(2)] t(2) by (simp add: clock_inv_def)
  from charge_mode_spec [OF i0, of ps] obtain s1 where s1: "charge_mode ps s0 = Inr s1" "clock_inv xs s1"
    "tick_env (updu (\<lambda>u. u\<lparr>u_ru := charged ps (noproc s0) (u_ru u)\<rparr>) s0) s1" unfolding ticks_def by blast
  from ticks_charge [OF s1(2)] obtain s2 where s2: "charge_proc s1 = Inr s2" "clock_inv xs s2" "tick_env s1 s2" unfolding ticks_def by blast
  define g where "g = gatherstats ps s2"
  define s3 where "s3 = clock_advance g"
  have i3: "clock_inv xs s3" using s2(2) by (simp add: s3_def g_def advance_inv gather_inv)
  have g: "tick_env s2 g" unfolding g_def by (rule gather_inv(2))
  have old: "lbolt g = lbolt st" "time g = time st" "adjdelta g = adjdelta st" "noproc g = noproc st" "curproc g = curproc st" "lay g = lay st"
    "u_ru (uu g) = charged ps (noproc st) (u_ru (uu st))" "pending g = pending s0"
    using g s2(3) s1(3) sel clock_inv_updu(2) [of "\<lambda>u. u\<lparr>u_ru := charged ps (noproc s0) (u_ru u)\<rparr>" s0] by (simp_all add: tick_env_def)
  have 3: "advanced st s3" "u_ru (uu s3) = charged ps (noproc st) (u_ru (uu st))" "ready s3 = ready s0"
    using old clock_advance_cong [OF old(1-3)] by (simp_all add: advanced_def s3_def advance_inv ready_def)
  define soft where "soft \<longleftrightarrow> ((\<exists>x \<in> set (pending s0). due x = 0) \<or> USERMODE ps \<and> pr_scale (u_prof (uu s0)) \<noteq> 0) \<and> BASEPRI ps"
  have h: "hardclock pc ps st = (if soft then softclock pc ps s3 else Inr s3)"
    unfolding hardclock_def t(1) soft_def using s1(1) s2(1) by (simp add: s3_def g_def Let_def)
  show ?thesis
  proof (cases soft)
    case True
    from softclock_spec [OF i3, of pc ps] obtain st' where st': "softclock pc ps s3 = Inr st'" "clock_inv xs st'" "clk_env s3 st'" "ready st' = []" by blast
    moreover have "advanced st st'" "u_ru (uu st') = charged ps (noproc st) (u_ru (uu st))"
      using 3 st'(3) by (simp_all add: advanced_def clk_env_def)
    ultimately show ?thesis using h True by auto
  next
    case False
    then have "BASEPRI ps \<longrightarrow> ready s3 = []" using 3(3) by (auto simp: soft_def ready_def filter_empty_conv)
    then show ?thesis using h False i3 3 by simp
  qed
qed

subsection \<open>Any number of interrupts\<close>

fun clocks :: "(u32 \<times> u32) list \<Rightarrow> 'a kst_scheme \<Rightarrow> 'a kst_scheme res" where
  "clocks [] st = Inr st"
| "clocks ((pc, ps) # is) st = rbind (hardclock pc ps st) (clocks is)"

lemma clocks_spec:
  assumes "clock_inv xs st"
  shows "\<exists>st'. clocks is st = Inr st' \<and> clock_inv xs st' \<and> (is \<noteq> [] \<longrightarrow> BASEPRI (snd (last is)) \<longrightarrow> ready st' = [])"
  using assms
proof (induction "is" arbitrary: st)
  case (Cons x "is")
  obtain pc ps where x: "x = (pc, ps)" by (cases x)
  from hardclock_spec [OF Cons.prems, of pc ps] obtain s where s: "hardclock pc ps st = Inr s" "clock_inv xs s" "BASEPRI ps \<longrightarrow> ready s = []" by blast
  from Cons.IH [OF s(2)] obtain st' where "clocks is s = Inr st'" "clock_inv xs st'" "is \<noteq> [] \<longrightarrow> BASEPRI (snd (last is)) \<longrightarrow> ready st' = []" by blast
  then show ?case using s x by (cases "is") auto
qed simp

text \<open>The time of day in ticks.\<close>

definition now :: "'a kst_scheme \<Rightarrow> int" where
  "now st = tv_sec (time st) * hz + lbolt st"

lemma advance_now:
  assumes l: "0 \<le> lbolt st" "lbolt st < hz" and b: "0 \<le> tv_sec (time st)" "tv_sec (time st) < 2147483647" and a: "\<bar>adjdelta st\<bar> < 2147483647"
  shows "now (clock_advance st) + adjdelta (clock_advance st) = now st + adjdelta st + 1"
    and "0 \<le> lbolt (clock_advance st) \<and> lbolt (clock_advance st) < hz"
    and "tv_sec (time st) \<le> tv_sec (time (clock_advance st)) \<and> tv_sec (time (clock_advance st)) \<le> tv_sec (time st) + 1"
    and "adjdelta (clock_advance st) = adjdelta st - sgn (adjdelta st)"
proof -
  have s: "s32 (lbolt st + 1) = lbolt st + 1" "s32 (lbolt st - 1) = lbolt st - 1" "s32 (lbolt st + 1 + 1) = lbolt st + 2"
    "s32 (lbolt st - 1 + 1) = lbolt st" "s32 (lbolt st + 1 - hz) = lbolt st + 1 - hz" "s32 (lbolt st + 2 - hz) = lbolt st + 2 - hz"
    "s32 (tv_sec (time st) + 1) = tv_sec (time st) + 1"
    using l b by (simp_all add: s32_id)
  have d: "s32 (adjdelta st - 1) = adjdelta st - 1" if "adjdelta st > 0" using a that by (intro s32_id) linarith+
  have e: "s32 (adjdelta st + 1) = adjdelta st + 1" if "adjdelta st < 0" using a that by (intro s32_id) linarith+
  consider "adjdelta st > 0" | "adjdelta st < 0" | "adjdelta st = 0" by linarith
  then have "now (clock_advance st) + adjdelta (clock_advance st) = now st + adjdelta st + 1
    \<and> (0 \<le> lbolt (clock_advance st) \<and> lbolt (clock_advance st) < hz)
    \<and> (tv_sec (time st) \<le> tv_sec (time (clock_advance st)) \<and> tv_sec (time (clock_advance st)) \<le> tv_sec (time st) + 1)
    \<and> adjdelta (clock_advance st) = adjdelta st - sgn (adjdelta st)"
  proof cases
    case 1
    then show ?thesis using l d s by (simp add: clock_advance_def Let_def now_def)
  next
    case 2
    then show ?thesis using l e s by (simp add: clock_advance_def Let_def now_def)
  next
    case 3
    then show ?thesis using l s by (simp add: clock_advance_def Let_def now_def)
  qed
  then show "now (clock_advance st) + adjdelta (clock_advance st) = now st + adjdelta st + 1"
    "0 \<le> lbolt (clock_advance st) \<and> lbolt (clock_advance st) < hz"
    "tv_sec (time st) \<le> tv_sec (time (clock_advance st)) \<and> tv_sec (time (clock_advance st)) \<le> tv_sec (time st) + 1"
    "adjdelta (clock_advance st) = adjdelta st - sgn (adjdelta st)" by blast+
qed

lemma clocks_now:
  assumes "clock_inv xs st" and "0 \<le> lbolt st" "lbolt st < hz" and "0 \<le> tv_sec (time st)" "tv_sec (time st) + int (length is) \<le> 2147483647"
    and "\<bar>adjdelta st\<bar> < 2147483647" and "0 \<le> ru_utime (u_ru (uu st))" "ru_utime (u_ru (uu st)) + int (length is) \<le> 2147483647"
  shows "\<exists>st'. clocks is st = Inr st' \<and> now st' + adjdelta st' = now st + adjdelta st + int (length is)
    \<and> adjdelta st' = sgn (adjdelta st) * max 0 (\<bar>adjdelta st\<bar> - int (length is))
    \<and> ru_utime (u_ru (uu st')) = ru_utime (u_ru (uu st)) + int (length (filter (\<lambda>x. USERMODE (snd x)) is))"
  using assms
proof (induction "is" arbitrary: st)
  case Nil
  then show ?case by (simp add: abs_mult_sgn [symmetric] mult.commute)
next
  case (Cons x "is")
  obtain pc ps where x: "x = (pc, ps)" by (cases x)
  have b: "tv_sec (time st) < 2147483647" "ru_utime (u_ru (uu st)) < 2147483647" using Cons.prems by simp_all
  note n = advance_now [OF Cons.prems(2-4) b(1) Cons.prems(6)]
  from hardclock_spec [OF Cons.prems(1), of pc ps] obtain s where s: "hardclock pc ps st = Inr s" "clock_inv xs s" "advanced st s"
    "u_ru (uu s) = charged ps (noproc st) (u_ru (uu st))" by blast
  have a: "lbolt s = lbolt (clock_advance st)" "time s = time (clock_advance st)" "adjdelta s = adjdelta (clock_advance st)"
    using s(3) by (simp_all add: advanced_def)
  have u: "ru_utime (u_ru (uu s)) = ru_utime (u_ru (uu st)) + (if USERMODE ps then 1 else 0)"
    using s(4) b(2) Cons.prems(7) by (simp add: charged_def s32_id)
  have nw: "now s + adjdelta s = now st + adjdelta st + 1" using n(1) a by (simp add: now_def)
  have ad: "adjdelta s = adjdelta st - sgn (adjdelta st)" using n(4) a by simp
  have "\<bar>adjdelta s\<bar> < 2147483647" unfolding ad using Cons.prems(6) by (cases "adjdelta st = 0"; cases "adjdelta st > 0") auto
  moreover have "0 \<le> lbolt s" "lbolt s < hz" "0 \<le> tv_sec (time s)" "tv_sec (time s) + int (length is) \<le> 2147483647"
    using n(2,3) a Cons.prems(4,5) by simp_all
  moreover have "0 \<le> ru_utime (u_ru (uu s))" "ru_utime (u_ru (uu s)) + int (length is) \<le> 2147483647"
    using u Cons.prems(7,8) by (simp_all split: if_splits)
  ultimately obtain st' where st': "clocks is s = Inr st'" "now st' + adjdelta st' = now s + adjdelta s + int (length is)"
    "adjdelta st' = sgn (adjdelta s) * max 0 (\<bar>adjdelta s\<bar> - int (length is))"
    "ru_utime (u_ru (uu st')) = ru_utime (u_ru (uu s)) + int (length (filter (\<lambda>x. USERMODE (snd x)) is))"
    using Cons.IH [OF s(2)] by blast
  have "adjdelta st' = sgn (adjdelta st) * max 0 (\<bar>adjdelta st\<bar> - int (length (x # is)))"
    unfolding st'(3) ad by (cases "adjdelta st = 0"; cases "adjdelta st > 0") (auto simp: sgn_if)
  then show ?case using st' s(1) nw u x by auto
qed

subsection \<open>Properties\<close>

lemma coutinit_loop_env: "co_only st (coutinit_loop k st)"
proof (induction k arbitrary: st)
  case (Suc k)
  have "co_only st (updc i f st)" for i f by (simp add: co_only_def updc_def)
  then show ?case using Suc.IH co_only_trans by (fastforce simp: Let_def)
qed (simp add: co_only_def)

lemma coutinit_co_only: "co_only st (coutinit st)"
  unfolding coutinit_def by (rule co_only_trans [OF _ coutinit_loop_env]) (simp add: co_only_def)

lemma coutinit_inv:
  assumes "clk_ok xs st" and "calltodo st = None" and "c_next (callouts st (NCALL - 1)) = None"
  shows "clock_inv xs (coutinit st)" and "pending (coutinit st) = []"
proof -
  note c = callout_ok_lists [OF coutinit_ok [OF assms(2,3)]]
  show p: "pending (coutinit st) = []" using c(2) by simp
  show "clock_inv xs (coutinit st)" using c(1) p co_only_ok(1) [OF coutinit_co_only assms(1)] by (simp add: clock_inv_def timers_ok_def)
qed

lemma clock_example: "clock_inv [3, 2, 1] (coutinit sig_example)" "pending (coutinit sig_example) = []"
proof -
  have "plist sig_example [3, 2, 1]" by (simp add: plist_def sig_example_def boot_defs)
  then have "clk_ok [3, 2, 1] sig_example" using sig_example_inv by (simp add: clk_ok_def sig_example_def)
  moreover have "calltodo sig_example = None" "c_next (callouts sig_example (NCALL - 1)) = None" by (simp_all add: sig_example_def boot_defs)
  ultimately show "clock_inv [3, 2, 1] (coutinit sig_example)" "pending (coutinit sig_example) = []" by (rule coutinit_inv)+
qed



text \<open>C16: The clock is exact: over any number of clock interrupts the time of day plus the adjustment
  still to be made advances by exactly one tick per interrupt, the adjustment shrinks by one tick
  per interrupt until it is used up, and the user time of the process grows by one tick for each
  interrupt that came in user mode (as long as the 32-bit counters do not overflow).\<close>

theorem clock_exact:
  assumes "clock_inv xs st" and "0 \<le> lbolt st" "lbolt st < hz" and "0 \<le> tv_sec (time st)" "tv_sec (time st) + int (length is) \<le> 2147483647"
    and "\<bar>adjdelta st\<bar> < 2147483647" and "0 \<le> ru_utime (u_ru (uu st))" "ru_utime (u_ru (uu st)) + int (length is) \<le> 2147483647"
  shows "\<exists>st'. clocks is st = Inr st' \<and> now st' + adjdelta st' = now st + adjdelta st + int (length is)
    \<and> adjdelta st' = sgn (adjdelta st) * max 0 (\<bar>adjdelta st\<bar> - int (length is))
    \<and> ru_utime (u_ru (uu st')) = ru_utime (u_ru (uu st)) + int (length (filter (\<lambda>x. USERMODE (snd x)) is))"
  by (rule clocks_now [OF assms])

theorem clock_exact_witness:
  "\<exists>st'. clocks (replicate 200 (0, 0x10)) (coutinit sig_example) = Inr st' \<and> now st' + adjdelta st' = 200 \<and> ru_utime (u_ru (uu st')) = 200"
proof -
  note s = co_only_sel [OF coutinit_co_only, of sig_example]
  have e: "lbolt (coutinit sig_example) = 0" "tv_sec (time (coutinit sig_example)) = 0" "adjdelta (coutinit sig_example) = 0"
    "ru_utime (u_ru (uu (coutinit sig_example))) = 0"
    by (simp_all add: s) (simp_all add: sig_example_def boot_defs)
  show ?thesis using clock_exact [OF clock_example(1), of "replicate 200 (0, 0x10)"] by (simp add: e now_def USERMODE_def tst_def) blast
qed

end
