(* ===== verification/Tsleep.thy ===== *)
theory Tsleep
  imports Clocksafe Issig
begin

text \<open>
  Giving up the processor (\<open>tsleep\<close> and \<open>sleep\<close> of \<open>sys/kernel/kern_synch.c\<close>). The functions are cut where
  they call \<open>swtch\<close>, themselves or in \<open>issignal\<close>: the result says where, and \<open>tsleep_sig\<close>,
  \<open>tsleep_resume\<close> and \<open>tsleep_caught\<close> are what follows when the process runs again. The lemmas show
  that a process that goes to sleep is found on its sleep queue, how its sleep ends by a wakeup and by
  its timeout, and that neither leaves a callout behind.
\<close>

subsection \<open>Definitions\<close>

abbreviation (input) PRIMASK :: int where "PRIMASK \<equiv> 255"
abbreviation (input) PCATCH :: int where "PCATCH \<equiv> 256"

text \<open>
  \<open>Ts_ret\<close>: return of an error number. \<open>Ts_swtch\<close>: asleep, with whether signals are caught.
  \<open>Ts_before\<close> and \<open>Ts_after\<close>: stopped by a signal before the sleep and after it.
\<close>

datatype 's tsl = Ts_ret int 's | Ts_swtch bool 's | Ts_before "'s iss" | Ts_after "'s iss"

definition tsleep_caught :: "nat \<Rightarrow> 'a kst_scheme \<Rightarrow> 'a kst_scheme tsl" where
  "tsleep_caught sig st =
     (if sig = 0 then Ts_ret 0 st else if tst (u_sigintr (uu st)) (sigmask sig) then Ts_ret EINTR st else Ts_ret ERESTART st)"

text \<open>The label \<open>resume\<close>.\<close>

definition tsleep_resume :: "u32 \<Rightarrow> nat \<Rightarrow> bool \<Rightarrow> 'a kst_scheme \<Rightarrow> 'a kst_scheme tsl res" where
  "tsleep_resume timo sig catch st =
     (let p = curproc st; st = updp p (\<lambda>r. r\<lparr>p_flag := p_flag r AND NOT P_SINTR\<rparr>) st; expired = tst (p_of st p_flag p) P_TIMEOUT
      in rbind (if expired then Inr (updp p (\<lambda>r. r\<lparr>p_flag := p_flag r AND NOT P_TIMEOUT\<rparr>) st)
                else if timo \<noteq> 0 then untimeout C_endtsleep (pchan st (Some p)) st else Inr st) (\<lambda>st.
         if expired \<and> sig = 0 then Inr (Ts_ret EWOULDBLOCK st)
         else if \<not> catch then Inr (Ts_ret 0 st)
         else if sig \<noteq> 0 then Inr (tsleep_caught sig st)
         else rbind (CURSIG p st) (\<lambda>r. case r of Iss_ret sig st \<Rightarrow> Inr (tsleep_caught sig st) | _ \<Rightarrow> Inr (Ts_after r))))"

definition tsleep_off :: "bool \<Rightarrow> 'a kst_scheme \<Rightarrow> 'a kst_scheme tsl res" where
  "tsleep_off catch st =
     (let p = curproc st; st = updp p (\<lambda>r. r\<lparr>p_stat := SSLEEP\<rparr>) st
      in rbind (if p \<noteq> 0 then wakeup (a_runin (lay st)) st else Inr st) (\<lambda>st.
           Inr (Ts_swtch catch (updu (\<lambda>u. u\<lparr>u_ru := (u_ru u)\<lparr>ru_nvcsw := s32 (ru_nvcsw (u_ru u) + 1)\<rparr>\<rparr>) st))))"

text \<open>After the first \<open>CURSIG\<close> has returned \<open>sig\<close>.\<close>

definition tsleep_sig :: "u32 \<Rightarrow> nat \<Rightarrow> 'a kst_scheme \<Rightarrow> 'a kst_scheme tsl res" where
  "tsleep_sig timo sig st =
     (let p = curproc st
      in if sig \<noteq> 0
         then rbind (if p_of st p_wchan p \<noteq> 0 then unsleep p st else Inr st) (\<lambda>st.
                tsleep_resume timo sig True (updp p (\<lambda>r. r\<lparr>p_stat := SRUN\<rparr>) st))
         else if p_of st p_wchan p = 0 then tsleep_resume timo 0 False st
         else tsleep_off True st)"

definition tsleep_queue :: "u32 \<Rightarrow> int \<Rightarrow> 'a kst_scheme \<Rightarrow> 'a kst_scheme" where
  "tsleep_queue ident priority st =
     (let p = curproc st; h = HASH ident;
          st = updp p (\<lambda>r. r\<lparr>p_wchan := ident, p_slptime := 0, p_pri := schar (priority mod 256), p_link := slpque st h\<rparr>) st
      in st\<lparr>slpque := (slpque st)(h := Some p)\<rparr>)"

definition tsleep :: "u32 \<Rightarrow> int \<Rightarrow> u32 \<Rightarrow> 'a kst_scheme \<Rightarrow> 'a kst_scheme tsl res" where
  "tsleep ident priority timo st =
     (if panicstr st then Inr (Ts_ret 0 st)
      else let p = curproc st; catch = (priority div 256 mod 2 = 1); st = tsleep_queue ident priority st
           in rbind (if timo \<noteq> 0 then timeout C_endtsleep (pchan st (Some p)) (sint timo) st else Inr st) (\<lambda>st.
                if catch
                then rbind (CURSIG p (updp p (\<lambda>r. r\<lparr>p_flag := p_flag r OR P_SINTR\<rparr>) st)) (\<lambda>r.
                       case r of Iss_ret sig st \<Rightarrow> tsleep_sig timo sig st | _ \<Rightarrow> Inr (Ts_before r))
                else tsleep_off False st))"

text \<open>
  \<open>sleep\<close> up to the end of \<open>tsleep\<close>, and its end: with an interrupted sleep the process does not
  return to the caller but jumps to \<open>u_qsave\<close> (the flag in the result).
\<close>

definition sleep_prio :: "int \<Rightarrow> int" where
  "sleep_prio pri = (if pri > PZERO then or pri PCATCH else pri)"

definition sleep :: "u32 \<Rightarrow> int \<Rightarrow> 'a kst_scheme \<Rightarrow> 'a kst_scheme tsl res" where
  "sleep chan pri st = tsleep chan (sleep_prio pri) 0 st"

definition sleep_end :: "int \<Rightarrow> int \<Rightarrow> 'a kst_scheme \<Rightarrow> 'a kst_scheme \<times> bool" where
  "sleep_end pri e st =
     (let st = updu (\<lambda>u. u\<lparr>u_error := e\<rparr>) st
      in (st, \<not> (sleep_prio pri div 256 mod 2 = 0 \<or> e = 0)))"

subsection \<open>Going to sleep\<close>

text \<open>The state of a process that has queued itself and is marked asleep.\<close>

definition asleep_rec :: "u32 \<Rightarrow> int \<Rightarrow> nat option \<Rightarrow> bool \<Rightarrow> proc \<Rightarrow> proc" where
  "asleep_rec ident priority q catch r =
     r\<lparr>p_wchan := ident, p_slptime := 0, p_pri := schar (priority mod 256), p_link := q,
       p_flag := (if catch then p_flag r OR P_SINTR else p_flag r), p_stat := SSLEEP\<rparr>"

definition asleep :: "nat \<Rightarrow> u32 \<Rightarrow> int \<Rightarrow> bool \<Rightarrow> 'a kst_scheme \<Rightarrow> 'a kst_scheme" where
  "asleep p ident priority catch st =
     (updp p (asleep_rec ident priority (slpque st (HASH ident)) catch) st)\<lparr>slpque := (slpque st)(HASH ident := Some p)\<rparr>"

lemma sintr_load: "tst (w OR P_SINTR) SLOAD = tst (w :: u16) SLOAD"
  by (rule tst_bits_or) simp

lemma asleep_queues:
  assumes q: "queues st rq sq" and p: "p < NPROC" "p \<notin> set rq" "p_of st p_wchan p = 0" and i: "ident \<noteq> 0"
  shows "queues (asleep p ident priority catch st) rq (sq(HASH ident := p # sq (HASH ident)))"
proof -
  let ?st = "asleep p ident priority catch st" and ?h = "HASH ident"
  have ql: "qlinks st rq sq" by (rule queuesD(1) [OF q])
  have off: "p \<notin> set (sq h)" if "h < SQSIZE" for h using qlinksD(4) [OF ql that, of p] p(3) by blast
  have pl: "plink ?st = (plink st)(p := slpque st ?h)" by (auto simp: asleep_def asleep_rec_def)
  have rest: "p_of ?st f i = p_of st f i" if "i \<noteq> p" for f :: "proc \<Rightarrow> 'z" and i using that by (simp add: asleep_def)
  have new: "p_of ?st p_wchan p = ident" "p_of ?st p_stat p = SSLEEP" by (simp_all add: asleep_def asleep_rec_def)
  have sl: "slpque ?st = (slpque st)(?h := Some p)" "qs ?st = qs st" by (simp_all add: asleep_def)
  have run: "chain (plink ?st) (qs ?st) rq" unfolding pl sl using qlinksD(1) [OF ql] p(2) by simp
  have slp: "chain (plink ?st) (slpque ?st h) ((sq(?h := p # sq ?h)) h)" if h: "h < SQSIZE" for h
    unfolding pl sl using qlinksD(3) [OF ql h] qlinksD(3) [OF ql HASH_less [of ident]] off [OF h] off [OF HASH_less [of ident]] by simp
  have "i < NPROC \<and> p_of ?st p_wchan i \<noteq> 0 \<and> HASH (p_of ?st p_wchan i) = h \<and> p_of ?st p_stat i \<in> {SSLEEP, SSTOP}"
    if h: "h < SQSIZE" and m: "i \<in> set ((sq(?h := p # sq ?h)) h)" for h i
  proof (cases "i = p")
    case True
    then have "h = ?h" using m off [OF h] by (auto split: if_splits)
    then show ?thesis using True new p(1) i by simp
  next
    case False
    then have "i \<in> set (sq h)" using m by (auto split: if_splits)
    then show ?thesis using qlinksD(4) [OF ql h] False by (simp add: rest)
  qed
  moreover have "i < NPROC \<and> p_of ?st p_stat i = SRUN \<and> tst (p_of ?st p_flag i) SLOAD \<and> p_of ?st p_wchan i = 0" if "i \<in> set rq" for i
  proof -
    have "i \<noteq> p" using that p(2) by blast
    then show ?thesis using qlinksD(2) [OF ql that] by (simp add: rest)
  qed
  moreover have "i \<in> set ((sq(?h := p # sq ?h)) (HASH (p_of ?st p_wchan i)))" if "i < NPROC" "p_of ?st p_wchan i \<noteq> 0" for i
    using qlinksD(5) [OF ql that(1)] that(2) new by (cases "i = p") (auto simp: rest)
  moreover have "p_of ?st p_wchan i \<noteq> 0" if "i < NPROC" "p_of ?st p_stat i = SSLEEP" for i
    using q that new i by (cases "i = p") (simp_all add: rest queues_def)
  ultimately show ?thesis unfolding queues_def qlinks_def using run slp by blast
qed

text \<open>Who may sleep: the running process, on an event of its own; a sleep that signals can end has a parent to tell and no signal yet.\<close>

definition may_sleep :: "u32 \<Rightarrow> bool \<Rightarrow> 'a kst_scheme \<Rightarrow> bool" where
  "may_sleep ident catch st \<longleftrightarrow>
     \<not> panicstr st \<and> ident \<noteq> 0 \<and> ident \<noteq> a_runin (lay st) \<and> ident \<noteq> a_runout (lay st)
     \<and> p_of st p_wchan (curproc st) = 0 \<and> proc_at st (a_proc (lay st) (curproc st)) = Some (curproc st)
     \<and> \<not> tst (p_of st p_flag (curproc st)) P_TIMEOUT
     \<and> (\<forall>x \<in> set (pending st). \<not> (fst x = C_endtsleep \<and> fst (snd x) = a_proc (lay st) (curproc st)))
     \<and> (catch \<longrightarrow> p_of st p_sig (curproc st) = 0 \<and> (\<exists>pp < NPROC. pp \<noteq> curproc st \<and> p_of st p_pptr (curproc st) = Some pp))
     \<and> (\<not> catch \<longrightarrow> \<not> tst (p_of st p_flag (curproc st)) P_SINTR)"

lemma asleep_sched_inv:
  assumes i: "sched_inv st" and q: "queues st rq sq" "curproc st \<notin> set rq" "curproc st < NPROC" and m: "may_sleep ident catch st"
  shows "sched_inv (asleep (curproc st) ident priority catch st)"
proof -
  let ?st = "asleep (curproc st) ident priority catch st"
  have w: "p_of st p_wchan (curproc st) = 0" "ident \<noteq> 0" using m by (simp_all add: may_sleep_def)
  have "\<exists>rq sq. queues ?st rq sq" using asleep_queues [OF q(1,3,2) w] by blast
  moreover have "sig_ok ?st"
    unfolding sig_ok_def
  proof (intro allI impI)
    fix j assume j: "j < NPROC" "tst (p_of ?st p_flag j) P_SINTR" "p_of ?st p_wchan j \<noteq> 0"
    show "p_of ?st p_wchan j \<noteq> a_runout (lay ?st) \<and> (\<exists>pp < NPROC. pp \<noteq> j \<and> p_of ?st p_pptr j = Some pp)"
    proof (cases "j = curproc st")
      case True
      then have catch using j(2) m by (cases catch) (auto simp: asleep_def asleep_rec_def may_sleep_def)
      then show ?thesis using True m by (simp add: asleep_def asleep_rec_def may_sleep_def)
    next
      case False
      then show ?thesis using i j unfolding sched_inv_def sig_ok_def by (simp add: asleep_def)
    qed
  qed
  moreover have "\<forall>j. excl (procs ?st j)" using i by (simp add: sched_inv_def excl_def asleep_def asleep_rec_def)
  ultimately show ?thesis unfolding sched_inv_def by blast
qed

text \<open>A process that sleeps on \<open>ident\<close>.\<close>

definition sleeps :: "u32 \<Rightarrow> bool \<Rightarrow> 'a kst_scheme \<Rightarrow> bool" where
  "sleeps ident catch st \<longleftrightarrow> p_of st p_wchan (curproc st) = ident \<and> p_of st p_stat (curproc st) = SSLEEP
     \<and> \<not> tst (p_of st p_flag (curproc st)) P_TIMEOUT \<and> (catch \<longrightarrow> p_of st p_sig (curproc st) = 0)"

lemma wakeup_other:
  assumes i: "clock_inv xs st" and p: "p_of st p_wchan p \<noteq> chan" "p_of st p_wchan p \<noteq> a_runout (lay st)"
  shows "\<exists>st'. wakeup chan st = Inr st' \<and> clock_inv xs st' \<and> clk_env st st' \<and> pending st' = pending st
    \<and> p_of st' p_wchan p = p_of st p_wchan p \<and> p_of st' p_stat p = p_of st p_stat p \<and> p_of st' p_flag p = p_of st p_flag p
    \<and> p_of st' p_sig p = p_of st p_sig p"
proof -
  have c: "clk_ok xs st" using i by (simp add: clock_inv_def)
  then obtain rq sq where "queues st rq sq" unfolding clk_ok_def sched_inv_def by blast
  from wakeup_spec [OF this, of chan] obtain st' ws sq' where w: "wakeup chan st = Inr st'" "wakeup_post chan st rq sq st' ws sq'" by blast
  note w' = wakeup_postD [OF w(2)]
  have wk: "woke (chans chan st) st st'" using w(2) by (simp add: wakeup_post_def)
  have n: "p_of st p_wchan p \<notin> chans chan st" using p by (simp add: chans_def)
  have "p_of st' p_wchan p = p_of st p_wchan p" "p_of st' p_stat p = p_of st p_stat p"
    using wk [unfolded woke_def, rule_format, of p] n by blast+
  moreover have "clock_inv xs st' \<and> clk_env st st' \<and> pending st' = pending st"
    using clock_inv_goes [OF i goes_wakeup [OF c, of chan]] w(1) by simp
  ultimately show ?thesis using w(1) sframe_flag [OF w'(2), of p] sframe_sig [OF w'(2), of p] by simp
qed

lemma tsleep_off_spec:
  assumes i: "clock_inv xs (updp (curproc st) (\<lambda>r. r\<lparr>p_stat := SSLEEP\<rparr>) st)"
    and p: "p_of st p_wchan (curproc st) = ident" "ident \<noteq> a_runin (lay st)" "ident \<noteq> a_runout (lay st)"
      "\<not> tst (p_of st p_flag (curproc st)) P_TIMEOUT" "catch \<longrightarrow> p_of st p_sig (curproc st) = 0"
  shows "\<exists>st'. tsleep_off catch st = Inr (Ts_swtch catch st') \<and> clock_inv xs st' \<and> sleeps ident catch st' \<and> lay st' = lay st
    \<and> curproc st' = curproc st \<and> pending st' = pending st"
proof -
  let ?s = "updp (curproc st) (\<lambda>r. r\<lparr>p_stat := SSLEEP\<rparr>) st" and ?p = "curproc st"
  let ?u = "updu (\<lambda>u. u\<lparr>u_ru := (u_ru u)\<lparr>ru_nvcsw := s32 (ru_nvcsw (u_ru u) + 1)\<rparr>\<rparr>)"
  have ps: "pending ?s = pending st" by (rule callouts_cong) simp_all
  have f: "clock_inv xs (?u s) = clock_inv xs s" "pending (?u s) = pending s" for s :: "'a kst_scheme" by (rule clock_inv_updu, simp)+
  have "\<exists>s. (if ?p \<noteq> 0 then wakeup (a_runin (lay ?s)) ?s else Inr ?s) = Inr s \<and> clock_inv xs s \<and> clk_env ?s s \<and> pending s = pending ?s
      \<and> p_of s p_wchan ?p = ident \<and> p_of s p_stat ?p = SSLEEP \<and> p_of s p_flag ?p = p_of st p_flag ?p \<and> p_of s p_sig ?p = p_of st p_sig ?p"
  proof (cases "?p = 0")
    case True
    then show ?thesis using i p(1) by simp
  next
    case False
    have "p_of ?s p_wchan ?p \<noteq> a_runin (lay ?s)" "p_of ?s p_wchan ?p \<noteq> a_runout (lay ?s)" using p by simp_all
    from wakeup_other [OF i this] show ?thesis using False p(1) by simp
  qed
  then obtain s where s: "(if ?p \<noteq> 0 then wakeup (a_runin (lay ?s)) ?s else Inr ?s) = Inr s" "clock_inv xs s" "clk_env ?s s" "pending s = pending ?s"
    "p_of s p_wchan ?p = ident" "p_of s p_stat ?p = SSLEEP" "p_of s p_flag ?p = p_of st p_flag ?p" "p_of s p_sig ?p = p_of st p_sig ?p" by blast
  have "tsleep_off catch st = Inr (Ts_swtch catch (?u s))" unfolding tsleep_off_def Let_def s(1) by simp
  moreover have "curproc s = ?p" "lay s = lay st" using s(3) by (simp_all add: clk_env_def)
  ultimately show ?thesis using s f p ps by (simp add: sleeps_def)
qed

lemma tsleep_spec:
  assumes i: "clock_inv xs st" and q: "queues st rq sq" "curproc st \<notin> set rq" and m: "may_sleep ident catch st"
    and c: "catch \<longleftrightarrow> priority div 256 mod 2 = 1" and room: "timo \<noteq> 0 \<longrightarrow> length (pending st) < NCALL"
  shows "\<exists>st'. tsleep ident priority timo st = Inr (Ts_swtch catch st') \<and> clock_inv xs st' \<and> sleeps ident catch st' \<and> lay st' = lay st
    \<and> curproc st' = curproc st
    \<and> pending st' = (if timo = 0 then pending st else insert_timer (C_endtsleep, a_proc (lay st) (curproc st), max (sint timo) 1) (pending st))"
proof -
  define p where "p = curproc st"
  define s1 where "s1 = tsleep_queue ident priority st"
  have ci: "clk_ok xs st" "callouts_ok st" "timers_ok st" "sched_inv st" "p < NPROC" using i by (simp_all add: clock_inv_def clk_ok_def p_def)
  have e1: "callouts s1 = callouts st" "callfree s1 = callfree st" "calltodo s1 = calltodo st" "lay s1 = lay st" "uu s1 = uu st"
    "allproc s1 = allproc st" "qs s1 = qs st" by (simp_all add: s1_def tsleep_queue_def Let_def)
  have c1: "callouts_ok s1" "pending s1 = pending st" using callouts_cong [OF e1(1-3)] ci(2) by simp_all
  define l where "l = (if timo = 0 then pending st else insert_timer (C_endtsleep, a_proc (lay st) p, max (sint timo) 1) (pending st))"
  have "\<exists>s2. (if timo \<noteq> 0 then timeout C_endtsleep (pchan s1 (Some p)) (sint timo) s1 else Inr s1) = Inr s2 \<and> callouts_ok s2 \<and> pending s2 = l \<and> co_only s1 s2"
    using cq.add_room [OF c1(1), of C_endtsleep "pchan s1 (Some p)" "sint timo"] timeout_co_only [of C_endtsleep "pchan s1 (Some p)" "sint timo" s1] room c1
    by (cases "timo = 0") (auto simp: l_def co_only_def pchan_def e1(4))
  then obtain s2 where s2: "(if timo \<noteq> 0 then timeout C_endtsleep (pchan s1 (Some p)) (sint timo) s1 else Inr s1) = Inr s2" "callouts_ok s2"
    "pending s2 = l" "co_only s1 s2" by blast
  note sel = co_only_sel [OF s2(4)]
  define s3 where "s3 = (if catch then updp p (\<lambda>r. r\<lparr>p_flag := p_flag r OR P_SINTR\<rparr>) s2 else s2)"
  define s4 where "s4 = updp p (\<lambda>r. r\<lparr>p_stat := SSLEEP\<rparr>) s3"
  have s3e: "uu s3 = uu st" "lay s3 = lay st" "allproc s3 = allproc st" "qs s3 = qs st" "slpque s3 = slpque s1" "pending s3 = l" "callouts_ok s3"
    using sel e1 s2(2,3) callouts_cong [of s3 s2] by (simp_all add: s3_def)
  have p4: "procs s4 = procs (asleep p ident priority catch st)" "slpque s4 = slpque (asleep p ident priority catch st)"
    using sel s3e(5) by (auto simp: s4_def s3_def s1_def tsleep_queue_def asleep_def asleep_rec_def Let_def p_def fun_upd_def)
  have "sched_inv s4"
    using asleep_sched_inv [OF ci(4) q _ m] ci(5) sched_inv_env [OF p4(1) _ p4(2)] s3e by (simp add: p_def s4_def asleep_def)
  moreover have "plist s4 xs"
  proof -
    have "pnxt s4 = pnxt st" unfolding p4(1) by (auto simp: asleep_def asleep_rec_def)
    then show ?thesis using ci(1) s3e(3) unfolding clk_ok_def plist_def by (simp add: s4_def)
  qed
  moreover have "timers_ok s4"
  proof -
    have "\<forall>x \<in> set l. fst x = C_endtsleep \<longrightarrow> proc_at st (fst (snd x)) \<noteq> None"
      using ci(3) m unfolding l_def timers_ok_def insert_timer_def may_sleep_def p_def by (auto dest: set_takeWhileD set_dropWhileD split: if_splits)
    then show ?thesis using callouts_cong(2) [of s4 s3] s3e(2,6) proc_at_lay [of s4 st] by (simp add: timers_ok_def s4_def)
  qed
  moreover have "callouts_ok s4" using s3e(7) callouts_cong(1) [of s4 s3] by (simp add: s4_def)
  ultimately have i4: "clock_inv xs s4" using ci(5) s3e(1) by (simp add: clock_inv_def clk_ok_def s4_def p_def)
  have pr: "p_of s3 p_wchan p = ident" "p_of s3 p_sig p = p_of st p_sig p" "tst (p_of s3 p_flag p) P_TIMEOUT = tst (p_of st p_flag p) P_TIMEOUT"
  proof -
    have "tst (w OR P_SINTR) P_TIMEOUT = tst (w :: u16) P_TIMEOUT" for w by (rule tst_bits_or) simp
    then show "p_of s3 p_wchan p = ident" "p_of s3 p_sig p = p_of st p_sig p" "tst (p_of s3 p_flag p) P_TIMEOUT = tst (p_of st p_flag p) P_TIMEOUT"
      using sel(1) by (simp_all add: s3_def s1_def tsleep_queue_def Let_def p_def)
  qed
  have off: "\<exists>st'. tsleep_off catch s3 = Inr (Ts_swtch catch st') \<and> clock_inv xs st' \<and> sleeps ident catch st' \<and> lay st' = lay s3
      \<and> curproc st' = curproc s3 \<and> pending st' = pending s3"
    using i4 m pr s3e by (intro tsleep_off_spec) (simp_all add: s4_def p_def may_sleep_def)
  have "tsleep ident priority timo st = tsleep_off catch s3"
  proof -
    have z: "catch \<Longrightarrow> p_of s3 p_sig p = 0" "\<not> panicstr st" "ident \<noteq> 0" using m pr by (simp_all add: may_sleep_def p_def)
    show ?thesis
    proof (cases catch)
      case True
      then have "CURSIG p s3 = Inr (Iss_ret 0 s3)" using z(1) by (simp add: CURSIG_def)
      then show ?thesis using True c z(2,3) s2(1) pr(1) s3e(1)
        unfolding tsleep_def s1_def [symmetric] p_def [symmetric] Let_def by (simp add: s3_def tsleep_sig_def p_def)
    next
      case False
      then show ?thesis using c z(2) s2(1) unfolding tsleep_def s1_def [symmetric] p_def [symmetric] Let_def by (simp add: s3_def)
    qed
  qed
  then show ?thesis using off s3e unfolding p_def [symmetric] l_def [symmetric] by (simp add: p_def)
qed

subsection \<open>Waking up\<close>

lemma sleeper_woken:
  assumes i: "clock_inv xs st" and s: "sleeps ident catch st" and n: "ident \<noteq> 0"
  shows "\<exists>st'. wakeup ident st = Inr st' \<and> clock_inv xs st' \<and> clk_env st st' \<and> pending st' = pending st
    \<and> p_of st' p_stat (curproc st) = SRUN \<and> p_of st' p_wchan (curproc st) = 0
    \<and> p_of st' p_flag (curproc st) = p_of st p_flag (curproc st) \<and> p_of st' p_sig (curproc st) = p_of st p_sig (curproc st)"
proof -
  let ?p = "curproc st"
  have c: "clk_ok xs st" "?p < NPROC" using i by (simp_all add: clock_inv_def clk_ok_def)
  then obtain rq sq where "queues st rq sq" unfolding clk_ok_def sched_inv_def by blast
  from wakeup_spec [OF this, of ident] obtain st' ws sq' where w: "wakeup ident st = Inr st'" "wakeup_post ident st rq sq st' ws sq'"
    "p_of st' p_wchan ?p \<noteq> ident" using n c(2) by auto
  note w' = wakeup_postD [OF w(2)]
  have wk: "woke (chans ident st) st st'" using w(2) by (simp add: wakeup_post_def)
  have "p_of st' p_stat ?p = SRUN" "p_of st' p_wchan ?p = 0"
    using wk [unfolded woke_def, rule_format, of ?p] w(3) s by (auto simp: sleeps_def)
  moreover have "clock_inv xs st' \<and> clk_env st st' \<and> pending st' = pending st"
    using clock_inv_goes [OF i goes_wakeup [OF c(1), of ident]] w(1) by simp
  ultimately show ?thesis using w(1) sframe_flag [OF w'(2), of ?p] sframe_sig [OF w'(2), of ?p] by simp
qed

lemma sleeper_expires:
  assumes i: "clock_inv xs st" and s: "sleeps ident catch st" and n: "ident \<noteq> 0"
  shows "\<exists>st'. endtsleep (curproc st) st = Inr st' \<and> clock_inv xs st' \<and> clk_env st st' \<and> pending st' = pending st
    \<and> p_of st' p_stat (curproc st) = SRUN \<and> p_of st' p_wchan (curproc st) = 0 \<and> tst (p_of st' p_flag (curproc st)) P_TIMEOUT"
proof -
  let ?p = "curproc st"
  have c: "clk_ok xs st" "?p < NPROC" using i by (simp_all add: clock_inv_def clk_ok_def)
  then obtain rq sq where q: "queues st rq sq" unfolding clk_ok_def sched_inv_def by blast
  have z: "p_of st p_stat ?p = SSLEEP" "p_of st p_wchan ?p \<noteq> 0" using s n by (simp_all add: sleeps_def)
  then obtain s1 where "setrun ?p st = Inr s1" "p_of s1 p_stat ?p = SRUN" "p_of s1 p_wchan ?p = 0" using setrun_spec [OF q c(2)] by auto
  then have "endtsleep ?p st = Inr (updp ?p (\<lambda>r. r\<lparr>p_flag := p_flag r OR P_TIMEOUT\<rparr>) s1)"
    "p_of s1 p_stat ?p = SRUN" "p_of s1 p_wchan ?p = 0" using z by (simp_all add: endtsleep_def)
  then show ?thesis using clock_inv_goes [OF i goes_endtsleep [OF c]] by (auto simp: tst_or) (simp_all add: tst_def)
qed

lemma untimeout_co_only: "untimeout f a st = Inr st' \<Longrightarrow> co_only st st'"
proof -
  have "untimeout_go n f a p st = Inr st' \<Longrightarrow> co_only st st'" for n p
    by (induction n arbitrary: p) (auto simp: untimeout_unlink_def Let_def co_only_def set_cnext_def updc_def split: option.splits if_splits)
  then show "untimeout f a st = Inr st' \<Longrightarrow> co_only st st'" by (simp add: untimeout_def)
qed

lemma clear_flag_inv:
  assumes i: "clock_inv xs st" and v: "v AND SLOAD = 0"
  shows "clock_inv xs (updp p (\<lambda>r. r\<lparr>p_flag := p_flag r AND NOT v\<rparr>) st)" "pending (updp p (\<lambda>r. r\<lparr>p_flag := p_flag r AND NOT v\<rparr>) st) = pending st"
proof -
  let ?s = "updp p (\<lambda>r. r\<lparr>p_flag := p_flag r AND NOT v\<rparr>) st"
  have c: "sched_inv st" "clk_ok xs st" using i by (simp_all add: clock_inv_def clk_ok_def)
  then obtain rq sq where q: "queues st rq sq" unfolding sched_inv_def by blast
  have "queues ?s rq sq" using tst_bits_and [OF v] by (intro queues_same [OF q]) simp_all
  moreover have "sig_ok ?s" using c(1) tst_clear_imp [of _ v P_SINTR] unfolding sched_inv_def sig_ok_def by (simp split: if_splits)
  moreover have "\<forall>j. excl (procs ?s j)" using c(1) by (simp add: sched_inv_def excl_def)
  ultimately have "sched_inv ?s" unfolding sched_inv_def by blast
  moreover have same: "clk_same st ?s" by (auto simp: clk_same_def clk_env_def)
  ultimately have "goes xs st (Inr ?s)" using clk_ok_same [OF _ same c(2)] unfolding goes_def by blast
  then show "clock_inv xs ?s" "pending ?s = pending st" using clock_inv_goes [OF i] by blast+
qed

lemma untimeout_inv:
  assumes i: "clock_inv xs st"
  shows "\<exists>st'. untimeout f a st = Inr st' \<and> clock_inv xs st' \<and> procs st' = procs st \<and> pending st' = remove_timer f a (pending st)"
proof -
  have c: "callouts_ok st" using i by (simp add: clock_inv_def)
  from cq.cancel_first [OF c, of f a] obtain st' where u: "untimeout f a st = Inr st'" "callouts_ok st'" "pending st' = remove_timer f a (pending st)" by blast
  note o = untimeout_co_only [OF u(1)]
  have "set (remove_timer f a l) \<subseteq> set l" for l by (induction l) auto
  then have "set (pending st') \<subseteq> set (pending st)" unfolding u(3) .
  moreover have "timers_ok st" using i by (simp add: clock_inv_def)
  ultimately have "timers_ok st'" unfolding timers_ok_def proc_at_lay [OF co_only_sel(4) [OF o]] by blast
  then show ?thesis using u co_only_ok(1) [OF o] co_only_sel(1) [OF o] i unfolding clock_inv_def by blast
qed

lemma remove_insert:
  assumes "\<forall>x \<in> set l. \<not> (fst x = f \<and> fst (snd x) = a)"
  shows "remove_timer f a (insert_timer (f, a, t) l) = l"
proof -
  have "\<forall>x \<in> set (takeWhile (\<lambda>y. due y < due (f, a, t)) l). \<not> (fst x = f \<and> fst (snd x) = a)" using assms by (blast dest: set_takeWhileD)
  from remove_timer_split [OF this] show ?thesis unfolding insert_timer_def by simp
qed

lemma resume_woken:
  assumes i: "clock_inv xs st" and f: "\<not> tst (p_of st p_flag (curproc st)) P_TIMEOUT" and c: "catch \<longrightarrow> p_of st p_sig (curproc st) = 0"
  shows "\<exists>st'. tsleep_resume timo 0 catch st = Inr (Ts_ret 0 st') \<and> clock_inv xs st'
    \<and> pending st' = (if timo = 0 then pending st else remove_timer C_endtsleep (a_proc (lay st) (curproc st)) (pending st))"
proof -
  let ?p = "curproc st"
  define s where "s = updp ?p (\<lambda>r. r\<lparr>p_flag := p_flag r AND NOT P_SINTR\<rparr>) st"
  have s: "clock_inv xs s" "pending s = pending st" unfolding s_def by (rule clear_flag_inv [OF i], simp)+
  have t: "\<not> tst (p_of s p_flag ?p) P_TIMEOUT" using f tst_clear_imp [of _ P_SINTR P_TIMEOUT] by (auto simp: s_def)
  have "\<exists>s'. (if timo \<noteq> 0 then untimeout C_endtsleep (pchan s (Some ?p)) s else Inr s) = Inr s' \<and> clock_inv xs s' \<and> procs s' = procs s
     \<and> pending s' = (if timo = 0 then pending st else remove_timer C_endtsleep (a_proc (lay st) ?p) (pending st))"
    using untimeout_inv [OF s(1), of C_endtsleep "pchan s (Some ?p)"] s by (simp add: pchan_def) (simp add: s_def)
  then obtain s' where s': "(if timo \<noteq> 0 then untimeout C_endtsleep (pchan s (Some ?p)) s else Inr s) = Inr s'" "clock_inv xs s'" "procs s' = procs s"
     "pending s' = (if timo = 0 then pending st else remove_timer C_endtsleep (a_proc (lay st) ?p) (pending st))" by blast
  have "catch \<longrightarrow> CURSIG ?p s' = Inr (Iss_ret 0 s')" using c s'(3) by (simp add: CURSIG_def s_def)
  then have "tsleep_resume timo 0 catch st = Inr (Ts_ret 0 s')"
    unfolding tsleep_resume_def s_def [symmetric] Let_def using t s'(1) by (simp add: tsleep_caught_def)
  then show ?thesis using s' by simp
qed

lemma resume_expired:
  assumes i: "clock_inv xs st" and f: "tst (p_of st p_flag (curproc st)) P_TIMEOUT"
  shows "\<exists>st'. tsleep_resume timo 0 catch st = Inr (Ts_ret EWOULDBLOCK st') \<and> clock_inv xs st'
    \<and> \<not> tst (p_of st' p_flag (curproc st)) P_TIMEOUT \<and> pending st' = pending st"
proof -
  let ?p = "curproc st"
  define s where "s = updp ?p (\<lambda>r. r\<lparr>p_flag := p_flag r AND NOT P_SINTR\<rparr>) st"
  have s: "clock_inv xs s" "pending s = pending st" unfolding s_def by (rule clear_flag_inv [OF i], simp)+
  have t: "tst (p_of s p_flag ?p) P_TIMEOUT" using f tst_bits_and [of P_SINTR P_TIMEOUT] by (simp add: s_def)
  let ?s = "updp ?p (\<lambda>r. r\<lparr>p_flag := p_flag r AND NOT P_TIMEOUT\<rparr>) s"
  have "tsleep_resume timo 0 catch st = Inr (Ts_ret EWOULDBLOCK ?s)"
    unfolding tsleep_resume_def s_def [symmetric] Let_def using t by simp
  moreover have "clock_inv xs ?s" "pending ?s = pending s" by (rule clear_flag_inv [OF s(1)], simp)+
  moreover have "\<not> tst (p_of ?s p_flag ?p) P_TIMEOUT" using tst_clear [of "p_of s p_flag ?p" P_TIMEOUT] by simp
  ultimately show ?thesis using s(2) by auto
qed

subsection \<open>Properties\<close>

lemma tsleep_example:
  "queues (coutinit sig_example) [] ((\<lambda>_. [])(8 := [2]))" "may_sleep 0x80000104 True (coutinit sig_example)" "curproc (coutinit sig_example) = 1"
proof -
  note s = co_only_sel [OF coutinit_co_only, of sig_example]
  show "queues (coutinit sig_example) [] ((\<lambda>_. [])(8 := [2]))"
    using sig_example_queues unfolding queues_def qlinks_def s .
  show "curproc (coutinit sig_example) = 1" unfolding s by (simp add: sig_example_def)
  have "panicstr (coutinit sig_example) = panicstr sig_example"
    using arg_cong [OF coutinit_co_only [unfolded co_only_def, of sig_example], of panicstr] by simp
  moreover have "proc_at sig_example (a_proc (lay sig_example) 1) = Some 1"
    by (simp add: sig_example_def boot_defs proc_at_def upt_rec)
  ultimately show "may_sleep 0x80000104 True (coutinit sig_example)"
    unfolding may_sleep_def s clock_example(2) proc_at_lay [OF s(4)] by (simp add: sig_example_def boot_defs tst_def)
qed



end
