(* ===== verification/Files.thy ===== *)
theory Files
  imports Tsleep Prot
begin

text \<open>
  Open files and descriptors (\<open>sys/kernel/kern_descrip.c\<close>, \<open>sys/include/file.h\<close>), the advisory locks of
  \<open>sys/kernel/sys_inode.c\<close>, and the parts of \<open>open\<close> (\<open>sys/kernel/ufs_syscalls.c\<close>) that manage the descriptor.
  The file table and the inode table are fields added to the kernel state, with the two
  directories of the u. area. What a file does when it is closed or controlled is reached through
  the table \<open>Fops\<close> of function pointers: the functions take the entries \<open>fo_close\<close> and \<open>fo_ioctl\<close> of that
  table as arguments, indexed by the type of the file.
\<close>

subsection \<open>Constants\<close>

abbreviation (input) NOFILE :: nat where "NOFILE \<equiv> 30"
abbreviation (input) NFILE :: nat where "NFILE \<equiv> 24"
abbreviation (input) UF_EXCLOSE :: u8 where "UF_EXCLOSE \<equiv> 0x01"
abbreviation (input) FREAD :: u32 where "FREAD \<equiv> 0x0001"
abbreviation (input) FWRITE :: u32 where "FWRITE \<equiv> 0x0002"
abbreviation (input) FNONBLOCK :: u32 where "FNONBLOCK \<equiv> 0x0004"
abbreviation (input) FAPPEND :: u32 where "FAPPEND \<equiv> 0x0008"
abbreviation (input) FSHLOCK :: u32 where "FSHLOCK \<equiv> 0x0010"
abbreviation (input) FEXLOCK :: u32 where "FEXLOCK \<equiv> 0x0020"
abbreviation (input) FASYNC :: u32 where "FASYNC \<equiv> 0x0040"
abbreviation (input) FFSYNC :: u32 where "FFSYNC \<equiv> 0x0080"
abbreviation (input) FMASK :: u32 where "FMASK \<equiv> 0x00cf"
abbreviation (input) FCNTLFLAGS :: u32 where "FCNTLFLAGS \<equiv> 0x00cc"
abbreviation (input) DTYPE_INODE :: int where "DTYPE_INODE \<equiv> 1"
abbreviation (input) DTYPE_PIPE :: int where "DTYPE_PIPE \<equiv> 3"
abbreviation (input) LOCK_SH :: u32 where "LOCK_SH \<equiv> 0x01"
abbreviation (input) LOCK_EX :: u32 where "LOCK_EX \<equiv> 0x02"
abbreviation (input) LOCK_NB :: u32 where "LOCK_NB \<equiv> 0x04"
abbreviation (input) LOCK_UN :: u32 where "LOCK_UN \<equiv> 0x08"
abbreviation (input) ISHLOCK :: u32 where "ISHLOCK \<equiv> 0x80"
abbreviation (input) IEXLOCK :: u32 where "IEXLOCK \<equiv> 0x100"
abbreviation (input) ILWAIT :: u32 where "ILWAIT \<equiv> 0x200"
abbreviation (input) PLOCK :: int where "PLOCK \<equiv> 35"
abbreviation (input) FIONBIO :: u32 where "FIONBIO \<equiv> 0x80046660"
abbreviation (input) FIOASYNC :: u32 where "FIOASYNC \<equiv> 0x8004665f"
abbreviation (input) TIOCGPGRP :: u32 where "TIOCGPGRP \<equiv> 0x40047477"
abbreviation (input) TIOCSPGRP :: u32 where "TIOCSPGRP \<equiv> 0x80047476"
abbreviation (input) ENXIO :: int where "ENXIO \<equiv> 6"
abbreviation (input) ENODEV :: int where "ENODEV \<equiv> 19"
abbreviation (input) EOPNOTSUPP :: int where "EOPNOTSUPP \<equiv> 45"

subsection \<open>State\<close>

text \<open>\<open>f_data\<close> is the inode of the file, which is what every type of file of this configuration points to.\<close>

record fileent =
  f_flag :: u32
  f_type :: int
  f_count :: u32
  f_msgcount :: int
  f_data :: "nat option"
  f_offset :: int

text \<open>\<open>a_shlock i\<close> is the address of the member \<open>i_shlockc\<close> of inode \<open>i\<close>, a sleep channel.\<close>

record fdst = kst +
  files :: "nat \<Rightarrow> fileent"
  lastf :: nat
  inodes :: "nat \<Rightarrow> inode"
  a_shlock :: "nat \<Rightarrow> u32"
  u_cdir :: nat
  u_rdir :: "nat option"

abbreviation (input) f_of :: "'a fdst_scheme \<Rightarrow> (fileent \<Rightarrow> 'b) \<Rightarrow> nat \<Rightarrow> 'b" where
  "f_of st g i \<equiv> g (files st i)"

definition updf :: "nat \<Rightarrow> (fileent \<Rightarrow> fileent) \<Rightarrow> 'a fdst_scheme \<Rightarrow> 'a fdst_scheme" where
  "updf i g st = st\<lparr>files := (files st)(i := g (files st i))\<rparr>"

definition updi :: "nat \<Rightarrow> (inode \<Rightarrow> inode) \<Rightarrow> 'a fdst_scheme \<Rightarrow> 'a fdst_scheme" where
  "updi i g st = st\<lparr>inodes := (inodes st)(i := g (inodes st i))\<rparr>"

text \<open>The entry \<open>u.u_ofile[i]\<close>, and the assignment to it.\<close>

definition ofile :: "'a kst_scheme \<Rightarrow> nat \<Rightarrow> nat option" where
  "ofile st i = u_ofile (uu st) ! i"

definition set_ofile :: "nat \<Rightarrow> nat option \<Rightarrow> 'a kst_scheme \<Rightarrow> 'a kst_scheme" where
  "set_ofile i v st = updu (\<lambda>u. u\<lparr>u_ofile := (u_ofile u)[i := v]\<rparr>) st"

definition set_pofile :: "nat \<Rightarrow> u8 \<Rightarrow> 'a kst_scheme \<Rightarrow> 'a kst_scheme" where
  "set_pofile i v st = updu (\<lambda>u. u\<lparr>u_pofile := (u_pofile u)[i := v]\<rparr>) st"

definition raise_lastfile :: "nat \<Rightarrow> 'a kst_scheme \<Rightarrow> 'a kst_scheme" where
  "raise_lastfile i st = (if int i > u_lastfile (uu st) then updu (\<lambda>u. u\<lparr>u_lastfile := int i\<rparr>) st else st)"

subsection \<open>Descriptors\<close>

definition ufalloc :: "nat \<Rightarrow> 'a kst_scheme \<Rightarrow> nat option \<times> 'a kst_scheme" where
  "ufalloc i st =
     (case find (\<lambda>j. ofile st j = None) [i..<NOFILE] of
        Some j \<Rightarrow> (Some j, raise_lastfile j (set_pofile j 0 (set_rval (int j) st)))
      | None \<Rightarrow> (None, set_error EMFILE st))"

definition getdtablesize :: "'a kst_scheme \<Rightarrow> 'a kst_scheme" where
  "getdtablesize st = set_rval (int NOFILE) st"

text \<open>The test of \<open>getf\<close> and of the macro \<open>GETF\<close>; the caller returns when the result is \<open>None\<close>.\<close>

definition getf :: "int \<Rightarrow> 'a kst_scheme \<Rightarrow> nat option \<times> 'a kst_scheme" where
  "getf f st =
     (if f < 0 \<or> f \<ge> int NOFILE then (None, set_error EBADF st)
      else case ofile st (nat f) of None \<Rightarrow> (None, set_error EBADF st) | Some fp \<Rightarrow> (Some fp, st))"

definition dupit :: "nat \<Rightarrow> nat \<Rightarrow> u8 \<Rightarrow> 'a fdst_scheme \<Rightarrow> 'a fdst_scheme" where
  "dupit fd fp flags st =
     raise_lastfile fd (updf fp (\<lambda>r. r\<lparr>f_count := f_count r + 1\<rparr>) (set_pofile fd flags (set_ofile fd (Some fp) st)))"

subsection \<open>Advisory locks\<close>

text \<open>The two branches of \<open>ino_unlock\<close>; \<open>flags\<close> are those of the inode at the start.\<close>

definition unlock_sh :: "nat \<Rightarrow> nat \<Rightarrow> u32 \<Rightarrow> 'a fdst_scheme \<Rightarrow> 'a fdst_scheme res" where
  "unlock_sh fp ip flags st =
     (let st = updi ip (\<lambda>n. n\<lparr>i_shlockc := (i_shlockc n - 1) mod 65536\<rparr>) st
      in rbind (if i_shlockc (inodes st ip) = 0
                then let st = updi ip (\<lambda>n. n\<lparr>i_flag := i_flag n AND NOT ISHLOCK\<rparr>) st
                     in if tst flags ILWAIT then wakeup (a_shlock st ip) st else Inr st
                else Inr st) (\<lambda>st.
           Inr (updf fp (\<lambda>r. r\<lparr>f_flag := f_flag r AND NOT FSHLOCK\<rparr>) st)))"

definition unlock_ex :: "nat \<Rightarrow> nat \<Rightarrow> u32 \<Rightarrow> 'a fdst_scheme \<Rightarrow> 'a fdst_scheme res" where
  "unlock_ex fp ip flags st =
     (let st = updi ip (\<lambda>n. n\<lparr>i_exlockc := (i_exlockc n - 1) mod 65536\<rparr>) st
      in rbind (if i_exlockc (inodes st ip) = 0
                then let st = updi ip (\<lambda>n. n\<lparr>i_flag := i_flag n AND NOT (IEXLOCK OR ILWAIT)\<rparr>) st
                     in if tst flags ILWAIT then wakeup (a_shlock st ip) st else Inr st
                else Inr st) (\<lambda>st.
           Inr (updf fp (\<lambda>r. r\<lparr>f_flag := f_flag r AND NOT FEXLOCK\<rparr>) st)))"

definition ino_unlock :: "nat \<Rightarrow> u32 \<Rightarrow> 'a fdst_scheme \<Rightarrow> 'a fdst_scheme res" where
  "ino_unlock fp kind st =
     (let kind = kind AND f_of st f_flag fp
      in case f_of st f_data fp of
           None \<Rightarrow> Inr st
         | Some ip \<Rightarrow>
             if kind = 0 then Inr st
             else let flags = i_flag (inodes st ip)
                  in rbind (if tst kind FSHLOCK then unlock_sh fp ip flags st else Inr st) (\<lambda>st.
                     if tst kind FEXLOCK then unlock_ex fp ip flags st else Inr st))"

text \<open>
  \<open>ino_lock\<close> up to its end (\<open>Lk_ret\<close>, with the error) or to a call of \<open>tsleep\<close> on the lock (\<open>Lk_sleep\<close>, with the
  priority). When the sleep ends with 0 it starts again, otherwise it returns the error of the sleep.
\<close>

datatype 's lk = Lk_ret int 's | Lk_sleep int 's

definition ino_grant :: "nat \<Rightarrow> nat \<Rightarrow> u32 \<Rightarrow> 'a fdst_scheme \<Rightarrow> 'a fdst_scheme" where
  "ino_grant fp ip cmd st =
     (let (cmd, st) = (if tst cmd LOCK_EX
                       then (cmd AND NOT LOCK_SH,
                             updf fp (\<lambda>r. r\<lparr>f_flag := f_flag r OR FEXLOCK\<rparr>)
                               (updi ip (\<lambda>n. n\<lparr>i_exlockc := (i_exlockc n + 1) mod 65536, i_flag := i_flag n OR IEXLOCK\<rparr>) st))
                       else (cmd, st))
      in if tst cmd LOCK_SH \<and> \<not> tst (f_of st f_flag fp) FSHLOCK
         then updf fp (\<lambda>r. r\<lparr>f_flag := f_flag r OR FSHLOCK\<rparr>)
                (updi ip (\<lambda>n. n\<lparr>i_shlockc := (i_shlockc n + 1) mod 65536, i_flag := i_flag n OR ISHLOCK\<rparr>) st)
         else st)"

primrec ino_lock_go :: "nat \<Rightarrow> nat \<Rightarrow> nat \<Rightarrow> u32 \<Rightarrow> 'a fdst_scheme \<Rightarrow> 'a fdst_scheme lk res" where
  "ino_lock_go 0 fp ip cmd st = Inl Loop"
| "ino_lock_go (Suc n) fp ip cmd st =
     (if tst (i_flag (inodes st ip)) IEXLOCK
      then if tst (f_of st f_flag fp) FEXLOCK then rbind (ino_unlock fp FEXLOCK st) (ino_lock_go n fp ip cmd)
           else if tst cmd LOCK_NB then Inr (Lk_ret EWOULDBLOCK st)
           else Inr (Lk_sleep (if tst cmd LOCK_EX then PLOCK else PLOCK + 4) (updi ip (\<lambda>n. n\<lparr>i_flag := i_flag n OR ILWAIT\<rparr>) st))
      else if tst cmd LOCK_EX \<and> tst (i_flag (inodes st ip)) ISHLOCK
      then if tst (f_of st f_flag fp) FSHLOCK then rbind (ino_unlock fp FSHLOCK st) (ino_lock_go n fp ip cmd)
           else if tst cmd LOCK_NB then Inr (Lk_ret EWOULDBLOCK st)
           else Inr (Lk_sleep PLOCK (updi ip (\<lambda>n. n\<lparr>i_flag := i_flag n OR ILWAIT\<rparr>) st))
      else Inr (Lk_ret 0 (ino_grant fp ip cmd st)))"

text \<open>Three rounds are enough: at most one lock of each kind is given up.\<close>

definition ino_lock :: "nat \<Rightarrow> u32 \<Rightarrow> 'a fdst_scheme \<Rightarrow> 'a fdst_scheme lk res" where
  "ino_lock fp cmd st = (case f_of st f_data fp of None \<Rightarrow> Inl Fault | Some ip \<Rightarrow> ino_lock_go 3 fp ip cmd st)"

definition ino_lock_woken :: "nat \<Rightarrow> u32 \<Rightarrow> int \<Rightarrow> 'a fdst_scheme \<Rightarrow> 'a fdst_scheme lk res" where
  "ino_lock_woken fp cmd error st = (if error \<noteq> 0 then Inr (Lk_ret error st) else ino_lock fp cmd st)"

text \<open>The system call. A sleep is handed on; when the lock call ends, its error is the error of the call.\<close>

definition flock_end :: "'a fdst_scheme lk \<Rightarrow> 'a fdst_scheme lk" where
  "flock_end r = (case r of Lk_ret e st \<Rightarrow> Lk_ret e (set_error e st) | Lk_sleep p st \<Rightarrow> Lk_sleep p st)"

definition flock :: "'a fdst_scheme \<Rightarrow> 'a fdst_scheme lk res" where
  "flock st =
     (case getf (sarg st 0) st of
        (None, st) \<Rightarrow> Inr (Lk_ret 0 st)
      | (Some fp, st) \<Rightarrow>
          if f_of st f_type fp \<noteq> DTYPE_INODE then Inr (Lk_ret 0 (set_error EOPNOTSUPP st))
          else let how = uarg st 1
               in if tst how LOCK_UN then rbind (ino_unlock fp (FSHLOCK OR FEXLOCK) st) (\<lambda>st. Inr (Lk_ret 0 st))
                  else if \<not> tst how (LOCK_SH OR LOCK_EX) then Inr (Lk_ret 0 st)
                  else let how = (if tst how LOCK_EX then how AND NOT LOCK_SH else how)
                       in if tst (f_of st f_flag fp) FEXLOCK \<and> tst how LOCK_EX then Inr (Lk_ret 0 st)
                          else if tst (f_of st f_flag fp) FSHLOCK \<and> tst how LOCK_SH then Inr (Lk_ret 0 st)
                          else rbind (ino_lock fp how st) (\<lambda>r. Inr (flock_end r)))"

subsection \<open>Closing\<close>

type_synonym 's fo_close = "int \<Rightarrow> nat \<Rightarrow> 's \<Rightarrow> (int \<times> 's) res"
type_synonym 's fo_ioctl = "int \<Rightarrow> nat \<Rightarrow> u32 \<Rightarrow> int \<Rightarrow> 's \<Rightarrow> (int \<times> int \<times> 's) res"

definition closef :: "'a fdst_scheme fo_close \<Rightarrow> nat option \<Rightarrow> 'a fdst_scheme \<Rightarrow> (int \<times> 'a fdst_scheme) res" where
  "closef fo_close fp st =
     (case fp of
        None \<Rightarrow> Inr (0, st)
      | Some fp \<Rightarrow>
          if f_of st f_count fp > 1 then Inr (0, updf fp (\<lambda>r. r\<lparr>f_count := f_count r - 1\<rparr>) st)
          else rbind (if tst (f_of st f_flag fp) (FSHLOCK OR FEXLOCK) \<and> f_of st f_type fp = DTYPE_INODE
                      then ino_unlock fp (FSHLOCK OR FEXLOCK) st else Inr st) (\<lambda>st.
               rbind (fo_close (f_of st f_type fp) fp st) (\<lambda>(error, st).
               Inr (error, updf fp (\<lambda>r. r\<lparr>f_count := 0\<rparr>) st))))"

text \<open>\<open>while (u.u_lastfile >= 0 && u.u_ofile[u.u_lastfile] == NULL) u.u_lastfile--;\<close>, where \<open>n\<close> is \<open>u_lastfile + 1\<close>.\<close>

primrec last_used :: "nat \<Rightarrow> nat option list \<Rightarrow> int" where
  "last_used 0 fs = -1"
| "last_used (Suc n) fs = (if fs ! n = None then last_used n fs else int n)"

definition lower_lastfile :: "'a kst_scheme \<Rightarrow> 'a kst_scheme" where
  "lower_lastfile st = updu (\<lambda>u. u\<lparr>u_lastfile := last_used (nat (u_lastfile u + 1)) (u_ofile u)\<rparr>) st"

definition close :: "'a fdst_scheme fo_close \<Rightarrow> 'a fdst_scheme \<Rightarrow> 'a fdst_scheme res" where
  "close fo_close st =
     (case getf (sarg st 0) st of
        (None, st) \<Rightarrow> Inr st
      | (Some fp, st) \<Rightarrow>
          rbind (closef fo_close (Some fp) (lower_lastfile (set_ofile (nat (sarg st 0)) None st))) (\<lambda>(error, st).
          Inr (set_error error st)))"

subsection \<open>Duplicating\<close>

definition dup2 :: "'a fdst_scheme fo_close \<Rightarrow> 'a fdst_scheme \<Rightarrow> 'a fdst_scheme res" where
  "dup2 fo_close st =
     (case getf (sarg st 0) st of
        (None, st) \<Rightarrow> Inr st
      | (Some fp, st) \<Rightarrow>
          let i = nat (sarg st 0); j = sarg st 1
          in if j < 0 \<or> j \<ge> int NOFILE then Inr (set_error EBADF st)
             else let st = set_rval j st
                  in if sarg st 0 = j then Inr st
                     else rbind (if ofile st (nat j) \<noteq> None
                                 then rbind (closef fo_close (ofile st (nat j)) st) (\<lambda>(_, st). Inr st)
                                 else Inr st) (\<lambda>st.
                          Inr (dupit (nat j) fp (u_pofile (uu st) ! i AND NOT UF_EXCLOSE) st)))"

definition dup :: "'a fdst_scheme fo_close \<Rightarrow> 'a fdst_scheme \<Rightarrow> 'a fdst_scheme res" where
  "dup fo_close st =
     (if uarg st 0 AND NOT 0x3f \<noteq> 0
      then dup2 fo_close (updu (\<lambda>u. u\<lparr>u_arg := (u_arg u)(0 := u_arg u 0 AND 0x3f)\<rparr>) st)
      else case getf (sarg st 0) st of
             (None, st) \<Rightarrow> Inr st
           | (Some fp, st) \<Rightarrow>
               (case ufalloc 0 st of
                  (None, st) \<Rightarrow> Inr st
                | (Some j, st) \<Rightarrow> Inr (dupit j fp (u_pofile (uu st) ! nat (sarg st 0) AND NOT UF_EXCLOSE) st)))"

definition fdopen :: "int \<Rightarrow> 'a kst_scheme \<Rightarrow> int \<times> 'a kst_scheme" where
  "fdopen dev st = (ENODEV, updu (\<lambda>u. u\<lparr>u_dupfd := dev mod 256\<rparr>) st)"

text \<open>\<open>dfd\<close> is not negative: the caller has tested it.\<close>

definition dupfdopen :: "nat \<Rightarrow> nat \<Rightarrow> u32 \<Rightarrow> int \<Rightarrow> 'a fdst_scheme \<Rightarrow> int \<times> 'a fdst_scheme" where
  "dupfdopen indx dfd mode error st =
     (if dfd \<ge> NOFILE then (EBADF, st)
      else case ofile st dfd of
             None \<Rightarrow> (EBADF, st)
           | Some wp \<Rightarrow>
               if ofile st indx = Some wp then (EBADF, st)
               else if error = ENODEV
               then if (mode AND (FREAD OR FWRITE)) OR f_of st f_flag wp \<noteq> f_of st f_flag wp then (EACCES, st)
                    else (0, raise_lastfile indx (updf wp (\<lambda>r. r\<lparr>f_count := f_count r + 1\<rparr>)
                            (set_pofile indx (u_pofile (uu st) ! dfd) (set_ofile indx (Some wp) st))))
               else (error, st))"

subsection \<open>Control\<close>

definition fset :: "'a fdst_scheme fo_ioctl \<Rightarrow> nat \<Rightarrow> u32 \<Rightarrow> u32 \<Rightarrow> 'a fdst_scheme \<Rightarrow> (int \<times> 'a fdst_scheme) res" where
  "fset fo_ioctl fp b v st =
     (let st = updf fp (\<lambda>r. r\<lparr>f_flag := (if v \<noteq> 0 then f_flag r OR b else f_flag r AND NOT b)\<rparr>) st
      in rbind (fo_ioctl (f_of st f_type fp) fp (if b = FNONBLOCK then FIONBIO else FIOASYNC) (sint v) st) (\<lambda>(e, _, st). Inr (e, st)))"

definition fgetown :: "'a fdst_scheme fo_ioctl \<Rightarrow> nat \<Rightarrow> int \<Rightarrow> 'a fdst_scheme \<Rightarrow> (int \<times> int \<times> 'a fdst_scheme) res" where
  "fgetown fo_ioctl fp v st =
     rbind (fo_ioctl (f_of st f_type fp) fp TIOCGPGRP v st) (\<lambda>(e, v, st). Inr (e, s32 (- v), st))"

definition fsetown :: "'a fdst_scheme fo_ioctl \<Rightarrow> nat \<Rightarrow> int \<Rightarrow> 'a fdst_scheme \<Rightarrow> (int \<times> 'a fdst_scheme) res" where
  "fsetown fo_ioctl fp v st =
     (let put = (\<lambda>v. rbind (fo_ioctl (f_of st f_type fp) fp TIOCSPGRP v st) (\<lambda>(e, _, st). Inr (e, st)))
      in if v > 0
         then rbind (pfind st v) (\<lambda>p. case p of None \<Rightarrow> Inr (ESRCH, st) | Some p \<Rightarrow> put (p_of st p_pgrp p))
         else put (s32 (- v)))"

definition fcntl_setfl :: "'a fdst_scheme fo_ioctl \<Rightarrow> nat \<Rightarrow> u32 \<Rightarrow> 'a fdst_scheme \<Rightarrow> 'a fdst_scheme res" where
  "fcntl_setfl fo_ioctl fp arg st =
     (let st = updf fp (\<lambda>r. r\<lparr>f_flag := (f_flag r AND NOT FCNTLFLAGS) OR ((arg + 1) AND FCNTLFLAGS)\<rparr>) st
      in rbind (fset fo_ioctl fp FNONBLOCK (f_of st f_flag fp AND FNONBLOCK) st) (\<lambda>(e, st).
         let st = set_error e st
         in if e \<noteq> 0 then Inr st
            else rbind (fset fo_ioctl fp FASYNC (f_of st f_flag fp AND FASYNC) st) (\<lambda>(e, st).
                 let st = set_error e st
                 in if e \<noteq> 0 then rbind (fset fo_ioctl fp FNONBLOCK 0 st) (\<lambda>(_, st). Inr st) else Inr st)))"

definition fcntl :: "'a fdst_scheme fo_ioctl \<Rightarrow> 'a fdst_scheme \<Rightarrow> 'a fdst_scheme res" where
  "fcntl fo_ioctl st =
     (case getf (sarg st 0) st of
        (None, st) \<Rightarrow> Inr st
      | (Some fp, st) \<Rightarrow>
          let fd = nat (sarg st 0); cmd = sarg st 1; arg = sarg st 2; pop = u_pofile (uu st) ! fd
          in if cmd = 0 \<comment> \<open>\<open>F_DUPFD\<close>\<close>
             then if arg < 0 \<or> arg \<ge> int NOFILE then Inr (set_error EINVAL st)
                  else (case ufalloc (nat arg) st of
                          (None, st) \<Rightarrow> Inr st
                        | (Some i, st) \<Rightarrow> Inr (dupit i fp (u_pofile (uu st) ! fd AND NOT UF_EXCLOSE) st))
             else if cmd = 1 \<comment> \<open>\<open>F_GETFD\<close>\<close> then Inr (set_rval (uint (pop AND 1)) st)
             else if cmd = 2 \<comment> \<open>\<open>F_SETFD\<close>\<close> then Inr (set_pofile fd ((pop AND NOT 1) OR (ucast (uarg st 2) AND 1)) st)
             else if cmd = 3 \<comment> \<open>\<open>F_GETFL\<close>\<close> then Inr (set_rval (sint (f_of st f_flag fp - 1)) st)
             else if cmd = 4 \<comment> \<open>\<open>F_SETFL\<close>\<close> then fcntl_setfl fo_ioctl fp (uarg st 2) st
             else if cmd = 5 \<comment> \<open>\<open>F_GETOWN\<close>\<close>
             then rbind (fgetown fo_ioctl fp (u_rval (uu st)) st) (\<lambda>(e, v, st). Inr (set_error e (set_rval v st)))
             else if cmd = 6 \<comment> \<open>\<open>F_SETOWN\<close>\<close>
             then rbind (fsetown fo_ioctl fp arg st) (\<lambda>(e, st). Inr (set_error e st))
             else Inr (set_error EINVAL st))"

subsection \<open>Opening\<close>

text \<open>The two loops of \<open>falloc\<close> over the file table; \<open>lastf\<close> is the index where the search starts, 0 at first.\<close>

definition falloc :: "'a fdst_scheme \<Rightarrow> nat option \<times> 'a fdst_scheme" where
  "falloc st =
     (case ufalloc 0 st of
        (None, st) \<Rightarrow> (None, st)
      | (Some i, st) \<Rightarrow>
          (case find (\<lambda>fp. f_of st f_count fp = 0) ([lastf st..<NFILE] @ [0..<lastf st]) of
             None \<Rightarrow> (None, set_error ENFILE st)
           | Some fp \<Rightarrow>
               (Some fp, (updf fp (\<lambda>r. r\<lparr>f_count := 1, f_data := None, f_offset := 0\<rparr>) (set_ofile i (Some fp) st))\<lparr>lastf := fp + 1\<rparr>)))"

text \<open>
  \<open>copen\<close> up to the call of \<open>vn_open\<close>, and from there: \<open>error\<close> is what \<open>vn_open\<close> returned and \<open>ip\<close> the inode it
  found. The result is the error of \<open>copen\<close>, or a sleep on a lock.
\<close>

definition copen_begin :: "u32 \<Rightarrow> 'a fdst_scheme \<Rightarrow> nat option \<times> 'a fdst_scheme" where
  "copen_begin mode st =
     (case falloc st of
        (None, st) \<Rightarrow> (None, st)
      | (Some fp, st) \<Rightarrow>
          (Some fp, updu (\<lambda>u. u\<lparr>u_dupfd := - u_rval u - 1\<rparr>)
             (updf fp (\<lambda>r. r\<lparr>f_flag := (mode + 1) AND FMASK, f_type := DTYPE_INODE\<rparr>) st)))"

text \<open>The value assigned to \<open>error\<close> at its last occurrence is that of the comparison.\<close>

definition copen_failed :: "nat \<Rightarrow> nat \<Rightarrow> u32 \<Rightarrow> int \<Rightarrow> 'a fdst_scheme \<Rightarrow> int \<times> 'a fdst_scheme" where
  "copen_failed fp indx flags error st =
     (let st = updf fp (\<lambda>r. r\<lparr>f_count := 0\<rparr>) st
      in if (error = ENODEV \<or> error = ENXIO) \<and> u_dupfd (uu st) \<ge> 0
         then let (e, st) = dupfdopen indx (nat (u_dupfd (uu st))) flags error st;
                  error = (if e = 0 then 1 else 0)
              in if error \<noteq> 0 then (0, set_rval (int indx) st) else (error, set_ofile indx None st)
         else (error, set_ofile indx None st))"

definition copen_lock_end :: "'a fdst_scheme fo_close \<Rightarrow> nat \<Rightarrow> nat \<Rightarrow> 'a fdst_scheme lk \<Rightarrow> 'a fdst_scheme lk res" where
  "copen_lock_end fo_close fp indx r =
     (case r of
        Lk_sleep p st \<Rightarrow> Inr r
      | Lk_ret error st \<Rightarrow>
          if error \<noteq> 0 then rbind (closef fo_close (Some fp) st) (\<lambda>(_, st). Inr (Lk_ret error (set_ofile indx None st)))
          else Inr (Lk_ret error st))"

definition copen_end :: "'a fdst_scheme fo_close \<Rightarrow> nat \<Rightarrow> nat \<Rightarrow> u32 \<Rightarrow> int \<Rightarrow> nat \<Rightarrow> 'a fdst_scheme \<Rightarrow> 'a fdst_scheme lk res" where
  "copen_end fo_close fp indx mode error ip st =
     (let flags = mode + 1
      in if error \<noteq> 0 then let (e, st) = copen_failed fp indx flags error st in Inr (Lk_ret e st)
         else let st = updf fp (\<lambda>r. r\<lparr>f_data := Some ip\<rparr>) (updu (\<lambda>u. u\<lparr>u_dupfd := 0\<rparr>) st)
              in if tst flags (FEXLOCK OR FSHLOCK)
                 then rbind (ino_lock fp ((if tst flags FEXLOCK then LOCK_EX else LOCK_SH) OR (if tst flags FNONBLOCK then LOCK_NB else 0)) st)
                        (copen_lock_end fo_close fp indx)
                 else Inr (Lk_ret 0 st))"

text \<open>
  \<open>pipe\<close> from the point where its inode is allocated: the result says whether both descriptors could
  be made (otherwise the caller releases the inode). The second descriptor, which the call returns
  in a register of its own, is the value of \<open>u_rval\<close> before its last assignment.
\<close>

definition pipe_files :: "nat \<Rightarrow> 'a fdst_scheme \<Rightarrow> bool \<times> 'a fdst_scheme" where
  "pipe_files ip st =
     (case falloc st of
        (None, st) \<Rightarrow> (False, st)
      | (Some rf, st) \<Rightarrow>
          let r = u_rval (uu st)
          in case falloc st of
               (None, st) \<Rightarrow> (False, set_ofile (nat r) None (updf rf (\<lambda>r. r\<lparr>f_count := 0\<rparr>) st))
             | (Some wr, st) \<Rightarrow>
                 let st = set_rval r st;
                     st = updf wr (\<lambda>r. r\<lparr>f_flag := FWRITE, f_type := DTYPE_PIPE, f_data := Some ip\<rparr>) st;
                     st = updf rf (\<lambda>r. r\<lparr>f_flag := FREAD, f_type := DTYPE_PIPE, f_data := Some ip\<rparr>) st
                 in (True, updi ip (\<lambda>n. n\<lparr>i_count := 2, i_mode := IFREG, i_flag := 0x1046\<rparr>) st))"

subsection \<open>Process creation, execution and exit\<close>

definition fork_file :: "nat \<Rightarrow> 'a fdst_scheme \<Rightarrow> 'a fdst_scheme" where
  "fork_file n st = (case ofile st n of None \<Rightarrow> st | Some fp \<Rightarrow> updf fp (\<lambda>r. r\<lparr>f_count := f_count r + 1\<rparr>) st)"

definition fork_files :: "'a fdst_scheme \<Rightarrow> 'a fdst_scheme" where
  "fork_files st = fold fork_file [0..<nat (u_lastfile (uu st) + 1)] st"

definition exec_file :: "'a fdst_scheme fo_close \<Rightarrow> nat \<Rightarrow> 'a fdst_scheme \<Rightarrow> 'a fdst_scheme res" where
  "exec_file fo_close n st =
     (if tst (u_pofile (uu st) ! n) UF_EXCLOSE
      then rbind (closef fo_close (ofile st n) st) (\<lambda>(_, st). Inr (set_pofile n 0 (set_ofile n None st)))
      else Inr st)"

definition exec_files :: "'a fdst_scheme fo_close \<Rightarrow> 'a fdst_scheme \<Rightarrow> 'a fdst_scheme res" where
  "exec_files fo_close st =
     rbind (rfold (exec_file fo_close) [0..<nat (u_lastfile (uu st) + 1)] st) (\<lambda>st. Inr (lower_lastfile st))"

definition exit_file :: "'a fdst_scheme fo_close \<Rightarrow> nat \<Rightarrow> 'a fdst_scheme \<Rightarrow> 'a fdst_scheme res" where
  "exit_file fo_close n st =
     (let f = ofile st n
      in rbind (closef fo_close f (set_pofile n 0 (set_ofile n None st))) (\<lambda>(_, st). Inr st))"

definition exit_files :: "'a fdst_scheme fo_close \<Rightarrow> 'a fdst_scheme \<Rightarrow> 'a fdst_scheme res" where
  "exit_files fo_close st = rfold (exit_file fo_close) [0..<nat (u_lastfile (uu st) + 1)] st"

end
