(* ===== verification/Filecount.thy ===== *)
theory Filecount
  imports Files
begin

text \<open>
  Reference counts of open files. A system of processes, of which one is running, shares the file
  table; each process has its descriptor table in its u. area. Whatever system calls the processes
  make in whatever order, the count of each file is the number of descriptors that refer to it.
\<close>

subsection \<open>Field lemmas\<close>

lemma updf_sel [simp]:
  "files (updf i g st) = (files st)(i := g (files st i))" "lastf (updf i g st) = lastf st" "inodes (updf i g st) = inodes st"
  "a_shlock (updf i g st) = a_shlock st" "u_cdir (updf i g st) = u_cdir st" "u_rdir (updf i g st) = u_rdir st"
  "uu (updf i g st) = uu st" "procs (updf i g st) = procs st" "qs (updf i g st) = qs st" "slpque (updf i g st) = slpque st" "pidhash (updf i g st) = pidhash st" "lay (updf i g st) = lay st"
  by (simp_all add: updf_def)

lemma updi_sel [simp]:
  "inodes (updi i g st) = (inodes st)(i := g (inodes st i))" "lastf (updi i g st) = lastf st" "files (updi i g st) = files st"
  "a_shlock (updi i g st) = a_shlock st" "u_cdir (updi i g st) = u_cdir st" "u_rdir (updi i g st) = u_rdir st"
  "uu (updi i g st) = uu st" "procs (updi i g st) = procs st" "qs (updi i g st) = qs st" "slpque (updi i g st) = slpque st" "pidhash (updi i g st) = pidhash st" "lay (updi i g st) = lay st"
  by (simp_all add: updi_def)

lemma fd_updu [simp]: "files (updu g st) = files st" "lastf (updu g st) = lastf st" "inodes (updu g st) = inodes st"
  "a_shlock (updu g st) = a_shlock st" "u_cdir (updu g st) = u_cdir st" "u_rdir (updu g st) = u_rdir st"
  by (simp_all add: updu_def)

lemmas fd_assign_defs = set_ofile_def set_pofile_def raise_lastfile_def set_rval_def set_error_def lower_lastfile_def

lemma fd_assign [simp]:
  "files (set_ofile i q st) = files st" "lastf (set_ofile i q st) = lastf st" "inodes (set_ofile i q st) = inodes st" "a_shlock (set_ofile i q st) = a_shlock st" "procs (set_ofile i q st) = procs st" "qs (set_ofile i q st) = qs st" "slpque (set_ofile i q st) = slpque st" "pidhash (set_ofile i q st) = pidhash st" "lay (set_ofile i q st) = lay st"
  "files (set_pofile i w st) = files st" "lastf (set_pofile i w st) = lastf st" "inodes (set_pofile i w st) = inodes st" "a_shlock (set_pofile i w st) = a_shlock st" "procs (set_pofile i w st) = procs st" "qs (set_pofile i w st) = qs st" "slpque (set_pofile i w st) = slpque st" "pidhash (set_pofile i w st) = pidhash st" "lay (set_pofile i w st) = lay st"
  "files (raise_lastfile i st) = files st" "lastf (raise_lastfile i st) = lastf st" "inodes (raise_lastfile i st) = inodes st" "a_shlock (raise_lastfile i st) = a_shlock st" "procs (raise_lastfile i st) = procs st" "qs (raise_lastfile i st) = qs st" "slpque (raise_lastfile i st) = slpque st" "pidhash (raise_lastfile i st) = pidhash st" "lay (raise_lastfile i st) = lay st"
  "files (set_rval v st) = files st" "lastf (set_rval v st) = lastf st" "inodes (set_rval v st) = inodes st" "a_shlock (set_rval v st) = a_shlock st" "procs (set_rval v st) = procs st" "qs (set_rval v st) = qs st" "slpque (set_rval v st) = slpque st" "pidhash (set_rval v st) = pidhash st" "lay (set_rval v st) = lay st"
  "files (set_error e st) = files st" "lastf (set_error e st) = lastf st" "inodes (set_error e st) = inodes st" "a_shlock (set_error e st) = a_shlock st" "procs (set_error e st) = procs st" "qs (set_error e st) = qs st" "slpque (set_error e st) = slpque st" "pidhash (set_error e st) = pidhash st" "lay (set_error e st) = lay st"
  "files (lower_lastfile st) = files st" "lastf (lower_lastfile st) = lastf st" "inodes (lower_lastfile st) = inodes st" "a_shlock (lower_lastfile st) = a_shlock st" "procs (lower_lastfile st) = procs st" "qs (lower_lastfile st) = qs st" "slpque (lower_lastfile st) = slpque st" "pidhash (lower_lastfile st) = pidhash st" "lay (lower_lastfile st) = lay st"
  by (simp_all add: fd_assign_defs)

text \<open>The descriptor table of the running process, and the assignments to it.\<close>

type_synonym dtab = "nat option list \<times> u8 list \<times> int"

definition cur :: "'a kst_scheme \<Rightarrow> dtab" where
  "cur st = (u_ofile (uu st), u_pofile (uu st), u_lastfile (uu st))"

lemma cur_upd [simp]:
  "cur (updf i g st) = cur st" "cur (updi i h st) = cur st" "cur (set_rval v st) = cur st" "cur (set_error e st) = cur st"
  "cur (set_ofile i q st) = ((fst (cur st))[i := q], snd (cur st))"
  "cur (set_pofile i w st) = (fst (cur st), (fst (snd (cur st)))[i := w], snd (snd (cur st)))"
  "cur (raise_lastfile i st) = (fst (cur st), fst (snd (cur st)), max (int i) (snd (snd (cur st))))"
  "cur (lower_lastfile st) = (fst (cur st), fst (snd (cur st)), last_used (nat (snd (snd (cur st)) + 1)) (fst (cur st)))"
  by (simp_all add: cur_def fd_assign_defs)

lemma ofile_cur: "ofile st i = fst (cur st) ! i"
  by (simp add: ofile_def cur_def)

definition tab_ok :: "dtab \<Rightarrow> bool" where
  "tab_ok t \<longleftrightarrow> length (fst t) = NOFILE \<and> length (fst (snd t)) = NOFILE \<and> -1 \<le> snd (snd t) \<and> snd (snd t) < int NOFILE
     \<and> (\<forall>i < NOFILE. snd (snd t) < int i \<longrightarrow> fst t ! i = None) \<and> (\<forall>fp. Some fp \<in> set (fst t) \<longrightarrow> fp < NFILE)"

definition refs :: "nat \<Rightarrow> dtab list \<Rightarrow> nat" where
  "refs fp ts = sum_list (map (\<lambda>t. count_list (fst t) (Some fp)) ts)"

lemma count_list_update:
  "i < length xs \<Longrightarrow> count_list (xs[i := v]) x + (if xs ! i = x then 1 else 0) = count_list xs x + (if v = x then 1 else 0)"
proof (induction xs arbitrary: i)
  case (Cons y xs)
  then show ?case by (cases i) (use Cons.IH in \<open>fastforce+\<close>)
qed simp

lemma count_list_le: "count_list xs x \<le> length xs"
  by (induction xs) auto

lemma refs_le: "\<forall>t \<in> set ts. tab_ok t \<Longrightarrow> refs fp ts \<le> NOFILE * length ts"
proof (induction ts)
  case (Cons t ts)
  then have "count_list (fst t) (Some fp) \<le> NOFILE" using count_list_le [of "fst t" "Some fp"] by (simp add: tab_ok_def)
  with Cons show ?case by (simp add: refs_def)
qed (simp add: refs_def)

text \<open>
  The counts of the files agree with the descriptors of the running process and of the others \<open>os\<close>, up to
  references \<open>ex\<close> that are held elsewhere (negative: descriptors that do not count).
\<close>

definition bump :: "nat option \<Rightarrow> nat \<Rightarrow> int" where
  "bump v fp = (if v = Some fp then 1 else 0)"

definition refs_ok :: "(nat \<Rightarrow> int) \<Rightarrow> 'a fdst_scheme \<Rightarrow> dtab list \<Rightarrow> bool" where
  "refs_ok ex st os \<longleftrightarrow> (\<forall>fp < NFILE. uint (f_of st f_count fp) = int (refs fp (cur st # os)) + ex fp)"

lemma refs_ok_cong: "files st' = files st \<Longrightarrow> fst (cur st') = fst (cur st) \<Longrightarrow> refs_ok ex st' os = refs_ok ex st os"
  by (simp add: refs_ok_def refs_def)

lemma refs_ok_ofile:
  assumes "refs_ok ex st os" and "i < length (fst (cur st))"
  shows "refs_ok (\<lambda>fp. ex fp + bump (ofile st i) fp - bump v fp) (set_ofile i v st) os"
proof -
  have "int (count_list ((fst (cur st))[i := v]) (Some fp)) + bump (ofile st i) fp = int (count_list (fst (cur st)) (Some fp)) + bump v fp" for fp
    using count_list_update [OF assms(2), of v "Some fp"] by (simp add: bump_def ofile_cur split: if_splits)
  then show ?thesis using assms(1) by (simp add: refs_ok_def refs_def algebra_simps)
qed

lemma uint_inc: "uint w < 4294967295 \<Longrightarrow> uint (w + 1) = uint w + 1" for w :: u32
  by (simp add: uint_word_ariths)

lemma refs_ok_inc:
  assumes "refs_ok ex st os" and "\<forall>fp < NFILE. uint (f_of st f_count fp) < 4294967295"
  shows "refs_ok (\<lambda>x. ex x + bump (Some fp) x) (updf fp (\<lambda>r. r\<lparr>f_count := f_count r + 1\<rparr>) st) os"
  using assms uint_inc by (auto simp: refs_ok_def bump_def)

subsection \<open>Locks\<close>

text \<open>The files that hold a lock of kind \<open>k\<close> on inode \<open>ip\<close>.\<close>

definition holders :: "u32 \<Rightarrow> (nat \<Rightarrow> fileent) \<Rightarrow> nat \<Rightarrow> nat set" where
  "holders k fs ip = {fp. fp < NFILE \<and> tst (f_flag (fs fp)) k \<and> f_data (fs fp) = Some ip}"

text \<open>Counter and flag of each inode agree with the holders of its lock.\<close>

definition tallied :: "(nat \<Rightarrow> nat set) \<Rightarrow> (nat \<Rightarrow> int) \<Rightarrow> (nat \<Rightarrow> bool) \<Rightarrow> bool" where
  "tallied H c b \<longleftrightarrow> (\<forall>ip. H ip \<subseteq> {..<NFILE} \<and> c ip = int (card (H ip)) \<and> b ip = (H ip \<noteq> {}))"

lemma tallied_release:
  assumes "tallied H c b" and "fp \<in> H ip"
  shows "tallied (H(ip := H ip - {fp})) (c(ip := (c ip - 1) mod 65536)) (b(ip := b ip \<and> (c ip - 1) mod 65536 \<noteq> 0))"
proof -
  have f: "finite (H ip)" "card (H ip) \<le> NFILE" "c ip = int (card (H ip))"
    using assms(1) card_mono [of "{..<NFILE}" "H ip"] finite_subset [of "H ip" "{..<NFILE}"] unfolding tallied_def by auto
  have p: "0 < card (H ip)" using assms(2) f(1) by (auto simp: card_gt_0_iff)
  then have m: "(c ip - 1) mod 65536 = int (card (H ip - {fp}))" using f assms(2) by (simp add: of_nat_diff)
  have "(int (card (H ip - {fp})) \<noteq> 0) = (H ip - {fp} \<noteq> {})" using f(1) by simp
  moreover have "b ip" using assms unfolding tallied_def by auto
  ultimately show ?thesis using assms(1) m unfolding tallied_def by auto
qed

lemma tallied_grab:
  assumes "tallied H c b" and "fp \<notin> H ip" "fp < NFILE"
  shows "tallied (H(ip := insert fp (H ip))) (c(ip := (c ip + 1) mod 65536)) (b(ip := True))"
proof -
  have f: "finite (H ip)" "card (H ip) \<le> NFILE" "c ip = int (card (H ip))"
    using assms(1) card_mono [of "{..<NFILE}" "H ip"] finite_subset [of "H ip" "{..<NFILE}"] unfolding tallied_def by auto
  then have "(c ip + 1) mod 65536 = int (card (insert fp (H ip)))" using assms(2) by simp
  then show ?thesis using assms(1,3) unfolding tallied_def by auto
qed

definition locks_ok :: "'a fdst_scheme \<Rightarrow> bool" where
  "locks_ok st \<longleftrightarrow>
     tallied (holders FSHLOCK (files st)) (\<lambda>ip. i_shlockc (inodes st ip)) (\<lambda>ip. tst (i_flag (inodes st ip)) ISHLOCK)
     \<and> tallied (holders FEXLOCK (files st)) (\<lambda>ip. i_exlockc (inodes st ip)) (\<lambda>ip. tst (i_flag (inodes st ip)) IEXLOCK)
     \<and> (\<forall>ip fp. fp \<in> holders FEXLOCK (files st) ip \<longrightarrow> holders FEXLOCK (files st) ip = {fp} \<and> holders FSHLOCK (files st) ip = {})
     \<and> (\<forall>fp < NFILE. tst (f_of st f_flag fp) (FSHLOCK OR FEXLOCK) \<longrightarrow> f_of st f_type fp = DTYPE_INODE \<and> f_of st f_data fp \<noteq> None \<and> f_of st f_count fp \<noteq> 0)"

text \<open>What the locks depend on.\<close>

definition lock_same :: "'a fdst_scheme \<Rightarrow> 'a fdst_scheme \<Rightarrow> bool" where
  "lock_same st st' \<longleftrightarrow>
     (\<forall>fp < NFILE. tst (f_of st' f_flag fp) FSHLOCK = tst (f_of st f_flag fp) FSHLOCK \<and> tst (f_of st' f_flag fp) FEXLOCK = tst (f_of st f_flag fp) FEXLOCK
        \<and> (tst (f_of st f_flag fp) (FSHLOCK OR FEXLOCK) \<longrightarrow>
             f_of st' f_type fp = f_of st f_type fp \<and> f_of st' f_data fp = f_of st f_data fp \<and> (f_of st f_count fp \<noteq> 0 \<longrightarrow> f_of st' f_count fp \<noteq> 0)))
     \<and> (\<forall>ip. i_shlockc (inodes st' ip) = i_shlockc (inodes st ip) \<and> i_exlockc (inodes st' ip) = i_exlockc (inodes st ip)
        \<and> tst (i_flag (inodes st' ip)) ISHLOCK = tst (i_flag (inodes st ip)) ISHLOCK \<and> tst (i_flag (inodes st' ip)) IEXLOCK = tst (i_flag (inodes st ip)) IEXLOCK)"

lemma tst_or_mask: "tst w (a OR b) \<longleftrightarrow> tst w a \<or> tst w b"
  by (auto simp: tst_def bit_eq_iff bit_simps)

lemma lock_same_holders:
  assumes "lock_same st st'"
  shows "holders FSHLOCK (files st') = holders FSHLOCK (files st)" "holders FEXLOCK (files st') = holders FEXLOCK (files st)"
  using assms tst_or_mask [of _ FSHLOCK FEXLOCK] unfolding lock_same_def holders_def by (auto simp: fun_eq_iff)

lemma locks_ok_same: "locks_ok st \<Longrightarrow> lock_same st st' \<Longrightarrow> locks_ok st'"
proof -
  assume l: "locks_ok st" "lock_same st st'"
  note h = lock_same_holders [OF l(2)]
  have "tst (f_of st' f_flag fp) (FSHLOCK OR FEXLOCK) = tst (f_of st f_flag fp) (FSHLOCK OR FEXLOCK)" if "fp < NFILE" for fp
    using l(2) that unfolding lock_same_def tst_or_mask [of _ FSHLOCK FEXLOCK] by simp
  then show ?thesis using l unfolding locks_ok_def h lock_same_def by simp
qed

subsection \<open>The invariant\<close>

text \<open>The part of the process table that wakeups and lookups by id rely on.\<close>

definition procs_ok :: "'a kst_scheme \<Rightarrow> bool" where
  "procs_ok st \<longleftrightarrow> (\<exists>rq sq. queues st rq sq) \<and> (\<exists>hs. hash_ok st hs)"

lemma procs_ok_env:
  assumes "procs st' = procs st" "qs st' = qs st" "slpque st' = slpque st" "pidhash st' = pidhash st"
  shows "procs_ok st' = procs_ok st"
  using assms unfolding procs_ok_def queues_def qlinks_def hash_ok_def by simp

text \<open>Files in \<open>D\<close> are being opened and may not have an inode yet.\<close>

definition fd_ok :: "(nat \<Rightarrow> int) \<Rightarrow> nat set \<Rightarrow> 'a fdst_scheme \<Rightarrow> dtab list \<Rightarrow> bool" where
  "fd_ok ex D st os \<longleftrightarrow>
     procs_ok st \<and> lastf st \<le> NFILE \<and> (\<forall>t \<in> set (cur st # os). tab_ok t) \<and> length os < NPROC
     \<and> refs_ok ex st os \<and> (\<forall>fp. ex fp \<le> 30)
     \<and> (\<forall>fp < NFILE. fp \<notin> D \<longrightarrow> f_of st f_count fp \<noteq> 0 \<longrightarrow> f_of st f_data fp \<noteq> None) \<and> locks_ok st"

lemma fd_okD:
  assumes "fd_ok ex D st os"
  shows "procs_ok st" "lastf st \<le> NFILE" "tab_ok (cur st)" "\<forall>t \<in> set os. tab_ok t" "length os < NPROC" "refs_ok ex st os"
    "\<And>fp. ex fp \<le> 30" "\<And>fp. fp < NFILE \<Longrightarrow> fp \<notin> D \<Longrightarrow> f_of st f_count fp \<noteq> 0 \<Longrightarrow> f_of st f_data fp \<noteq> None" "locks_ok st"
  using assms unfolding fd_ok_def by auto

lemma fd_small:
  assumes "fd_ok ex D st os" "fp < NFILE"
  shows "uint (f_of st f_count fp) < 4294967295"
proof -
  have "refs fp (cur st # os) \<le> NOFILE * length (cur st # os)" using fd_okD(3,4) [OF assms(1)] by (intro refs_le) auto
  moreover have "uint (f_of st f_count fp) = int (refs fp (cur st # os)) + ex fp" using fd_okD(6) [OF assms(1)] assms(2) by (simp add: refs_ok_def)
  ultimately show ?thesis using fd_okD(5) [OF assms(1)] fd_okD(7) [OF assms(1), of fp] by simp
qed

text \<open>A state that differs in nothing the invariant depends on.\<close>

definition fd_same :: "'a fdst_scheme \<Rightarrow> 'a fdst_scheme \<Rightarrow> bool" where
  "fd_same st st' \<longleftrightarrow> procs_ok st' \<and> lastf st' = lastf st \<and> cur st' = cur st
     \<and> (\<forall>fp. f_of st' f_count fp = f_of st f_count fp \<and> f_of st' f_data fp = f_of st f_data fp) \<and> lock_same st st'"

lemma fd_ok_same: "fd_ok ex D st os \<Longrightarrow> fd_same st st' \<Longrightarrow> fd_ok ex D st' os"
proof -
  assume a: "fd_ok ex D st os" "fd_same st st'"
  have "refs_ok ex st' os" using fd_okD(6) [OF a(1)] a(2) by (simp add: refs_ok_def fd_same_def)
  moreover have "locks_ok st'" using locks_ok_same [OF fd_okD(9) [OF a(1)]] a(2) by (simp add: fd_same_def)
  ultimately show ?thesis using a unfolding fd_ok_def fd_same_def by simp
qed

lemma fd_more:
  fixes st st' :: "'a fdst_scheme"
  assumes "kst.more st' = kst.more st"
  shows "files st' = files st" "lastf st' = lastf st" "inodes st' = inodes st" "a_shlock st' = a_shlock st"
  using assms by (cases st; cases st'; simp)+

lemma wakeup_more:
  assumes "procs_ok st"
  shows "\<exists>st'. wakeup ch st = Inr st' \<and> procs_ok st' \<and> uu st' = uu st \<and> kst.more st' = kst.more st"
proof -
  from assms obtain rq sq hs where q: "queues st rq sq" "hash_ok st hs" unfolding procs_ok_def by blast
  from wakeup_spec [OF q(1), of ch] obtain st' ws sq' where w: "wakeup ch st = Inr st'" "wakeup_post ch st rq sq st' ws sq'" by blast
  note w' = wakeup_postD(1,2) [OF w(2)]
  have f: "pidhash st' = pidhash st" "uu st' = uu st" "kst.more st' = kst.more st" and p: "sched_only (procs st i) (procs st' i)" for i
    using w'(2) unfolding sframe_def by auto
  have "hash_ok st' hs" using q(2) p unfolding hash_ok_def f(1) sched_only_def by simp
  then show ?thesis using w(1) w'(1) f unfolding procs_ok_def by blast
qed

subsection \<open>Unlocking\<close>

lemma holders_clear:
  assumes "f_data (fs fp) = Some ip"
  shows "holders k (fs(fp := (fs fp)\<lparr>f_flag := f_flag (fs fp) AND NOT k\<rparr>)) = (holders k fs)(ip := holders k fs ip - {fp})"
  using assms tst_clear [of "f_flag (fs fp)" k] by (auto simp: holders_def fun_eq_iff)

lemma holders_clear_other:
  assumes "k AND k' = 0"
  shows "holders k' (fs(fp := (fs fp)\<lparr>f_flag := f_flag (fs fp) AND NOT k\<rparr>)) = holders k' fs"
  using tst_bits_and [OF assms, of "f_flag (fs fp)"] by (auto simp: holders_def fun_eq_iff)

lemma holders_set:
  assumes "f_data (fs fp) = Some ip" "fp < NFILE" "k \<noteq> 0"
  shows "holders k (fs(fp := (fs fp)\<lparr>f_flag := f_flag (fs fp) OR k\<rparr>)) = (holders k fs)(ip := insert fp (holders k fs ip))"
proof -
  have "tst (f_flag (fs fp) OR k) k" using assms(3) by (simp add: tst_or) (simp add: tst_def)
  then show ?thesis using assms(1,2) by (auto simp: holders_def fun_eq_iff)
qed

lemma holders_set_other:
  assumes "k AND k' = 0"
  shows "holders k' (fs(fp := (fs fp)\<lparr>f_flag := f_flag (fs fp) OR k\<rparr>)) = holders k' fs"
  using tst_bits_or [OF assms, of "f_flag (fs fp)"] by (auto simp: holders_def fun_eq_iff)

text \<open>A step of the locks: one file and one inode change, the rest of what the invariant depends on stays.\<close>

definition lock_step :: "nat \<Rightarrow> nat \<Rightarrow> fileent \<Rightarrow> inode \<Rightarrow> 'a fdst_scheme \<Rightarrow> 'a fdst_scheme \<Rightarrow> bool" where
  "lock_step fp ip r n st st' \<longleftrightarrow> procs_ok st' \<and> uu st' = uu st \<and> lastf st' = lastf st
     \<and> files st' = (files st)(fp := r) \<and> inodes st' = (inodes st)(ip := n)"

lemma lock_step_fd:
  assumes "fd_ok ex D st os" and "lock_step fp ip r n st st'" and "f_count r = f_of st f_count fp" "f_data r = f_of st f_data fp" and "locks_ok st'"
  shows "fd_ok ex D st' os"
proof -
  have "cur st' = cur st" using assms(2) by (simp add: cur_def lock_step_def)
  moreover have "refs_ok ex st' os" using fd_okD(6) [OF assms(1)] assms(2,3) calculation by (auto simp: refs_ok_def lock_step_def)
  ultimately show ?thesis using assms unfolding fd_ok_def lock_step_def by simp
qed

lemma unlock_sh_step:
  fixes ip :: nat
  assumes "procs_ok st"
  defines "c \<equiv> (i_shlockc (inodes st ip) - 1) mod 65536" and "w \<equiv> i_flag (inodes st ip)"
  shows "\<exists>st'. unlock_sh fp ip flags st = Inr st' \<and> lock_step fp ip ((files st fp)\<lparr>f_flag := f_of st f_flag fp AND NOT FSHLOCK\<rparr>)
    ((inodes st ip)\<lparr>i_shlockc := c, i_flag := (if c = 0 then w AND NOT ISHLOCK else w)\<rparr>) st st'"
proof -
  define s1 where "s1 = updi ip (\<lambda>n. n\<lparr>i_shlockc := (i_shlockc n - 1) mod 65536\<rparr>) st"
  define s2 where "s2 = (if c = 0 then updi ip (\<lambda>n. n\<lparr>i_flag := i_flag n AND NOT ISHLOCK\<rparr>) s1 else s1)"
  have s2: "uu s2 = uu st" "lastf s2 = lastf st" "files s2 = files st"
    "inodes s2 = (inodes st)(ip := (inodes st ip)\<lparr>i_shlockc := c, i_flag := (if c = 0 then w AND NOT ISHLOCK else w)\<rparr>)"
    by (simp_all add: s2_def s1_def w_def c_def)
  have q2: "procs_ok s2" using assms(1) procs_ok_env [of s2 st] by (simp add: s2_def s1_def)
  have "\<exists>s3. (if c = 0 then if tst flags ILWAIT then wakeup (a_shlock s2 ip) s2 else Inr s2 else Inr s2) = Inr s3 \<and> procs_ok s3
      \<and> uu s3 = uu s2 \<and> kst.more s3 = kst.more s2"
    using wakeup_more [OF q2, of "a_shlock s2 ip"] q2 by auto
  then obtain s3 where s3: "(if c = 0 then if tst flags ILWAIT then wakeup (a_shlock s2 ip) s2 else Inr s2 else Inr s2) = Inr s3" "procs_ok s3"
    "uu s3 = uu s2" "kst.more s3 = kst.more s2" by blast
  note m = fd_more [OF s3(4)]
  let ?s4 = "updf fp (\<lambda>r. r\<lparr>f_flag := f_flag r AND NOT FSHLOCK\<rparr>) s3"
  have "(if i_shlockc (inodes s1 ip) = 0
         then let st = updi ip (\<lambda>n. n\<lparr>i_flag := i_flag n AND NOT ISHLOCK\<rparr>) s1 in if tst flags ILWAIT then wakeup (a_shlock st ip) st else Inr st
         else Inr s1) = Inr s3" using s3(1) by (simp add: s1_def s2_def Let_def c_def split: if_splits)
  then have "unlock_sh fp ip flags st = Inr ?s4" unfolding unlock_sh_def Let_def s1_def [symmetric] by simp
  moreover have "procs_ok ?s4" using s3(2) procs_ok_env [of ?s4 s3] by simp
  ultimately show ?thesis unfolding lock_step_def using s2 s3(3) m by auto
qed
lemma unlock_ex_step:
  fixes ip :: nat
  assumes "procs_ok st"
  defines "c \<equiv> (i_exlockc (inodes st ip) - 1) mod 65536" and "w \<equiv> i_flag (inodes st ip)"
  shows "\<exists>st'. unlock_ex fp ip flags st = Inr st' \<and> lock_step fp ip ((files st fp)\<lparr>f_flag := f_of st f_flag fp AND NOT FEXLOCK\<rparr>)
    ((inodes st ip)\<lparr>i_exlockc := c, i_flag := (if c = 0 then w AND NOT (IEXLOCK OR ILWAIT) else w)\<rparr>) st st'"
proof -
  define s1 where "s1 = updi ip (\<lambda>n. n\<lparr>i_exlockc := (i_exlockc n - 1) mod 65536\<rparr>) st"
  define s2 where "s2 = (if c = 0 then updi ip (\<lambda>n. n\<lparr>i_flag := i_flag n AND NOT (IEXLOCK OR ILWAIT)\<rparr>) s1 else s1)"
  have s2: "uu s2 = uu st" "lastf s2 = lastf st" "files s2 = files st"
    "inodes s2 = (inodes st)(ip := (inodes st ip)\<lparr>i_exlockc := c, i_flag := (if c = 0 then w AND NOT (IEXLOCK OR ILWAIT) else w)\<rparr>)"
    by (simp_all add: s2_def s1_def w_def c_def)
  have q2: "procs_ok s2" using assms(1) procs_ok_env [of s2 st] by (simp add: s2_def s1_def)
  have "\<exists>s3. (if c = 0 then if tst flags ILWAIT then wakeup (a_shlock s2 ip) s2 else Inr s2 else Inr s2) = Inr s3 \<and> procs_ok s3
      \<and> uu s3 = uu s2 \<and> kst.more s3 = kst.more s2"
    using wakeup_more [OF q2, of "a_shlock s2 ip"] q2 by auto
  then obtain s3 where s3: "(if c = 0 then if tst flags ILWAIT then wakeup (a_shlock s2 ip) s2 else Inr s2 else Inr s2) = Inr s3" "procs_ok s3"
    "uu s3 = uu s2" "kst.more s3 = kst.more s2" by blast
  note m = fd_more [OF s3(4)]
  let ?s4 = "updf fp (\<lambda>r. r\<lparr>f_flag := f_flag r AND NOT FEXLOCK\<rparr>) s3"
  have "(if i_exlockc (inodes s1 ip) = 0
         then let st = updi ip (\<lambda>n. n\<lparr>i_flag := i_flag n AND NOT (IEXLOCK OR ILWAIT)\<rparr>) s1 in if tst flags ILWAIT then wakeup (a_shlock st ip) st else Inr st
         else Inr s1) = Inr s3" using s3(1) by (simp add: s1_def s2_def Let_def c_def split: if_splits)
  then have "unlock_ex fp ip flags st = Inr ?s4" unfolding unlock_ex_def Let_def s1_def [symmetric] by simp
  moreover have "procs_ok ?s4" using s3(2) procs_ok_env [of ?s4 s3] by simp
  ultimately show ?thesis unfolding lock_step_def using s2 s3(3) m by auto
qed

lemma locks_okI:
  assumes "tallied (holders FSHLOCK (files st)) (\<lambda>ip. i_shlockc (inodes st ip)) (\<lambda>ip. tst (i_flag (inodes st ip)) ISHLOCK)"
    and "tallied (holders FEXLOCK (files st)) (\<lambda>ip. i_exlockc (inodes st ip)) (\<lambda>ip. tst (i_flag (inodes st ip)) IEXLOCK)"
    and "\<And>ip fp. fp \<in> holders FEXLOCK (files st) ip \<Longrightarrow> holders FEXLOCK (files st) ip = {fp} \<and> holders FSHLOCK (files st) ip = {}"
    and "\<And>fp. fp < NFILE \<Longrightarrow> tst (f_of st f_flag fp) (FSHLOCK OR FEXLOCK) \<Longrightarrow>
      f_of st f_type fp = DTYPE_INODE \<and> f_of st f_data fp \<noteq> None \<and> f_of st f_count fp \<noteq> 0"
  shows "locks_ok st"
  unfolding locks_ok_def using assms by blast

lemma locks_okD:
  assumes "locks_ok st"
  shows "tallied (holders FSHLOCK (files st)) (\<lambda>ip. i_shlockc (inodes st ip)) (\<lambda>ip. tst (i_flag (inodes st ip)) ISHLOCK)"
    "tallied (holders FEXLOCK (files st)) (\<lambda>ip. i_exlockc (inodes st ip)) (\<lambda>ip. tst (i_flag (inodes st ip)) IEXLOCK)"
    "\<And>ip fp. fp \<in> holders FEXLOCK (files st) ip \<Longrightarrow> holders FEXLOCK (files st) ip = {fp} \<and> holders FSHLOCK (files st) ip = {}"
    "\<And>fp. fp < NFILE \<Longrightarrow> tst (f_of st f_flag fp) (FSHLOCK OR FEXLOCK) \<Longrightarrow>
      f_of st f_type fp = DTYPE_INODE \<and> f_of st f_data fp \<noteq> None \<and> f_of st f_count fp \<noteq> 0"
  using assms unfolding locks_ok_def by blast+

lemma tst_clear_part: "m AND NOT v = 0 \<Longrightarrow> \<not> tst (w AND NOT v) m" for w v m :: "'b::len word"
  by (auto simp: tst_bit_mask bit_eq_iff bit_simps)

lemma unlock_sh_ok:
  assumes i: "fd_ok ex D st os" and fp: "fp < NFILE" "tst (f_of st f_flag fp) FSHLOCK" "f_of st f_data fp = Some ip"
  shows "\<exists>st'. unlock_sh fp ip flags st = Inr st' \<and> fd_ok ex D st' os \<and> uu st' = uu st
    \<and> files st' = (files st)(fp := (files st fp)\<lparr>f_flag := f_of st f_flag fp AND NOT FSHLOCK\<rparr>)"
proof -
  let ?r = "(files st fp)\<lparr>f_flag := f_of st f_flag fp AND NOT FSHLOCK\<rparr>"
  have q: "procs_ok st" by (rule fd_okD(1) [OF i])
  define c where "c = (i_shlockc (inodes st ip) - 1) mod 65536"
  define w where "w = i_flag (inodes st ip)"
  from unlock_sh_step [OF q, of fp ip flags] obtain st' where s: "unlock_sh fp ip flags st = Inr st'"
    "lock_step fp ip ?r ((inodes st ip)\<lparr>i_shlockc := c, i_flag := (if c = 0 then w AND NOT ISHLOCK else w)\<rparr>) st st'" unfolding c_def w_def by blast
  note l = locks_okD [OF fd_okD(9) [OF i]]
  have f: "files st' = (files st)(fp := ?r)"
    and n: "inodes st' = (inodes st)(ip := (inodes st ip)\<lparr>i_shlockc := c, i_flag := (if c = 0 then w AND NOT ISHLOCK else w)\<rparr>)"
    using s(2) by (simp_all add: lock_step_def)
  have h: "holders FSHLOCK (files st') = (holders FSHLOCK (files st))(ip := holders FSHLOCK (files st) ip - {fp})"
    "holders FEXLOCK (files st') = holders FEXLOCK (files st)"
    unfolding f by (rule holders_clear, rule fp(3), rule holders_clear_other) simp
  have b: "tst (if c = 0 then w AND NOT ISHLOCK else w) ISHLOCK = (tst w ISHLOCK \<and> c \<noteq> 0)" "tst (if c = 0 then w AND NOT ISHLOCK else w) IEXLOCK = tst w IEXLOCK"
    using tst_clear [of w ISHLOCK] tst_bits_and [of ISHLOCK IEXLOCK w] by auto
  have "fp \<in> holders FSHLOCK (files st) ip" using fp by (simp add: holders_def)
  then have "tallied (holders FSHLOCK (files st')) ((\<lambda>ip. i_shlockc (inodes st ip))(ip := c)) ((\<lambda>ip. tst (i_flag (inodes st ip)) ISHLOCK)(ip := tst w ISHLOCK \<and> c \<noteq> 0))"
    unfolding h w_def c_def by (rule tallied_release [OF l(1)])
  moreover have "(\<lambda>ip. i_shlockc (inodes st' ip)) = (\<lambda>ip. i_shlockc (inodes st ip))(ip := c)"
    "(\<lambda>ip. tst (i_flag (inodes st' ip)) ISHLOCK) = (\<lambda>ip. tst (i_flag (inodes st ip)) ISHLOCK)(ip := tst w ISHLOCK \<and> c \<noteq> 0)"
    "(\<lambda>ip. i_exlockc (inodes st' ip)) = (\<lambda>ip. i_exlockc (inodes st ip))" "(\<lambda>ip. tst (i_flag (inodes st' ip)) IEXLOCK) = (\<lambda>ip. tst (i_flag (inodes st ip)) IEXLOCK)"
    using b by (auto simp: n w_def fun_eq_iff)
  ultimately have "locks_ok st'"
    using l h tst_clear_imp [of "f_of st f_flag fp" FSHLOCK "FSHLOCK OR FEXLOCK"] by (intro locks_okI) (auto simp: f)
  then have "fd_ok ex D st' os" by (intro lock_step_fd [OF i s(2)]) simp_all
  then show ?thesis using s f unfolding lock_step_def by blast
qed
lemma unlock_ex_ok:
  assumes i: "fd_ok ex D st os" and fp: "fp < NFILE" "tst (f_of st f_flag fp) FEXLOCK" "f_of st f_data fp = Some ip"
  shows "\<exists>st'. unlock_ex fp ip flags st = Inr st' \<and> fd_ok ex D st' os \<and> uu st' = uu st
    \<and> files st' = (files st)(fp := (files st fp)\<lparr>f_flag := f_of st f_flag fp AND NOT FEXLOCK\<rparr>)"
proof -
  let ?r = "(files st fp)\<lparr>f_flag := f_of st f_flag fp AND NOT FEXLOCK\<rparr>"
  have q: "procs_ok st" by (rule fd_okD(1) [OF i])
  define c where "c = (i_exlockc (inodes st ip) - 1) mod 65536"
  define w where "w = i_flag (inodes st ip)"
  from unlock_ex_step [OF q, of fp ip flags] obtain st' where s: "unlock_ex fp ip flags st = Inr st'"
    "lock_step fp ip ?r ((inodes st ip)\<lparr>i_exlockc := c, i_flag := (if c = 0 then w AND NOT (IEXLOCK OR ILWAIT) else w)\<rparr>) st st'" unfolding c_def w_def by blast
  note l = locks_okD [OF fd_okD(9) [OF i]]
  have f: "files st' = (files st)(fp := ?r)"
    and n: "inodes st' = (inodes st)(ip := (inodes st ip)\<lparr>i_exlockc := c, i_flag := (if c = 0 then w AND NOT (IEXLOCK OR ILWAIT) else w)\<rparr>)"
    using s(2) by (simp_all add: lock_step_def)
  have h: "holders FEXLOCK (files st') = (holders FEXLOCK (files st))(ip := holders FEXLOCK (files st) ip - {fp})"
    "holders FSHLOCK (files st') = holders FSHLOCK (files st)"
    unfolding f by (rule holders_clear, rule fp(3), rule holders_clear_other) simp
  have b: "tst (if c = 0 then w AND NOT (IEXLOCK OR ILWAIT) else w) IEXLOCK = (tst w IEXLOCK \<and> c \<noteq> 0)" "tst (if c = 0 then w AND NOT (IEXLOCK OR ILWAIT) else w) ISHLOCK = tst w ISHLOCK"
    using tst_clear_part [of IEXLOCK "IEXLOCK OR ILWAIT" w] tst_bits_and [of "IEXLOCK OR ILWAIT" ISHLOCK w] by auto
  have "fp \<in> holders FEXLOCK (files st) ip" using fp by (simp add: holders_def)
  then have "tallied (holders FEXLOCK (files st')) ((\<lambda>ip. i_exlockc (inodes st ip))(ip := c)) ((\<lambda>ip. tst (i_flag (inodes st ip)) IEXLOCK)(ip := tst w IEXLOCK \<and> c \<noteq> 0))"
    unfolding h w_def c_def by (rule tallied_release [OF l(2)])
  moreover have "(\<lambda>ip. i_exlockc (inodes st' ip)) = (\<lambda>ip. i_exlockc (inodes st ip))(ip := c)"
    "(\<lambda>ip. tst (i_flag (inodes st' ip)) IEXLOCK) = (\<lambda>ip. tst (i_flag (inodes st ip)) IEXLOCK)(ip := tst w IEXLOCK \<and> c \<noteq> 0)"
    "(\<lambda>ip. i_shlockc (inodes st' ip)) = (\<lambda>ip. i_shlockc (inodes st ip))" "(\<lambda>ip. tst (i_flag (inodes st' ip)) ISHLOCK) = (\<lambda>ip. tst (i_flag (inodes st ip)) ISHLOCK)"
    using b by (auto simp: n w_def fun_eq_iff)
  moreover have "holders FEXLOCK (files st') ip' = {x} \<and> holders FSHLOCK (files st') ip' = {}" if "x \<in> holders FEXLOCK (files st') ip'" for ip' x
  proof (cases "ip' = ip")
    case True
    then show ?thesis using that l(3) [of fp ip] fp unfolding h by (simp add: holders_def)
  next
    case False
    then show ?thesis using that l(3) [of x ip'] unfolding h by simp
  qed
  ultimately have "locks_ok st'"
    using l(1,4) h(2) tst_clear_imp [of "f_of st f_flag fp" FEXLOCK "FSHLOCK OR FEXLOCK"] by (intro locks_okI) (auto simp: f)
  then have "fd_ok ex D st' os" by (intro lock_step_fd [OF i s(2)]) simp_all
  then show ?thesis using s f unfolding lock_step_def by blast
qed

lemma ino_unlock_ok:
  assumes i: "fd_ok ex D st os" and fp: "fp < NFILE"
  shows "\<exists>st' w. ino_unlock fp kind st = Inr st' \<and> fd_ok ex D st' os \<and> uu st' = uu st \<and> files st' = (files st)(fp := (files st fp)\<lparr>f_flag := w\<rparr>)
    \<and> (f_of st f_data fp \<noteq> None \<longrightarrow> (\<forall>b \<in> {FSHLOCK, FEXLOCK}. tst w b = (tst (f_of st f_flag fp) b \<and> \<not> tst kind b)))"
proof (cases "f_of st f_data fp")
  case None
  then show ?thesis using i by (intro exI [of _ st] exI [of _ "f_of st f_flag fp"]) (simp add: ino_unlock_def)
next
  case (Some ip)
  define k where "k = kind AND f_of st f_flag fp"
  have b: "tst k b = (tst kind b \<and> tst (f_of st f_flag fp) b)" if "b \<in> {FSHLOCK, FEXLOCK}" for b
  proof -
    have "b = push_bit 4 1 \<or> b = push_bit 5 1" using that by (simp add: push_bit_eq_mult)
    then obtain n where n: "b = push_bit n 1" by blast
    show ?thesis unfolding n tst_push_bit k_def by (simp add: bit_and_iff)
  qed
  show ?thesis
  proof (cases "k = 0")
    case True
    then show ?thesis using i Some b by (intro exI [of _ st] exI [of _ "f_of st f_flag fp"]) (auto simp: ino_unlock_def k_def)
  next
    case False
    let ?w1 = "if tst k FSHLOCK then f_of st f_flag fp AND NOT FSHLOCK else f_of st f_flag fp" and ?fl = "i_flag (inodes st ip)"
    have "\<exists>s1. (if tst k FSHLOCK then unlock_sh fp ip ?fl st else Inr st) = Inr s1 \<and> fd_ok ex D s1 os \<and> uu s1 = uu st
        \<and> files s1 = (files st)(fp := (files st fp)\<lparr>f_flag := ?w1\<rparr>)"
      using unlock_sh_ok [OF i fp _ Some, of ?fl] b [of FSHLOCK] i by auto
    then obtain s1 where s1: "(if tst k FSHLOCK then unlock_sh fp ip ?fl st else Inr st) = Inr s1" "fd_ok ex D s1 os" "uu s1 = uu st"
      "files s1 = (files st)(fp := (files st fp)\<lparr>f_flag := ?w1\<rparr>)" by blast
    let ?w2 = "if tst k FEXLOCK then ?w1 AND NOT FEXLOCK else ?w1"
    have d: "f_of s1 f_data fp = Some ip" "f_of s1 f_flag fp = ?w1" using s1(4) Some by simp_all
    have o: "tst (w AND NOT FSHLOCK) FEXLOCK = tst w FEXLOCK" "tst (w AND NOT FEXLOCK) FSHLOCK = tst w FSHLOCK" for w :: u32
      by (rule tst_bits_and, simp)+
    have "tst (f_of s1 f_flag fp) FEXLOCK" if "tst k FEXLOCK" using that b [of FEXLOCK] o unfolding d(2) by simp
    then have "\<exists>s2. (if tst k FEXLOCK then unlock_ex fp ip ?fl s1 else Inr s1) = Inr s2 \<and> fd_ok ex D s2 os \<and> uu s2 = uu st
        \<and> files s2 = (files st)(fp := (files st fp)\<lparr>f_flag := ?w2\<rparr>)"
      using unlock_ex_ok [OF s1(2) fp _ d(1), of ?fl] s1 d by auto
    moreover have "\<forall>b \<in> {FSHLOCK, FEXLOCK}. tst ?w2 b = (tst (f_of st f_flag fp) b \<and> \<not> tst kind b)"
      using b [of FSHLOCK] b [of FEXLOCK] o tst_clear [of _ FSHLOCK] tst_clear [of _ FEXLOCK] by auto
    ultimately show ?thesis using s1(1) False Some by (auto simp: ino_unlock_def k_def [symmetric] Let_def)
  qed
qed

subsection \<open>The table of file operations\<close>

text \<open>
  What the code relies on: closing and controlling a file returns, and leaves the descriptors, the
  file table and the locks alone, except that closing may take the inode from the file that is
  closed and clear the flags of an inode without locks.
\<close>

definition quiet :: "nat set \<Rightarrow> 'a fdst_scheme \<Rightarrow> 'a fdst_scheme \<Rightarrow> bool" where
  "quiet C st st' \<longleftrightarrow> procs_ok st' \<and> lastf st' = lastf st \<and> cur st' = cur st
     \<and> (\<forall>i. f_of st' f_count i = f_of st f_count i \<and> f_of st' f_flag i = f_of st f_flag i \<and> f_of st' f_type i = f_of st f_type i
          \<and> (i \<notin> C \<longrightarrow> f_of st' f_data i = f_of st f_data i))
     \<and> (\<forall>ip. i_shlockc (inodes st' ip) = i_shlockc (inodes st ip) \<and> i_exlockc (inodes st' ip) = i_exlockc (inodes st ip)
          \<and> (tst (i_flag (inodes st' ip)) ISHLOCK = tst (i_flag (inodes st ip)) ISHLOCK \<and> tst (i_flag (inodes st' ip)) IEXLOCK = tst (i_flag (inodes st ip)) IEXLOCK
             \<or> i_shlockc (inodes st ip) = 0 \<and> i_exlockc (inodes st ip) = 0 \<and> \<not> tst (i_flag (inodes st' ip)) (ISHLOCK OR IEXLOCK)))"

definition fops_ok :: "'a fdst_scheme fo_close \<Rightarrow> 'a fdst_scheme fo_ioctl \<Rightarrow> bool" where
  "fops_ok cl io \<longleftrightarrow> (\<forall>ty fp st. procs_ok st \<longrightarrow>
     (\<exists>e st'. cl ty fp st = Inr (e, st') \<and> quiet {fp} st st') \<and> (\<forall>com v. \<exists>e v' st'. io ty fp com v st = Inr (e, v', st') \<and> quiet {} st st'))"

lemma quiet_lock:
  assumes q: "quiet C st st'" and l: "locks_ok st" and c: "\<forall>fp \<in> C. \<not> tst (f_of st f_flag fp) (FSHLOCK OR FEXLOCK)"
  shows "lock_same st st'"
proof -
  have z: "i_shlockc (inodes st ip) = 0 \<longrightarrow> \<not> tst (i_flag (inodes st ip)) ISHLOCK" "i_exlockc (inodes st ip) = 0 \<longrightarrow> \<not> tst (i_flag (inodes st ip)) IEXLOCK" for ip
    using locks_okD(1,2) [OF l] finite_subset [of _ "{..<NFILE}"] unfolding tallied_def by auto
  have "tst (i_flag (inodes st' ip)) ISHLOCK = tst (i_flag (inodes st ip)) ISHLOCK \<and> tst (i_flag (inodes st' ip)) IEXLOCK = tst (i_flag (inodes st ip)) IEXLOCK" for ip
    using q z [of ip] tst_or_mask [of "i_flag (inodes st' ip)" ISHLOCK IEXLOCK] unfolding quiet_def by auto
  then show ?thesis using q c unfolding lock_same_def quiet_def by (metis (no_types, lifting))
qed

end
