(* ===== verification/Fileops.thy ===== *)
theory Fileops
  imports Filecount
begin

text \<open>
  The system calls on descriptors keep the reference counts and the locks: each operation of theory
  \<open>Files\<close>, and then any sequence of them by any number of processes.
\<close>

subsection \<open>Small steps\<close>

text \<open>An assignment to the descriptor table that changes no reference.\<close>

lemma fd_ok_tab:
  assumes i: "fd_ok ex D st os" and t: "tab_ok (cur st')" and f: "fst (cur st') = fst (cur st)"
    and e: "files st' = files st" "inodes st' = inodes st" "lastf st' = lastf st" "procs st' = procs st" "qs st' = qs st" "slpque st' = slpque st" "pidhash st' = pidhash st"
  shows "fd_ok ex D st' os"
proof -
  have "refs_ok ex st' os" using fd_okD(6) [OF i] refs_ok_cong [OF e(1) f] by simp
  moreover have "locks_ok st'" using fd_okD(9) [OF i] unfolding locks_ok_def e .
  ultimately show ?thesis using i t e procs_ok_env [OF e(4-7)] unfolding fd_ok_def by simp
qed

lemma tab_okD:
  assumes "tab_ok t"
  shows "length (fst t) = NOFILE" "length (fst (snd t)) = NOFILE" "snd (snd t) < int NOFILE" "-1 \<le> snd (snd t)"
    "\<And>i. i < NOFILE \<Longrightarrow> snd (snd t) < int i \<Longrightarrow> fst t ! i = None" "\<And>fp. Some fp \<in> set (fst t) \<Longrightarrow> fp < NFILE"
  using assms unfolding tab_ok_def by auto

lemma tab_raise: "tab_ok t \<Longrightarrow> i < NOFILE \<Longrightarrow> tab_ok (fst t, fst (snd t), max (int i) (snd (snd t)))"
  unfolding tab_ok_def by auto

lemma tab_pofile: "tab_ok t \<Longrightarrow> tab_ok (fst t, (fst (snd t))[i := w], snd (snd t))"
  unfolding tab_ok_def by simp

lemma tab_ofile:
  assumes "tab_ok t" "i < NOFILE" "v = None \<or> int i \<le> snd (snd t)" "\<And>fp. v = Some fp \<Longrightarrow> fp < NFILE"
  shows "tab_ok ((fst t)[i := v], snd t)"
  using assms set_update_subset_insert [of "fst t" i v] unfolding tab_ok_def by (auto simp: nth_list_update)

lemma last_used_spec:
  "last_used n fs < int n \<and> -1 \<le> last_used n fs \<and> (\<forall>i < n. last_used n fs < int i \<longrightarrow> fs ! i = None)"
  by (induction n) (auto simp: less_Suc_eq)

lemma tab_lower:
  assumes "tab_ok t"
  shows "tab_ok (fst t, fst (snd t), last_used (nat (snd (snd t) + 1)) (fst t))"
proof -
  note t = tab_okD [OF assms] and l = last_used_spec [of "nat (snd (snd t) + 1)" "fst t"]
  have "fst t ! i = None" if "i < NOFILE" "last_used (nat (snd (snd t) + 1)) (fst t) < int i" for i
    using t(5) [OF that(1)] l that(2) by (cases "snd (snd t) < int i") auto
  then show ?thesis using assms l unfolding tab_ok_def by auto
qed

lemma fd_assign_ok:
  assumes "fd_ok ex D st os"
  shows "fd_ok ex D (set_rval v st) os" "fd_ok ex D (set_error e st) os" "fd_ok ex D (set_pofile i w st) os"
    "fd_ok ex D (lower_lastfile st) os" "j < NOFILE \<Longrightarrow> fd_ok ex D (raise_lastfile j st) os"
  using fd_okD(3) [OF assms] by (intro fd_ok_tab [OF assms]; simp add: tab_pofile tab_lower tab_raise)+

lemma fd_ok_ofile:
  assumes i: "fd_ok ex D st os" and j: "j < NOFILE" "v = None \<or> int j \<le> snd (snd (cur st))" "\<And>fp. v = Some fp \<Longrightarrow> fp < NFILE"
    and e: "ex' = (\<lambda>fp. ex fp + bump (ofile st j) fp - bump v fp)" "\<And>fp. ex' fp \<le> 30"
  shows "fd_ok ex' D (set_ofile j v st) os"
proof -
  have t: "tab_ok (cur st)" by (rule fd_okD(3) [OF i])
  have "refs_ok ex' (set_ofile j v st) os" unfolding e(1) using refs_ok_ofile [OF fd_okD(6) [OF i]] tab_okD(1) [OF t] j(1) by simp
  moreover have "tab_ok (cur (set_ofile j v st))" using tab_ofile [OF t j] by simp
  moreover have "locks_ok (set_ofile j v st)" using fd_okD(9) [OF i] by (simp add: locks_ok_def)
  moreover have "procs_ok (set_ofile j v st) = procs_ok st" by (rule procs_ok_env) simp_all
  ultimately show ?thesis using i e(2) unfolding fd_ok_def by simp
qed

lemma fd_ok_inc:
  assumes i: "fd_ok ex D st os" and fp: "fp < NFILE" "f_of st f_count fp \<noteq> 0" and e: "ex' = (\<lambda>x. ex x + bump (Some fp) x)" "\<And>x. ex' x \<le> 30"
  shows "fd_ok ex' D (updf fp (\<lambda>r. r\<lparr>f_count := f_count r + 1\<rparr>) st) os"
proof -
  let ?s = "updf fp (\<lambda>r. r\<lparr>f_count := f_count r + 1\<rparr>) st"
  have "uint (f_count (files st fp) + 1) \<noteq> 0" using uint_inc [OF fd_small [OF i fp(1)]] uint_ge_0 [of "f_count (files st fp)"] by linarith
  then have "f_count (files st fp) + 1 \<noteq> 0" by force
  then have "lock_same st ?s" by (auto simp: lock_same_def)
  then have "locks_ok ?s" by (rule locks_ok_same [OF fd_okD(9) [OF i]])
  moreover have "refs_ok ex' ?s os" unfolding e(1) using fd_small [OF i] by (intro refs_ok_inc fd_okD(6) [OF i]) blast
  moreover have "procs_ok ?s = procs_ok st" by (rule procs_ok_env) simp_all
  ultimately show ?thesis using i e(2) fp unfolding fd_ok_def by auto
qed

subsection \<open>Closing\<close>

lemma fd_ok_dec:
  assumes i: "fd_ok ex D st os" and fp: "fp < NFILE" "f_of st f_count fp > 1"
  shows "fd_ok (\<lambda>x. ex x - bump (Some fp) x) D (updf fp (\<lambda>r. r\<lparr>f_count := f_count r - 1\<rparr>) st) os"
proof -
  let ?s = "updf fp (\<lambda>r. r\<lparr>f_count := f_count r - 1\<rparr>) st"
  have u: "uint (w - 1) = uint w - 1" if "w > 1" for w :: u32 using that uint_lt2p [of w] by (simp add: word_less_def uint_word_ariths)
  then have "f_of st f_count fp - 1 \<noteq> 0" using fp(2) by auto
  then have "locks_ok ?s" by (intro locks_ok_same [OF fd_okD(9) [OF i]]) (auto simp: lock_same_def)
  moreover have "refs_ok (\<lambda>x. ex x - bump (Some fp) x) ?s os" using fd_okD(6) [OF i] u [OF fp(2)] by (auto simp: refs_ok_def bump_def)
  moreover have "procs_ok ?s = procs_ok st" by (rule procs_ok_env) simp_all
  moreover have "ex x - bump (Some fp) x \<le> 30" for x using fd_okD(7) [OF i, of x] by (simp add: bump_def)
  ultimately show ?thesis using i fp unfolding fd_ok_def by auto
qed

lemma fd_ok_free:
  assumes i: "fd_ok ex D st os" and fp: "fp < NFILE" "f_of st f_count fp = 1" "\<not> tst (f_of st f_flag fp) (FSHLOCK OR FEXLOCK)"
  shows "fd_ok (\<lambda>x. ex x - bump (Some fp) x) D (updf fp (\<lambda>r. r\<lparr>f_count := 0\<rparr>) st) os"
proof -
  let ?s = "updf fp (\<lambda>r. r\<lparr>f_count := 0\<rparr>) st"
  have "locks_ok ?s" using fp(3) by (intro locks_ok_same [OF fd_okD(9) [OF i]]) (auto simp: lock_same_def)
  moreover have "refs_ok (\<lambda>x. ex x - bump (Some fp) x) ?s os" using fd_okD(6) [OF i] fp(1,2) by (auto simp: refs_ok_def bump_def)
  moreover have "procs_ok ?s = procs_ok st" by (rule procs_ok_env) simp_all
  moreover have "ex x - bump (Some fp) x \<le> 30" for x using fd_okD(7) [OF i, of x] by (simp add: bump_def)
  ultimately show ?thesis using i fp unfolding fd_ok_def by auto
qed

lemma closef_ok:
  assumes i: "fd_ok ex D st os" and h: "fops_ok cl io" and fp: "fp < NFILE" "f_of st f_count fp \<noteq> 0"
  shows "\<exists>e st'. closef cl (Some fp) st = Inr (e, st') \<and> fd_ok (\<lambda>x. ex x - bump (Some fp) x) D st' os \<and> cur st' = cur st"
proof (cases "f_of st f_count fp > 1")
  case True
  then show ?thesis using fd_ok_dec [OF i fp(1)] by (simp add: closef_def)
next
  case False
  then have one: "f_of st f_count fp = 1" using fp(2) by (metis linorder_neqE word_less_1)
  note l = locks_okD [OF fd_okD(9) [OF i]]
  let ?b = "FSHLOCK OR FEXLOCK :: u32"
  have "\<exists>s1 w. (if tst (f_of st f_flag fp) ?b \<and> f_of st f_type fp = DTYPE_INODE then ino_unlock fp ?b st else Inr st) = Inr s1
      \<and> fd_ok ex D s1 os \<and> uu s1 = uu st \<and> files s1 = (files st)(fp := (files st fp)\<lparr>f_flag := w\<rparr>) \<and> \<not> tst w ?b"
  proof (cases "tst (f_of st f_flag fp) ?b")
    case True
    then have "f_of st f_type fp = DTYPE_INODE" "f_of st f_data fp \<noteq> None" using l(4) [OF fp(1)] by blast+
    then show ?thesis using ino_unlock_ok [OF i fp(1), of ?b] True tst_or_mask [of _ FSHLOCK FEXLOCK] by (auto simp: tst_def)
  next
    case False
    then show ?thesis using i by (intro exI [of _ st] exI [of _ "f_of st f_flag fp"]) simp
  qed
  then obtain s1 w where s1: "(if tst (f_of st f_flag fp) ?b \<and> f_of st f_type fp = DTYPE_INODE then ino_unlock fp ?b st else Inr st) = Inr s1"
    "fd_ok ex D s1 os" "uu s1 = uu st" "files s1 = (files st)(fp := (files st fp)\<lparr>f_flag := w\<rparr>)" "\<not> tst w ?b" by blast
  obtain e s2 where s2: "cl (f_of s1 f_type fp) fp s1 = Inr (e, s2)" "quiet {fp} s1 s2"
    using h fd_okD(1) [OF s1(2)] unfolding fops_ok_def by blast
  have "lock_same s1 s2" using s1(4,5) by (intro quiet_lock [OF s2(2) fd_okD(9) [OF s1(2)]]) simp
  then have l2: "locks_ok s2" by (rule locks_ok_same [OF fd_okD(9) [OF s1(2)]])
  have n: "f_of s2 f_count fp = 1" "f_of s2 f_flag fp = w" "cur s2 = cur st" using s2(2) s1(3,4) one by (simp_all add: quiet_def cur_def)
  have "refs_ok ex s2 os" using fd_okD(6) [OF s1(2)] s2(2) by (simp add: refs_ok_def quiet_def)
  then have "fd_ok ex (insert fp D) s2 os" using s1(2) s2(2) l2 unfolding fd_ok_def quiet_def by (auto simp: n(3))
  from fd_ok_free [OF this fp(1) n(1)] s1(5) n(2)
  have "fd_ok (\<lambda>x. ex x - bump (Some fp) x) (insert fp D) (updf fp (\<lambda>r. r\<lparr>f_count := 0\<rparr>) s2) os" by simp
  then have "fd_ok (\<lambda>x. ex x - bump (Some fp) x) D (updf fp (\<lambda>r. r\<lparr>f_count := 0\<rparr>) s2) os" unfolding fd_ok_def by auto
  moreover have "closef cl (Some fp) st = Inr (e, updf fp (\<lambda>r. r\<lparr>f_count := 0\<rparr>) s2)"
    using False s1(1) s2(1) by (simp add: closef_def)
  ultimately show ?thesis using n(3) by auto
qed

subsection \<open>Descriptors\<close>

abbreviation fd_inv :: "'a fdst_scheme \<Rightarrow> dtab list \<Rightarrow> bool" where
  "fd_inv \<equiv> fd_ok (\<lambda>_. 0) {}"

lemma count_list_pos: "i < length xs \<Longrightarrow> xs ! i = x \<Longrightarrow> 0 < count_list xs x"
  by (metis count_notin nth_mem not_gr0 count_list_0_iff)

lemma open_fd:
  assumes i: "fd_ok ex D st os" and d: "d < NOFILE" "ofile st d = Some fp"
  shows "fp < NFILE" "int d \<le> snd (snd (cur st))" "0 \<le> ex fp \<Longrightarrow> f_of st f_count fp \<noteq> 0"
proof -
  note t = tab_okD [OF fd_okD(3) [OF i]]
  have m: "fst (cur st) ! d = Some fp" using d(2) by (simp add: ofile_cur)
  then have "Some fp \<in> set (fst (cur st))" using t(1) d(1) nth_mem [of d "fst (cur st)"] by auto
  then show f: "fp < NFILE" by (rule t(6))
  show "int d \<le> snd (snd (cur st))" using t(5) [OF d(1)] m by (cases "snd (snd (cur st)) < int d") auto
  assume "0 \<le> ex fp"
  moreover have "0 < refs fp (cur st # os)" using count_list_pos [of d "fst (cur st)"] t(1) d(1) m by (simp add: refs_def)
  moreover have "uint (f_of st f_count fp) = int (refs fp (cur st # os)) + ex fp" using fd_okD(6) [OF i] f by (simp add: refs_ok_def)
  ultimately show "f_of st f_count fp \<noteq> 0" by auto
qed

lemma getf_ok:
  assumes "fd_inv st os" and "getf f st = (r, st')"
  shows "fd_inv st' os" and "r = Some fp \<Longrightarrow> st' = st \<and> 0 \<le> f \<and> nat f < NOFILE \<and> ofile st (nat f) = Some fp \<and> fp < NFILE \<and> f_of st f_count fp \<noteq> 0"
proof -
  show "fd_inv st' os" using assms fd_assign_ok(2) [OF assms(1)] by (auto simp: getf_def split: if_splits option.splits)
  assume r: "r = Some fp"
  then have "st' = st" "0 \<le> f" "nat f < NOFILE" "ofile st (nat f) = Some fp" using assms(2) by (auto simp: getf_def split: if_splits option.splits)
  then show "st' = st \<and> 0 \<le> f \<and> nat f < NOFILE \<and> ofile st (nat f) = Some fp \<and> fp < NFILE \<and> f_of st f_count fp \<noteq> 0"
    using open_fd [OF assms(1)] by simp
qed

lemma ufalloc_ok:
  assumes i: "fd_ok (\<lambda>_. 0) D st os" and u: "ufalloc k st = (r, st')"
  shows "fd_ok (\<lambda>_. 0) D st' os" and "files st' = files st" and "r = Some j \<Longrightarrow> j < NOFILE \<and> ofile st' j = None \<and> int j \<le> snd (snd (cur st')) \<and> fst (cur st') = fst (cur st) \<and> u_rval (uu st') = int j"
proof -
  have f: "j < NOFILE \<and> ofile st j = None" if "find (\<lambda>j. ofile st j = None) [k..<NOFILE] = Some j" for j
    using that by (auto simp: find_Some_iff)
  show "fd_ok (\<lambda>_. 0) D st' os" using u f fd_assign_ok(2) [OF i] fd_assign_ok(5) [OF fd_assign_ok(3) [OF fd_assign_ok(1) [OF i]]]
    by (auto simp: ufalloc_def split: option.splits)
  show "files st' = files st" using u by (auto simp: ufalloc_def split: option.splits)
  assume "r = Some j"
  then have r: "find (\<lambda>j. ofile st j = None) [k..<NOFILE] = Some j" and s: "st' = raise_lastfile j (set_pofile j 0 (set_rval (int j) st))"
    using u by (auto simp: ufalloc_def split: option.splits)
  have "u_rval (uu st') = int j" unfolding s by (simp add: fd_assign_defs)
  then show "j < NOFILE \<and> ofile st' j = None \<and> int j \<le> snd (snd (cur st')) \<and> fst (cur st') = fst (cur st) \<and> u_rval (uu st') = int j"
    using f [OF r] unfolding s by (simp add: ofile_cur)
qed

lemma dupit_eq: "dupit d fp w st = updf fp (\<lambda>r. r\<lparr>f_count := f_count r + 1\<rparr>) (set_ofile d (Some fp) (raise_lastfile d (set_pofile d w st)))"
  by (simp add: dupit_def fd_assign_defs updf_def updu_def)

lemma dupit_ok:
  assumes i: "fd_ok (\<lambda>x. - bump (ofile st d) x) {} st os" and d: "d < NOFILE" and fp: "fp < NFILE" "f_of st f_count fp \<noteq> 0"
  shows "fd_inv (dupit d fp w st) os"
proof -
  let ?s = "raise_lastfile d (set_pofile d w st)"
  have o: "ofile ?s d = ofile st d" by (simp add: ofile_cur)
  have "fd_ok (\<lambda>x. - bump (ofile st d) x) {} ?s os" by (rule fd_assign_ok(5) [OF fd_assign_ok(3) [OF i] d])
  then have "fd_ok (\<lambda>x. - bump (Some fp) x) {} (set_ofile d (Some fp) ?s) os"
    by (rule fd_ok_ofile [OF _ d]) (auto simp: o bump_def fp)
  then show ?thesis unfolding dupit_eq by (rule fd_ok_inc) (auto simp: fp bump_def)
qed

lemma fd_inv_closed: "fd_inv st os \<Longrightarrow> ofile st d = None \<Longrightarrow> fd_ok (\<lambda>x. - bump (ofile st d) x) {} st os"
  by (simp add: bump_def)

lemma dup_new_ok:
  assumes i: "fd_inv st os" and fp: "fp < NFILE" "f_of st f_count fp \<noteq> 0" and u: "ufalloc k st = (Some j, st')"
  shows "fd_inv (dupit j fp w st') os"
proof -
  note a = ufalloc_ok [OF i u]
  have j: "j < NOFILE" "ofile st' j = None" using a(3) by blast+
  show ?thesis by (rule dupit_ok [OF fd_inv_closed [OF a(1) j(2)] j(1) fp(1)]) (simp add: a(2) fp(2))
qed

subsection \<open>System calls\<close>

definition fd_goes :: "dtab list \<Rightarrow> 'a fdst_scheme res \<Rightarrow> bool" where
  "fd_goes os m \<longleftrightarrow> (\<exists>st'. m = Inr st' \<and> fd_inv st' os)"

lemma fd_goesI: "fd_inv st os \<Longrightarrow> fd_goes os (Inr st)"
  by (simp add: fd_goes_def)

lemma fd_goes_if: "fd_goes os a \<Longrightarrow> fd_goes os b \<Longrightarrow> fd_goes os (if c then a else b)"
  by simp

lemma close_ok:
  assumes i: "fd_inv st os" and h: "fops_ok cl io"
  shows "fd_goes os (close cl st)"
proof (cases "getf (sarg st 0) st")
  case (Pair r s)
  show ?thesis
  proof (cases r)
    case None
    then show ?thesis using Pair getf_ok(1) [OF i Pair] by (simp add: close_def fd_goesI)
  next
    case (Some fp)
    note g = getf_ok(2) [OF i Pair Some]
    let ?d = "nat (sarg st 0)"
    have "fd_ok (\<lambda>x. bump (Some fp) x) {} (set_ofile ?d None st) os"
      using g by (intro fd_ok_ofile [OF i]) (auto simp: bump_def)
    then have j: "fd_ok (\<lambda>x. bump (Some fp) x) {} (lower_lastfile (set_ofile ?d None st)) os" by (rule fd_assign_ok(4))
    from closef_ok [OF j h, of fp] g obtain e st' where "closef cl (Some fp) (lower_lastfile (set_ofile ?d None st)) = Inr (e, st')" "fd_inv st' os" by auto
    then show ?thesis using Pair Some g fd_assign_ok(2) by (simp add: close_def fd_goes_def)
  qed
qed

lemma two_refs:
  assumes "i \<noteq> j" "i < length xs" "j < length xs" "xs ! i = x" "xs ! j = x" "x \<noteq> v"
  shows "2 \<le> count_list xs x"
  using count_list_update [of j xs v x] count_list_pos [of i "xs[j := v]" x] assms by simp

lemma dup2_ok:
  assumes i: "fd_inv st os" and h: "fops_ok cl io"
  shows "fd_goes os (dup2 cl st)"
proof (cases "getf (sarg st 0) st")
  case (Pair r s)
  show ?thesis
  proof (cases r)
    case None
    then show ?thesis using Pair getf_ok(1) [OF i Pair] by (simp add: dup2_def fd_goesI)
  next
    case (Some fp)
    note g = getf_ok(2) [OF i Pair Some]
    define n j where "n = nat (sarg st 0)" and "j = sarg st 1"
    define t where "t = set_rval j st"
    have it: "fd_inv t os" and tf: "files t = files st" "cur t = cur st" "sarg t 0 = sarg st 0"
      using fd_assign_ok(1) [OF i] by (simp_all add: t_def sarg_def set_rval_def cur_def)
    consider "j < 0 \<or> j \<ge> int NOFILE" | "0 \<le> j" "j < int NOFILE" "sarg st 0 = j" | "0 \<le> j" "j < int NOFILE" "sarg st 0 \<noteq> j" by linarith
    then show ?thesis
    proof cases
      case 1
      then show ?thesis using Pair Some g fd_assign_ok(2) [OF i] by (simp add: dup2_def fd_goesI j_def)
    next
      case 2
      then show ?thesis using Pair Some g it tf(3) by (simp add: dup2_def fd_goesI j_def t_def Let_def)
    next
      case 3
      have m: "nat j < NOFILE" "n \<noteq> nat j" "n < NOFILE" "ofile t n = Some fp" using 3 g by (auto simp: n_def ofile_cur tf(2))
      let ?m = "if ofile t (nat j) \<noteq> None then rbind (closef cl (ofile t (nat j)) t) (\<lambda>(_, st). Inr st) else Inr t"
      have "\<exists>s1. ?m = Inr s1 \<and> fd_ok (\<lambda>x. - bump (ofile t (nat j)) x) {} s1 os \<and> cur s1 = cur t"
      proof (cases "ofile t (nat j)")
        case None
        then show ?thesis using fd_inv_closed [OF it] by simp
      next
        case (Some old)
        from open_fd [OF it m(1) this] closef_ok [OF it h] obtain e s1 where
          "closef cl (Some old) t = Inr (e, s1)" "fd_ok (\<lambda>x. 0 - bump (Some old) x) {} s1 os" "cur s1 = cur t" by blast
        then show ?thesis using Some by simp
      qed
      then obtain s1 where s1: "?m = Inr s1" "fd_ok (\<lambda>x. - bump (ofile t (nat j)) x) {} s1 os" "cur s1 = cur t" by blast
      have o: "ofile s1 (nat j) = ofile t (nat j)" by (simp add: ofile_cur s1(3))
      have "f_of s1 f_count fp \<noteq> 0"
      proof (cases "ofile t (nat j) = Some fp")
        case True
        then have "2 \<le> count_list (fst (cur s1)) (Some fp)"
          using m tab_okD(1) [OF fd_okD(3) [OF it]] by (intro two_refs [of n "nat j" _ _ None]) (simp_all add: ofile_cur s1(3))
        moreover have "uint (f_of s1 f_count fp) = int (refs fp (cur s1 # os)) - 1" using fd_okD(6) [OF s1(2)] g True by (simp add: refs_ok_def bump_def)
        ultimately show ?thesis by (auto simp: refs_def)
      next
        case False
        then show ?thesis using open_fd(3) [OF s1(2) m(3)] m(4) by (simp add: ofile_cur s1(3) bump_def)
      qed
      then have "fd_inv (dupit (nat j) fp (u_pofile (uu s1) ! n AND NOT UF_EXCLOSE) s1) os"
        using dupit_ok [of s1 "nat j" os fp] s1(2) m(1) g by (simp add: o)
      moreover have "dup2 cl st = Inr (dupit (nat j) fp (u_pofile (uu s1) ! n AND NOT UF_EXCLOSE) s1)"
      proof -
        have e: "getf (sarg st 0) st = (Some fp, st)" using Pair Some g by simp
        show ?thesis unfolding dup2_def e prod.case option.case Let_def j_def [symmetric] n_def [symmetric] t_def [symmetric]
          using 3 s1(1) tf(3) by simp
      qed
      ultimately show ?thesis by (simp add: fd_goesI)
    qed
  qed
qed

lemma fd_ok_updu:
  assumes "fd_ok ex D st os" and "\<And>u. u_ofile (g u) = u_ofile u \<and> u_pofile (g u) = u_pofile u \<and> u_lastfile (g u) = u_lastfile u"
  shows "fd_ok ex D (updu g st) os"
proof (rule fd_ok_tab [OF assms(1)])
  have "cur (updu g st) = cur st" using assms(2) by (simp add: cur_def)
  then show "tab_ok (cur (updu g st))" "fst (cur (updu g st)) = fst (cur st)" using fd_okD(3) [OF assms(1)] by simp_all
qed simp_all

lemma dup_ok:
  assumes i: "fd_inv st os" and h: "fops_ok cl io"
  shows "fd_goes os (dup cl st)"
proof (cases "uarg st 0 AND NOT 0x3f \<noteq> 0")
  case True
  then show ?thesis using dup2_ok [OF fd_ok_updu [OF i] h] by (simp add: dup_def)
next
  case F: False
  show ?thesis
  proof (cases "getf (sarg st 0) st")
    case (Pair r s)
    note g = getf_ok [OF i Pair]
    show ?thesis
    proof (cases r)
      case None
      then show ?thesis using F Pair g(1) by (simp add: dup_def fd_goesI)
    next
      case (Some fp)
      show ?thesis using F Pair Some g(2) [OF Some] ufalloc_ok(1) [OF i, of 0] dup_new_ok [OF i, of fp 0]
        by (auto simp: dup_def intro!: fd_goesI split: prod.splits option.splits)
    qed
  qed
qed

lemma fd_ok_flag:
  assumes i: "fd_ok ex D st os" and w: "tst w FSHLOCK = tst (f_of st f_flag fp) FSHLOCK" "tst w FEXLOCK = tst (f_of st f_flag fp) FEXLOCK"
  shows "fd_ok ex D (updf fp (\<lambda>r. r\<lparr>f_flag := w\<rparr>) st) os"
proof (rule fd_ok_same [OF i])
  have "procs_ok (updf fp (\<lambda>r. r\<lparr>f_flag := w\<rparr>) st) = procs_ok st" by (rule procs_ok_env) simp_all
  then show "fd_same st (updf fp (\<lambda>r. r\<lparr>f_flag := w\<rparr>) st)" using fd_okD(1) [OF i] w by (simp add: fd_same_def lock_same_def)
qed

lemma quiet_ok:
  assumes i: "fd_ok ex D st os" and q: "quiet {} st st'"
  shows "fd_ok ex D st' os"
proof (rule fd_ok_same [OF i])
  show "fd_same st st'" using q quiet_lock [OF q fd_okD(9) [OF i]] by (simp add: fd_same_def quiet_def)
qed

lemma ioctl_ok:
  assumes "fops_ok cl io" "fd_inv st os"
  shows "\<exists>e v' st'. io ty fp com v st = Inr (e, v', st') \<and> fd_inv st' os \<and> (\<forall>i. f_of st' f_flag i = f_of st f_flag i \<and> f_of st' f_count i = f_of st f_count i)"
proof -
  from assms fd_okD(1) [OF assms(2)] obtain e v' st' where "io ty fp com v st = Inr (e, v', st')" "quiet {} st st'" unfolding fops_ok_def by blast
  then show ?thesis using quiet_ok [OF assms(2)] by (simp add: quiet_def)
qed

lemma fset_ok:
  assumes h: "fops_ok cl io" and i: "fd_inv st os" and b: "b = FNONBLOCK \<or> b = FASYNC"
  shows "\<exists>e st'. fset io fp b v st = Inr (e, st') \<and> fd_inv st' os"
proof -
  have z: "b AND FSHLOCK = 0" "b AND FEXLOCK = 0" using b by auto
  define w where "w = (if v \<noteq> 0 then f_of st f_flag fp OR b else f_of st f_flag fp AND NOT b)"
  define s where "s = updf fp (\<lambda>r. r\<lparr>f_flag := (if v \<noteq> 0 then f_flag r OR b else f_flag r AND NOT b)\<rparr>) st"
  have "s = updf fp (\<lambda>r. r\<lparr>f_flag := w\<rparr>) st" by (simp add: s_def w_def updf_def)
  moreover have "tst w FSHLOCK = tst (f_of st f_flag fp) FSHLOCK" "tst w FEXLOCK = tst (f_of st f_flag fp) FEXLOCK"
    using tst_bits_or [OF z(1)] tst_bits_or [OF z(2)] tst_bits_and [OF z(1)] tst_bits_and [OF z(2)] by (simp_all add: w_def)
  ultimately have "fd_inv s os" using fd_ok_flag [OF i] by simp
  from ioctl_ok [OF h this, of "f_of s f_type fp" fp "if b = FNONBLOCK then FIONBIO else FIOASYNC" "sint v"]
  show ?thesis unfolding fset_def Let_def s_def [symmetric] by auto
qed

lemma setfl_ok:
  assumes h: "fops_ok cl io" and i: "fd_inv st os"
  shows "fd_goes os (fcntl_setfl io fp a st)"
proof -
  define w where "w = (f_of st f_flag fp AND NOT FCNTLFLAGS) OR ((a + 1) AND FCNTLFLAGS)"
  define s where "s = updf fp (\<lambda>r. r\<lparr>f_flag := (f_flag r AND NOT FCNTLFLAGS) OR ((a + 1) AND FCNTLFLAGS)\<rparr>) st"
  have z: "((a + 1) AND FCNTLFLAGS) AND FSHLOCK = 0" "((a + 1) AND FCNTLFLAGS) AND FEXLOCK = 0" by (simp_all add: and.assoc)
  have "tst w FSHLOCK = tst (f_of st f_flag fp) FSHLOCK" "tst w FEXLOCK = tst (f_of st f_flag fp) FEXLOCK"
    unfolding w_def tst_bits_or [OF z(1)] tst_bits_or [OF z(2)] by (rule tst_bits_and, simp)+
  moreover have "s = updf fp (\<lambda>r. r\<lparr>f_flag := w\<rparr>) st" by (simp add: s_def w_def updf_def)
  ultimately have "fd_inv s os" using fd_ok_flag [OF i] by simp
  from fset_ok [OF h this, of FNONBLOCK fp] obtain e1 s1 where s1: "fset io fp FNONBLOCK (f_of s f_flag fp AND FNONBLOCK) s = Inr (e1, s1)" "fd_inv s1 os" by blast
  let ?t = "set_error e1 s1"
  have t: "fd_inv ?t os" by (rule fd_assign_ok(2) [OF s1(2)])
  from fset_ok [OF h t, of FASYNC fp] obtain e2 s2 where s2: "fset io fp FASYNC (f_of ?t f_flag fp AND FASYNC) ?t = Inr (e2, s2)" "fd_inv s2 os" by blast
  have u: "fd_inv (set_error e2 s2) os" by (rule fd_assign_ok(2) [OF s2(2)])
  from fset_ok [OF h u, of FNONBLOCK fp] obtain e3 s3 where s3: "fset io fp FNONBLOCK 0 (set_error e2 s2) = Inr (e3, s3)" "fd_inv s3 os" by blast
  show ?thesis unfolding fcntl_setfl_def Let_def s_def [symmetric] s1(1) rbind_Inr prod.case s2(1) s3(1) using t u s3(2) by (auto intro: fd_goesI)
qed

lemma fsetown_ok:
  assumes h: "fops_ok cl io" and i: "fd_inv st os"
  shows "\<exists>e st'. fsetown io fp v st = Inr (e, st') \<and> fd_inv st' os"
proof -
  obtain hs where "hash_ok st hs" using fd_okD(1) [OF i] unfolding procs_ok_def by blast
  then obtain r where r: "pfind st v = Inr r" using pfind_find by blast
  have io: "\<exists>e st'. rbind (io (f_of st f_type fp) fp TIOCSPGRP u st) (\<lambda>(e, _, st). Inr (e, st)) = Inr (e, st') \<and> fd_inv st' os" for u
    using ioctl_ok [OF h i, of "f_of st f_type fp" fp TIOCSPGRP u] by auto
  show ?thesis
  proof (cases "v > 0")
    case True
    show ?thesis using True r i io by (cases r) (simp_all add: fsetown_def Let_def)
  next
    case False
    then show ?thesis using io by (simp add: fsetown_def Let_def)
  qed
qed

lemma fgetown_ok:
  assumes h: "fops_ok cl io" and i: "fd_inv st os"
  shows "\<exists>e u st'. fgetown io fp v st = Inr (e, u, st') \<and> fd_inv st' os"
  using ioctl_ok [OF h i, of "f_of st f_type fp" fp TIOCGPGRP v] by (auto simp: fgetown_def)

lemma fcntl_ok:
  assumes i: "fd_inv st os" and h: "fops_ok cl io"
  shows "fd_goes os (fcntl io st)"
proof (cases "getf (sarg st 0) st")
  case (Pair r s)
  show ?thesis
  proof (cases r)
    case None
    then show ?thesis using Pair getf_ok(1) [OF i Pair] by (simp add: fcntl_def fd_goesI)
  next
    case (Some fp)
    note g = getf_ok(2) [OF i Pair Some]
    have e: "getf (sarg st 0) st = (Some fp, st)" using Pair Some g by simp
    note a = fd_assign_ok [OF i]
    have 0: "fd_goes os (case ufalloc k st of (None, st) \<Rightarrow> Inr st | (Some j, st) \<Rightarrow> Inr (dupit j fp (u_pofile (uu st) ! d AND NOT UF_EXCLOSE) st))" for k d
      using g ufalloc_ok(1) [OF i, of k] dup_new_ok [OF i, of fp k] by (auto intro!: fd_goesI split: prod.splits option.splits)
    have 5: "fd_goes os (rbind (fgetown io fp v st) (\<lambda>(e, v, st). Inr (set_error e (set_rval v st))))" for v
      using fgetown_ok [OF h i, of fp v] by (auto intro!: fd_goesI fd_assign_ok(1,2))
    have 6: "fd_goes os (rbind (fsetown io fp v st) (\<lambda>(e, st). Inr (set_error e st)))" for v
      using fsetown_ok [OF h i, of fp v] by (auto intro!: fd_goesI fd_assign_ok(2))
    show ?thesis unfolding fcntl_def e prod.case option.case Let_def
      by (intro fd_goes_if 0 5 6 setfl_ok [OF h i] fd_goesI a(1-3))
  qed
qed

subsection \<open>Locking\<close>

definition lockable :: "nat \<Rightarrow> nat \<Rightarrow> 'a fdst_scheme \<Rightarrow> bool" where
  "lockable fp ip st \<longleftrightarrow> fp < NFILE \<and> f_of st f_count fp \<noteq> 0 \<and> f_of st f_type fp = DTYPE_INODE \<and> f_of st f_data fp = Some ip"

lemma grab_ex_ok:
  assumes i: "fd_ok ex D st os" and l: "lockable fp ip st" and n: "\<not> tst (i_flag (inodes st ip)) IEXLOCK" "\<not> tst (i_flag (inodes st ip)) ISHLOCK"
  shows "fd_ok ex D (updf fp (\<lambda>r. r\<lparr>f_flag := f_flag r OR FEXLOCK\<rparr>)
    (updi ip (\<lambda>n. n\<lparr>i_exlockc := (i_exlockc n + 1) mod 65536, i_flag := i_flag n OR IEXLOCK\<rparr>) st)) os" (is "fd_ok ex D ?s os")
proof -
  note k = locks_okD [OF fd_okD(9) [OF i]]
  have d: "f_data (files st fp) = Some ip" "fp < NFILE" using l by (simp_all add: lockable_def)
  have e: "holders FEXLOCK (files st) ip = {}" "holders FSHLOCK (files st) ip = {}" using k(1,2) n unfolding tallied_def by blast+
  have f: "files ?s = (files st)(fp := (files st fp)\<lparr>f_flag := f_of st f_flag fp OR FEXLOCK\<rparr>)" by simp
  have h: "holders FEXLOCK (files ?s) = (holders FEXLOCK (files st))(ip := insert fp (holders FEXLOCK (files st) ip))"
    "holders FSHLOCK (files ?s) = holders FSHLOCK (files st)"
    unfolding f by (rule holders_set, rule d(1), rule d(2), simp, rule holders_set_other) simp
  have "tst (i_flag (inodes st ip) OR IEXLOCK) IEXLOCK" "tst (i_flag (inodes st ip) OR IEXLOCK) ISHLOCK = tst (i_flag (inodes st ip)) ISHLOCK"
    by (simp_all add: tst_or) (simp_all add: tst_def)
  then have v: "(\<lambda>ip. i_exlockc (inodes ?s ip)) = (\<lambda>ip. i_exlockc (inodes st ip))(ip := (i_exlockc (inodes st ip) + 1) mod 65536)"
    "(\<lambda>ip. tst (i_flag (inodes ?s ip)) IEXLOCK) = (\<lambda>ip. tst (i_flag (inodes st ip)) IEXLOCK)(ip := True)"
    "(\<lambda>ip. i_shlockc (inodes ?s ip)) = (\<lambda>ip. i_shlockc (inodes st ip))" "(\<lambda>ip. tst (i_flag (inodes ?s ip)) ISHLOCK) = (\<lambda>ip. tst (i_flag (inodes st ip)) ISHLOCK)"
    by (auto simp: fun_eq_iff)
  have x: "holders FEXLOCK (files ?s) ip' = {x} \<and> holders FSHLOCK (files ?s) ip' = {}" if "x \<in> holders FEXLOCK (files ?s) ip'" for ip' x
    using that e k(3) [of x ip'] unfolding h by (cases "ip' = ip") auto
  have "tallied (holders FEXLOCK (files ?s)) (\<lambda>ip. i_exlockc (inodes ?s ip)) (\<lambda>ip. tst (i_flag (inodes ?s ip)) IEXLOCK)"
    unfolding h v by (rule tallied_grab [OF k(2)]) (simp_all add: e(1) d)
  then have lk: "locks_ok ?s" by (rule locks_okI [rotated]) (use k(1,4) h(2) x v(3,4) l in \<open>auto simp: lockable_def tst_or\<close>)
  have ls: "lock_step fp ip (files ?s fp) (inodes ?s ip) st ?s" using fd_okD(1) [OF i] procs_ok_env [of ?s st] by (simp add: lock_step_def)
  show ?thesis by (rule lock_step_fd [OF i ls _ _ lk]) simp_all
qed
lemma grab_sh_ok:
  assumes i: "fd_ok ex D st os" and l: "lockable fp ip st" and n: "\<not> tst (i_flag (inodes st ip)) IEXLOCK" "\<not> tst (f_of st f_flag fp) FSHLOCK"
  shows "fd_ok ex D (updf fp (\<lambda>r. r\<lparr>f_flag := f_flag r OR FSHLOCK\<rparr>)
    (updi ip (\<lambda>n. n\<lparr>i_shlockc := (i_shlockc n + 1) mod 65536, i_flag := i_flag n OR ISHLOCK\<rparr>) st)) os" (is "fd_ok ex D ?s os")
proof -
  note k = locks_okD [OF fd_okD(9) [OF i]]
  have d: "f_data (files st fp) = Some ip" "fp < NFILE" using l by (simp_all add: lockable_def)
  have e: "fp \<notin> holders FSHLOCK (files st) ip" "holders FEXLOCK (files st) ip = {}" using k(2) n unfolding tallied_def holders_def by blast+
  have f: "files ?s = (files st)(fp := (files st fp)\<lparr>f_flag := f_of st f_flag fp OR FSHLOCK\<rparr>)" by simp
  have h: "holders FSHLOCK (files ?s) = (holders FSHLOCK (files st))(ip := insert fp (holders FSHLOCK (files st) ip))"
    "holders FEXLOCK (files ?s) = holders FEXLOCK (files st)"
    unfolding f by (rule holders_set, rule d(1), rule d(2), simp, rule holders_set_other) simp
  have "tst (i_flag (inodes st ip) OR ISHLOCK) ISHLOCK" "tst (i_flag (inodes st ip) OR ISHLOCK) IEXLOCK = tst (i_flag (inodes st ip)) IEXLOCK"
    by (simp_all add: tst_or) (simp_all add: tst_def)
  then have v: "(\<lambda>ip. i_shlockc (inodes ?s ip)) = (\<lambda>ip. i_shlockc (inodes st ip))(ip := (i_shlockc (inodes st ip) + 1) mod 65536)"
    "(\<lambda>ip. tst (i_flag (inodes ?s ip)) ISHLOCK) = (\<lambda>ip. tst (i_flag (inodes st ip)) ISHLOCK)(ip := True)"
    "(\<lambda>ip. i_exlockc (inodes ?s ip)) = (\<lambda>ip. i_exlockc (inodes st ip))" "(\<lambda>ip. tst (i_flag (inodes ?s ip)) IEXLOCK) = (\<lambda>ip. tst (i_flag (inodes st ip)) IEXLOCK)"
    by (auto simp: fun_eq_iff)
  have x: "holders FEXLOCK (files ?s) ip' = {x} \<and> holders FSHLOCK (files ?s) ip' = {}" if "x \<in> holders FEXLOCK (files ?s) ip'" for ip' x
    using that e k(3) [of x ip'] unfolding h by (cases "ip' = ip") auto
  have "tallied (holders FSHLOCK (files ?s)) (\<lambda>ip. i_shlockc (inodes ?s ip)) (\<lambda>ip. tst (i_flag (inodes ?s ip)) ISHLOCK)"
    unfolding h v by (rule tallied_grab [OF k(1)]) (simp_all add: e(1) d)
  then have lk: "locks_ok ?s" by (rule locks_okI) (use k(2,4) h(2) x v(3,4) l in \<open>auto simp: lockable_def tst_or\<close>)
  have ls: "lock_step fp ip (files ?s fp) (inodes ?s ip) st ?s" using fd_okD(1) [OF i] procs_ok_env [of ?s st] by (simp add: lock_step_def)
  show ?thesis by (rule lock_step_fd [OF i ls _ _ lk]) simp_all
qed

lemma ino_grant_ok:
  assumes i: "fd_ok ex D st os" and l: "lockable fp ip st" and n: "\<not> tst (i_flag (inodes st ip)) IEXLOCK"
    and x: "tst cmd LOCK_EX \<Longrightarrow> \<not> tst (i_flag (inodes st ip)) ISHLOCK"
  shows "fd_ok ex D (ino_grant fp ip cmd st) os \<and> cur (ino_grant fp ip cmd st) = cur st \<and> (\<forall>j. f_of (ino_grant fp ip cmd st) f_count j = f_of st f_count j)"
proof (cases "tst cmd LOCK_EX")
  case True
  have "\<not> tst (cmd AND NOT LOCK_SH) LOCK_SH" by (rule tst_clear)
  then show ?thesis using True grab_ex_ok [OF i l n x [OF True]] by (simp add: ino_grant_def)
next
  case False
  then show ?thesis using grab_sh_ok [OF i l n] i by (simp add: ino_grant_def)
qed

lemma fd_ok_lwait:
  assumes i: "fd_ok ex D st os"
  shows "fd_ok ex D (updi ip (\<lambda>n. n\<lparr>i_flag := i_flag n OR ILWAIT\<rparr>) st) os"
proof (rule fd_ok_same [OF i])
  let ?s = "updi ip (\<lambda>n. n\<lparr>i_flag := i_flag n OR ILWAIT\<rparr>) st"
  have "tst (w OR ILWAIT) ISHLOCK = tst w ISHLOCK" "tst (w OR ILWAIT) IEXLOCK = tst w IEXLOCK" for w :: u32 by (rule tst_bits_or, simp)+
  then show "fd_same st ?s" using procs_ok_env [of ?s st] fd_okD(1) [OF i] by (simp add: fd_same_def lock_same_def)
qed

primrec lk_st :: "'s lk \<Rightarrow> 's" where
  "lk_st (Lk_ret e s) = s"
| "lk_st (Lk_sleep p s) = s"

text \<open>A lock call returns, with the counts of the files and the descriptors as they were.\<close>

definition locks_go :: "'a fdst_scheme \<Rightarrow> dtab list \<Rightarrow> 'a fdst_scheme lk res \<Rightarrow> bool" where
  "locks_go st os m \<longleftrightarrow> (\<exists>r. m = Inr r \<and> fd_inv (lk_st r) os \<and> cur (lk_st r) = cur st \<and> (\<forall>j. f_of (lk_st r) f_count j = f_of st f_count j))"

definition bits :: "u32 \<Rightarrow> nat" where
  "bits w = (if tst w FSHLOCK then 1 else 0) + (if tst w FEXLOCK then 1 else 0)"

lemma ino_lock_go_ok:
  assumes "fd_inv st os" and "lockable fp ip st" and "bits (f_of st f_flag fp) < n"
  shows "locks_go st os (ino_lock_go n fp ip cmd st)"
  using assms
proof (induction n arbitrary: st)
  case (Suc n)
  have d: "f_of st f_data fp \<noteq> None" "fp < NFILE" using Suc.prems(2) by (simp_all add: lockable_def)
  have give: "locks_go st os (rbind (ino_unlock fp b st) (ino_lock_go n fp ip cmd))" if b: "b \<in> {FSHLOCK, FEXLOCK}" "tst (f_of st f_flag fp) b" for b
  proof -
    from ino_unlock_ok [OF Suc.prems(1) d(2), of b] obtain s w where s: "ino_unlock fp b st = Inr s" "fd_inv s os" "uu s = uu st"
      "files s = (files st)(fp := (files st fp)\<lparr>f_flag := w\<rparr>)" "\<forall>c \<in> {FSHLOCK, FEXLOCK}. tst w c = (tst (f_of st f_flag fp) c \<and> \<not> tst b c)" using d(1) by blast
    have "lockable fp ip s" using Suc.prems(2) s(4) by (simp add: lockable_def)
    moreover have "bits (f_of s f_flag fp) < bits (f_of st f_flag fp)" using s(4,5) b by (auto simp: bits_def tst_def)
    ultimately have "locks_go s os (ino_lock_go n fp ip cmd s)" using Suc.IH [OF s(2)] Suc.prems(3) by linarith
    then show ?thesis using s(1,3,4) by (auto simp: locks_go_def cur_def)
  qed
  have stay: "locks_go st os (Inr (Lk_ret e st))" "locks_go st os (Inr (Lk_sleep p (updi ip (\<lambda>n. n\<lparr>i_flag := i_flag n OR ILWAIT\<rparr>) st)))" for e p
    using Suc.prems(1) fd_ok_lwait [OF Suc.prems(1)] by (simp_all add: locks_go_def)
  show ?case using give stay ino_grant_ok [OF Suc.prems(1,2)] by (simp add: locks_go_def)
qed simp

lemma ino_lock_ok:
  assumes "fd_inv st os" and "lockable fp ip st"
  shows "locks_go st os (ino_lock fp cmd st)"
proof -
  have "bits (f_of st f_flag fp) < 3" by (simp add: bits_def)
  from ino_lock_go_ok [OF assms this] show ?thesis using assms(2) by (simp add: ino_lock_def lockable_def)
qed

lemma flock_ok:
  assumes i: "fd_inv st os"
  shows "\<exists>r. flock st = Inr r \<and> fd_inv (lk_st r) os"
proof (cases "getf (sarg st 0) st")
  case (Pair r s)
  show ?thesis
  proof (cases r)
    case None
    then show ?thesis using Pair getf_ok(1) [OF i Pair] by (simp add: flock_def)
  next
    case (Some fp)
    note g = getf_ok(2) [OF i Pair Some]
    have e: "getf (sarg st 0) st = (Some fp, st)" using Pair Some g by simp
    show ?thesis
    proof (cases "f_of st f_type fp = DTYPE_INODE")
      case True
      obtain ip where "lockable fp ip st" using g True fd_okD(8) [OF i, of fp] by (auto simp: lockable_def)
      note k = ino_lock_ok [OF i this]
      have "\<exists>r. rbind (ino_lock fp how st) (\<lambda>r. Inr (flock_end r)) = Inr r \<and> fd_inv (lk_st r) os" for how
        using k [of how] fd_assign_ok(2) unfolding locks_go_def flock_end_def by (auto split: lk.splits)
      moreover have "\<exists>r. rbind (ino_unlock fp k st) (\<lambda>st. Inr (Lk_ret 0 st)) = Inr r \<and> fd_inv (lk_st r) os" for k
        using ino_unlock_ok [OF i, of fp k] g by auto
      ultimately show ?thesis using i True unfolding flock_def e prod.case option.case Let_def by simp
    next
      case False
      then show ?thesis using fd_assign_ok(2) [OF i] by (simp add: flock_def e)
    qed
  qed
qed

end
