(* ===== verification/Filerun.thy ===== *)
theory Filerun
  imports Fileops
begin

text \<open>
  Opening files, creating processes and ending them keep the reference counts of files exact, and
  so does any sequence of system calls of any number of processes.
\<close>

subsection \<open>Opening\<close>

lemma fd_ok_lastf: "fd_ok ex D st os \<Longrightarrow> n \<le> NFILE \<Longrightarrow> fd_ok ex D (st\<lparr>lastf := n\<rparr>) os"
proof -
  assume i: "fd_ok ex D st os" "n \<le> NFILE"
  have "cur (st\<lparr>lastf := n\<rparr>) = cur st" by (simp add: cur_def)
  moreover have "procs_ok (st\<lparr>lastf := n\<rparr>) = procs_ok st" by (rule procs_ok_env) simp_all
  ultimately show ?thesis using i unfolding fd_ok_def refs_ok_def locks_ok_def by simp
qed

lemma fd_ok_new:
  assumes i: "fd_ok (\<lambda>x. - bump (Some fp) x) D st os" and fp: "fp < NFILE" "f_of st f_count fp = 0"
  shows "fd_ok (\<lambda>_. 0) (insert fp D) (updf fp (\<lambda>r. r\<lparr>f_count := 1, f_data := None, f_offset := 0\<rparr>) st) os"
proof -
  let ?s = "updf fp (\<lambda>r. r\<lparr>f_count := 1, f_data := None, f_offset := 0\<rparr>) st"
  have "\<not> tst (f_of st f_flag fp) (FSHLOCK OR FEXLOCK)" using locks_okD(4) [OF fd_okD(9) [OF i] fp(1)] fp(2) by blast
  then have "locks_ok ?s" by (intro locks_ok_same [OF fd_okD(9) [OF i]]) (auto simp: lock_same_def)
  moreover have "refs_ok (\<lambda>_. 0) ?s os" using fd_okD(6) [OF i] fp by (auto simp: refs_ok_def bump_def)
  moreover have "procs_ok ?s = procs_ok st" by (rule procs_ok_env) simp_all
  ultimately show ?thesis using i unfolding fd_ok_def by auto
qed

text \<open>A file that has just been allocated: descriptor \<open>j\<close> refers to it, and it has no lock and no inode.\<close>

definition fresh :: "nat set \<Rightarrow> nat \<Rightarrow> nat \<Rightarrow> 'a fdst_scheme \<Rightarrow> dtab list \<Rightarrow> bool" where
  "fresh D fp j st os \<longleftrightarrow> fd_ok (\<lambda>_. 0) (insert fp D) st os \<and> fp < NFILE \<and> j < NOFILE \<and> ofile st j = Some fp \<and> f_of st f_count fp = 1
     \<and> \<not> tst (f_of st f_flag fp) (FSHLOCK OR FEXLOCK)"

lemma falloc_ok:
  assumes i: "fd_ok (\<lambda>_. 0) D st os" and a: "falloc st = (r, st')"
  shows "r = None \<Longrightarrow> fd_ok (\<lambda>_. 0) D st' os" and "r = Some fp \<Longrightarrow> fresh D fp (nat (u_rval (uu st'))) st' os \<and> 0 \<le> u_rval (uu st')"
proof -
  obtain q s where u: "ufalloc 0 st = (q, s)" by (cases "ufalloc 0 st")
  note v = ufalloc_ok [OF i u]
  show "r = None \<Longrightarrow> fd_ok (\<lambda>_. 0) D st' os" using a u v(1) fd_assign_ok(2) [OF v(1)] by (auto simp: falloc_def split: option.splits)
  assume "r = Some fp"
  then obtain j where j: "q = Some j" and f: "find (\<lambda>fp. f_of s f_count fp = 0) ([lastf s..<NFILE] @ [0..<lastf s]) = Some fp"
    and st': "st' = (updf fp (\<lambda>r. r\<lparr>f_count := 1, f_data := None, f_offset := 0\<rparr>) (set_ofile j (Some fp) s))\<lparr>lastf := fp + 1\<rparr>"
    using a u by (auto simp: falloc_def split: option.splits)
  note w = v(3) [OF j]
  have m: "fp \<in> set ([lastf s..<NFILE] @ [0..<lastf s])" "f_of s f_count fp = 0" using f nth_mem unfolding find_Some_iff by blast+
  then have fp: "fp < NFILE" using fd_okD(2) [OF v(1)] by auto
  have s1: "fd_ok (\<lambda>x. - bump (Some fp) x) D (set_ofile j (Some fp) s) os"
    using w fp by (intro fd_ok_ofile [OF v(1)]) (auto simp: bump_def)
  have "fd_ok (\<lambda>_. 0) (insert fp D) (updf fp (\<lambda>r. r\<lparr>f_count := 1, f_data := None, f_offset := 0\<rparr>) (set_ofile j (Some fp) s)) os"
    by (rule fd_ok_new [OF s1 fp]) (simp add: m(2))
  then have "fd_ok (\<lambda>_. 0) (insert fp D) st' os" unfolding st' using fp by (intro fd_ok_lastf) simp_all
  moreover have "\<not> tst (f_of s f_flag fp) (FSHLOCK OR FEXLOCK)" using locks_okD(4) [OF fd_okD(9) [OF v(1)] fp] m(2) by blast
  moreover have "u_rval (uu st') = int j" using w by (simp add: st' set_ofile_def updf_def)
  moreover have "ofile st' j = Some fp" using w tab_okD(1) [OF fd_okD(3) [OF v(1)]] by (simp add: st' ofile_def set_ofile_def updf_def cur_def)
  ultimately show "fresh D fp (nat (u_rval (uu st'))) st' os \<and> 0 \<le> u_rval (uu st')" using w fp unfolding fresh_def by (simp add: st')
qed

lemma fd_ok_lower_D: "fd_ok ex (insert fp D) st os \<Longrightarrow> f_of st f_count fp = 0 \<or> f_of st f_data fp \<noteq> None \<Longrightarrow> fd_ok ex D st os"
  unfolding fd_ok_def by auto

lemma fresh_upd:
  assumes "fresh D fp j st os" and "\<And>r. f_count (g r) = f_count r" "\<And>r. \<not> tst (f_flag (g r)) (FSHLOCK OR FEXLOCK)"
  shows "fresh D fp j (updf fp g st) os"
proof -
  let ?s = "updf fp g st"
  have i: "fd_ok (\<lambda>_. 0) (insert fp D) st os" and n: "\<not> tst (f_of st f_flag fp) (FSHLOCK OR FEXLOCK)" using assms(1) by (simp_all add: fresh_def)
  have b: "\<not> tst (f_of st f_flag fp) FSHLOCK" "\<not> tst (f_of st f_flag fp) FEXLOCK" "\<not> tst (f_flag (g r)) FSHLOCK" "\<not> tst (f_flag (g r)) FEXLOCK" for r
    using n assms(3) [of r] unfolding tst_or_mask by blast+
  have "locks_ok ?s" using b n by (intro locks_ok_same [OF fd_okD(9) [OF i]]) (auto simp: lock_same_def)
  moreover have "refs_ok (\<lambda>_. 0) ?s os" using fd_okD(6) [OF i] assms(2) by (simp add: refs_ok_def)
  moreover have "procs_ok ?s = procs_ok st" by (rule procs_ok_env) simp_all
  ultimately have "fd_ok (\<lambda>_. 0) (insert fp D) ?s os" using i unfolding fd_ok_def by auto
  then show ?thesis using assms unfolding fresh_def by (simp add: ofile_cur)
qed

lemma fresh_updu:
  assumes "fresh D fp j st os" and "\<And>u. u_ofile (g u) = u_ofile u \<and> u_pofile (g u) = u_pofile u \<and> u_lastfile (g u) = u_lastfile u"
  shows "fresh D fp j (updu g st) os"
  using assms fd_ok_updu [of "\<lambda>_. 0" "insert fp D" st os g] unfolding fresh_def by (simp add: ofile_def)

lemma copen_begin_ok:
  assumes i: "fd_inv st os" and a: "copen_begin mode st = (r, st')"
  shows "r = None \<Longrightarrow> fd_inv st' os" and "r = Some fp \<Longrightarrow> fresh {} fp (nat (u_rval (uu st'))) st' os"
proof -
  obtain q s where u: "falloc st = (q, s)" by (cases "falloc st")
  note v = falloc_ok [OF i u]
  show "r = None \<Longrightarrow> fd_inv st' os" using a u v(1) by (auto simp: copen_begin_def split: option.splits)
  assume r: "r = Some fp"
  then have q: "q = Some fp" and st': "st' = updu (\<lambda>u. u\<lparr>u_dupfd := - u_rval u - 1\<rparr>)
     (updf fp (\<lambda>r. r\<lparr>f_flag := (mode + 1) AND FMASK, f_type := DTYPE_INODE\<rparr>) s)"
    using a u by (auto simp: copen_begin_def split: option.splits)
  have "((mode + 1) AND FMASK) AND (FSHLOCK OR FEXLOCK) = 0" by (simp add: and.assoc)
  then have "fresh {} fp (nat (u_rval (uu s))) (updf fp (\<lambda>r. r\<lparr>f_flag := (mode + 1) AND FMASK, f_type := DTYPE_INODE\<rparr>) s) os"
    using v(2) [OF q] by (intro fresh_upd) (simp_all add: tst_def)
  then show "fresh {} fp (nat (u_rval (uu st'))) st' os" unfolding st' by (intro fresh_updu) simp_all
qed

lemma fresh_gone:
  assumes "fresh D fp j st os"
  shows "fd_ok (\<lambda>x. - bump (Some fp) x) D (updf fp (\<lambda>r. r\<lparr>f_count := 0\<rparr>) st) os"
proof -
  from fd_ok_free [of "\<lambda>_. 0" "insert fp D" st os fp] assms
  have "fd_ok (\<lambda>x. - bump (Some fp) x) (insert fp D) (updf fp (\<lambda>r. r\<lparr>f_count := 0\<rparr>) st) os" by (simp add: fresh_def)
  then show ?thesis by (rule fd_ok_lower_D) simp
qed

lemma drop_ofile:
  assumes "fd_ok (\<lambda>x. - bump (Some fp) x) {} st os" and "j < NOFILE" "ofile st j = Some fp"
  shows "fd_inv (set_ofile j None st) os"
  using assms by (intro fd_ok_ofile [OF assms(1,2)]) (auto simp: bump_def)

lemma copen_failed_ok:
  assumes f: "fresh {} fp j st os"
  shows "fd_inv (snd (copen_failed fp j flags error st)) os"
proof -
  define s where "s = updf fp (\<lambda>r. r\<lparr>f_count := 0\<rparr>) st"
  have i: "fd_ok (\<lambda>x. - bump (Some fp) x) {} s os" unfolding s_def by (rule fresh_gone [OF f])
  have j: "j < NOFILE" "ofile s j = Some fp" using f by (simp_all add: fresh_def s_def ofile_def)
  have n: "fd_inv (set_ofile j None s) os" by (rule drop_ofile [OF i j])
  define d where "d = nat (u_dupfd (uu s))"
  have dup: "snd (dupfdopen j d flags error s) = s \<and> fst (dupfdopen j d flags error s) \<noteq> 0
      \<or> fst (dupfdopen j d flags error s) = 0 \<and> fd_inv (snd (dupfdopen j d flags error s)) os" if "error = ENODEV \<or> error = ENXIO"
  proof (cases "fst (dupfdopen j d flags error s) = 0")
    case True
    have ne: "error \<noteq> 0" using that by auto
    from True obtain wp where w: "d < NOFILE" "ofile s d = Some wp" "wp \<noteq> fp" "dupfdopen j d flags error s = (0, dupit j wp (u_pofile (uu s) ! d) s)"
      using ne j(2) by (auto simp: dupfdopen_def dupit_def split: if_splits option.splits)
    note o = open_fd [OF i w(1,2)]
    have "fd_inv (dupit j wp (u_pofile (uu s) ! d) s) os"
      using i j o(1) o(3) w(3) by (intro dupit_ok) (simp_all add: bump_def)
    then show ?thesis using w(4) by simp
  next
    case False
    then show ?thesis by (auto simp: dupfdopen_def split: if_splits option.splits)
  qed
  show ?thesis
  proof (cases "(error = ENODEV \<or> error = ENXIO) \<and> u_dupfd (uu s) \<ge> 0")
    case True
    obtain e s' where e: "dupfdopen j d flags error s = (e, s')" by (cases "dupfdopen j d flags error s")
    have "snd (copen_failed fp j flags error st) = (if e = 0 then set_rval (int j) s' else set_ofile j None s')"
      unfolding copen_failed_def Let_def s_def [symmetric] d_def [symmetric] e using True by simp
    then show ?thesis using dup True e n fd_assign_ok(1) by auto
  next
    case False
    then show ?thesis using n unfolding copen_failed_def Let_def s_def [symmetric] by auto
  qed
qed

lemma copen_end_ok:
  assumes f: "fresh {} fp j st os" and h: "fops_ok cl io" and t: "f_of st f_type fp = DTYPE_INODE"
  shows "\<exists>r. copen_end cl fp j mode error ip st = Inr r \<and> fd_inv (lk_st r) os"
proof (cases "error = 0")
  case False
  then show ?thesis using copen_failed_ok [OF f, of "mode + 1" error] by (auto simp: copen_end_def split: prod.splits)
next
  case True
  define s where "s = updf fp (\<lambda>r. r\<lparr>f_data := Some ip\<rparr>) (updu (\<lambda>u. u\<lparr>u_dupfd := 0\<rparr>) st)"
  have u: "fd_ok (\<lambda>_. 0) {fp} (updu (\<lambda>u. u\<lparr>u_dupfd := 0\<rparr>) st) os" using f unfolding fresh_def by (intro fd_ok_updu) simp_all
  have "lock_same (updu (\<lambda>u. u\<lparr>u_dupfd := 0\<rparr>) st) s" using f by (auto simp: lock_same_def s_def fresh_def)
  then have "locks_ok s" by (rule locks_ok_same [OF fd_okD(9) [OF u]])
  moreover have "procs_ok s = procs_ok (updu (\<lambda>u. u\<lparr>u_dupfd := 0\<rparr>) st)" by (rule procs_ok_env) (simp_all add: s_def)
  moreover have "refs_ok (\<lambda>_. 0) s os" using fd_okD(6) [OF u] by (simp add: refs_ok_def s_def)
  ultimately have i: "fd_inv s os" using u unfolding fd_ok_def by (auto simp: s_def)
  have l: "lockable fp ip s" and j: "j < NOFILE" "ofile s j = Some fp" using f t by (simp_all add: lockable_def fresh_def s_def ofile_def)
  have "\<exists>r. rbind (ino_lock fp cmd s) (copen_lock_end cl fp j) = Inr r \<and> fd_inv (lk_st r) os" for cmd
  proof -
    obtain r where r: "ino_lock fp cmd s = Inr r" "fd_inv (lk_st r) os" "cur (lk_st r) = cur s" "\<forall>k. f_of (lk_st r) f_count k = f_of s f_count k"
      using ino_lock_ok [OF i l, of cmd] unfolding locks_go_def by blast
    show ?thesis
    proof (cases r)
      case (Lk_ret e s1)
      have "fp < NFILE" "f_of s1 f_count fp \<noteq> 0" using r(4) l Lk_ret by (simp_all add: lockable_def)
      from closef_ok [OF _ h this] r(2) Lk_ret obtain e' s2 where s2: "closef cl (Some fp) s1 = Inr (e', s2)" "fd_ok (\<lambda>x. - bump (Some fp) x) {} s2 os" "cur s2 = cur s1"
        by fastforce
      have "fd_inv (set_ofile j None s2) os" using s2(3) r(3) Lk_ret j(2) by (intro drop_ofile [OF s2(2) j(1)]) (simp add: ofile_cur)
      then show ?thesis using r Lk_ret s2(1) by (simp add: copen_lock_end_def)
    next
      case (Lk_sleep p s1)
      then show ?thesis using r by (simp add: copen_lock_end_def)
    qed
  qed
  then show ?thesis using True i unfolding copen_end_def Let_def s_def [symmetric] by simp
qed

subsection \<open>Pipes\<close>

lemma falloc_none: "falloc st = (None, st') \<Longrightarrow> files st' = files st \<and> fst (cur st') = fst (cur st)"
  by (auto simp: falloc_def ufalloc_def split: option.splits prod.splits)

lemma falloc_some:
  assumes i: "fd_ok (\<lambda>_. 0) D st os" and a: "falloc st = (Some fp, st')"
  shows "f_of st f_count fp = 0" "k \<noteq> fp \<Longrightarrow> files st' k = files st k" "inodes st' = inodes st"
    "ofile st d = Some x \<Longrightarrow> d < NOFILE \<Longrightarrow> ofile st' d = Some x"
proof -
  obtain q s where u: "ufalloc 0 st = (q, s)" by (cases "ufalloc 0 st")
  note v = ufalloc_ok [OF i u]
  obtain j where j: "q = Some j" and f: "find (\<lambda>fp. f_of s f_count fp = 0) ([lastf s..<NFILE] @ [0..<lastf s]) = Some fp"
    and st': "st' = (updf fp (\<lambda>r. r\<lparr>f_count := 1, f_data := None, f_offset := 0\<rparr>) (set_ofile j (Some fp) s))\<lparr>lastf := fp + 1\<rparr>"
    using a u by (auto simp: falloc_def split: option.splits)
  have "f_of s f_count fp = 0" using f unfolding find_Some_iff by blast
  then show "f_of st f_count fp = 0" using v(2) by simp
  show "k \<noteq> fp \<Longrightarrow> files st' k = files st k" using v(2) by (simp add: st')
  show "inodes st' = inodes st" using u by (auto simp: st' ufalloc_def split: option.splits)
  assume d: "ofile st d = Some x" "d < NOFILE"
  then have "ofile s d = Some x" "d \<noteq> j" using v(3) [OF j] by (auto simp: ofile_cur)
  then show "ofile st' d = Some x" by (simp add: st' ofile_def set_ofile_def updf_def)
qed

lemma fd_ok_dress:
  assumes i: "fd_ok (\<lambda>_. 0) (insert fp D) st os" and n: "\<not> tst (f_of st f_flag fp) (FSHLOCK OR FEXLOCK)" "\<not> tst w (FSHLOCK OR FEXLOCK)"
  shows "fd_ok (\<lambda>_. 0) D (updf fp (\<lambda>r. r\<lparr>f_flag := w, f_type := t, f_data := Some ip\<rparr>) st) os"
proof -
  let ?s = "updf fp (\<lambda>r. r\<lparr>f_flag := w, f_type := t, f_data := Some ip\<rparr>) st"
  have "locks_ok ?s" using n unfolding tst_or_mask by (intro locks_ok_same [OF fd_okD(9) [OF i]]) (auto simp: lock_same_def tst_or_mask [of _ FSHLOCK FEXLOCK, simplified])
  moreover have "refs_ok (\<lambda>_. 0) ?s os" using fd_okD(6) [OF i] by (simp add: refs_ok_def)
  moreover have "procs_ok ?s = procs_ok st" by (rule procs_ok_env) simp_all
  ultimately show ?thesis using i unfolding fd_ok_def by auto
qed

lemma pipe_files_ok:
  assumes i: "fd_inv st os" and ip: "\<forall>fp < NFILE. f_of st f_count fp \<noteq> 0 \<longrightarrow> f_of st f_data fp \<noteq> Some ip"
  shows "fd_inv (snd (pipe_files ip st)) os"
proof -
  obtain q s1 where u: "falloc st = (q, s1)" by (cases "falloc st")
  note v = falloc_ok [OF i u]
  show ?thesis
  proof (cases q)
    case None
    then show ?thesis using u v(1) by (simp add: pipe_files_def)
  next
    case (Some rf)
    define j where "j = nat (u_rval (uu s1))"
    have f: "fresh {} rf j s1 os" unfolding j_def using v(2) [OF Some] by blast
    then have f1: "fd_ok (\<lambda>_. 0) {rf} s1 os" "rf < NFILE" "j < NOFILE" "ofile s1 j = Some rf" "f_of s1 f_count rf = 1" "\<not> tst (f_of s1 f_flag rf) (FSHLOCK OR FEXLOCK)"
      by (simp_all add: fresh_def)
    obtain p s2 where w: "falloc s1 = (p, s2)" by (cases "falloc s1")
    note x = falloc_ok [OF f1(1) w]
    show ?thesis
    proof (cases p)
      case None
      then have "files s2 = files s1" "fst (cur s2) = fst (cur s1)" using falloc_none [of s1 s2] w by simp_all
      then have "fresh {} rf j s2 os" using x(1) [OF None] f1 by (simp add: fresh_def ofile_cur)
      from drop_ofile [OF fresh_gone [OF this] f1(3)] this show ?thesis
        using u Some w None by (simp add: pipe_files_def j_def [symmetric] fresh_def ofile_cur Let_def)
    next
      case P: (Some wr)
      note y = falloc_some [OF f1(1) w [unfolded P]] and z = x(2) [OF P]
      have ne: "wr \<noteq> rf" using y(1) f1(5) by auto
      define t1 where "t1 = set_rval (u_rval (uu s1)) s2"
      define t2 where "t2 = updf wr (\<lambda>r. r\<lparr>f_flag := FWRITE, f_type := DTYPE_PIPE, f_data := Some ip\<rparr>) t1"
      define t3 where "t3 = updf rf (\<lambda>r. r\<lparr>f_flag := FREAD, f_type := DTYPE_PIPE, f_data := Some ip\<rparr>) t2"
      have i1: "fd_ok (\<lambda>_. 0) (insert wr {rf}) t1 os" and fl: "\<not> tst (f_of t1 f_flag wr) (FSHLOCK OR FEXLOCK)"
        using z fd_assign_ok(1) [of "\<lambda>_. 0" "insert wr {rf}" s2 os] by (simp_all add: fresh_def t1_def)
      have i2: "fd_ok (\<lambda>_. 0) {rf} t2 os" unfolding t2_def by (rule fd_ok_dress [OF i1 fl]) (simp add: tst_def)
      have i3: "fd_inv t3 os" unfolding t3_def
      proof (rule fd_ok_dress [OF i2])
        have "files t2 rf = files s1 rf" using ne y(2) [of rf] by (simp add: t2_def t1_def)
        then show "\<not> tst (f_of t2 f_flag rf) (FSHLOCK OR FEXLOCK)" using f1(6) by simp
      qed (simp add: tst_def)
      have none: "holders k (files t3) ip = {}" if k: "k = FSHLOCK \<or> k = FEXLOCK" for k
      proof -
        have "\<not> tst (f_of t3 f_flag fp) k \<or> f_of t3 f_data fp \<noteq> Some ip" if fp: "fp < NFILE" for fp
        proof (cases "fp = rf \<or> fp = wr")
          case True
          then show ?thesis using k ne by (auto simp: t3_def t2_def tst_def)
        next
          case False
          have "files t3 fp = files st fp" using False y(2) [of fp] falloc_some(2) [OF i u [unfolded Some], of fp] by (simp add: t3_def t2_def t1_def)
          then show ?thesis using locks_okD(4) [OF fd_okD(9) [OF i] fp] ip fp k tst_or_mask [of _ FSHLOCK FEXLOCK] by auto
        qed
        then show ?thesis by (auto simp: holders_def)
      qed
      have "fd_inv (updi ip (\<lambda>n. n\<lparr>i_count := 2, i_mode := IFREG, i_flag := 0x1046\<rparr>) t3) os" (is "fd_inv ?s os")
      proof (rule fd_ok_same [OF i3])
        have "\<not> tst (i_flag (inodes t3 ip)) ISHLOCK" "\<not> tst (i_flag (inodes t3 ip)) IEXLOCK"
          using locks_okD(1,2) [OF fd_okD(9) [OF i3]] none unfolding tallied_def by auto
        then have "lock_same t3 ?s" by (auto simp: lock_same_def tst_def)
        then show "fd_same t3 ?s" using procs_ok_env [of ?s t3] fd_okD(1) [OF i3] by (simp add: fd_same_def)
      qed
      then show ?thesis using u Some w P by (simp add: pipe_files_def Let_def t1_def t2_def t3_def)
    qed
  qed
qed

subsection \<open>Process creation, execution and exit\<close>

lemma fork_files_count:
  assumes i: "fd_inv st os" and n: "n \<le> NOFILE"
  shows "fd_ok (\<lambda>x. int (count_list (take n (fst (cur st))) (Some x))) {} (fold fork_file [0..<n] st) os \<and> cur (fold fork_file [0..<n] st) = cur st"
  using n
proof (induction n)
  case 0
  then show ?case using i by simp
next
  case (Suc n)
  let ?t = "fst (cur st)"
  define s where "s = fold fork_file [0..<n] st"
  have e: "fold fork_file [0..<Suc n] st = fork_file n s" by (simp add: s_def)
  have s: "fd_ok (\<lambda>x. int (count_list (take n ?t) (Some x))) {} s os" "cur s = cur st" using Suc by (simp_all add: s_def)
  have l: "n < length ?t" using tab_okD(1) [OF fd_okD(3) [OF i]] Suc.prems by simp
  have t: "take (Suc n) ?t = take n ?t @ [?t ! n]" using l by (rule take_Suc_conv_app_nth)
  have b: "count_list (take (Suc n) ?t) (Some x) \<le> 30" for x using count_list_le [of "take (Suc n) ?t" "Some x"] Suc.prems by simp
  have "fd_ok (\<lambda>x. int (count_list (take (Suc n) ?t) (Some x))) {} (fork_file n s) os \<and> cur (fork_file n s) = cur st"
  proof (cases "?t ! n")
    case None
    then show ?thesis using s t by (simp add: fork_file_def ofile_cur count_list_append)
  next
    case (Some fp)
    have o: "ofile s n = Some fp" using Some s(2) by (simp add: ofile_cur)
    note p = open_fd [OF s(1) _ o]
    have "fd_ok (\<lambda>x. int (count_list (take (Suc n) ?t) (Some x))) {} (updf fp (\<lambda>r. r\<lparr>f_count := f_count r + 1\<rparr>) s) os"
    proof (rule fd_ok_inc [OF s(1)])
      show "(\<lambda>x. int (count_list (take (Suc n) ?t) (Some x))) = (\<lambda>x. int (count_list (take n ?t) (Some x)) + bump (Some fp) x)"
        by (auto simp: t Some bump_def fun_eq_iff count_list_append)
    qed (use p Suc.prems b in auto)
    then show ?thesis using s(2) o by (simp add: fork_file_def)
  qed
  then show ?case unfolding e .
qed

lemma fork_files_ok:
  assumes i: "fd_inv st os" and r: "Suc (length os) < NPROC"
  shows "fd_inv (fork_files st) (cur st # os)"
proof -
  let ?n = "nat (u_lastfile (uu st) + 1)" and ?t = "fst (cur st)"
  note t = tab_okD [OF fd_okD(3) [OF i]]
  have n: "?n \<le> NOFILE" using t(3) by (simp add: cur_def)
  from fork_files_count [OF i n] have f: "fd_ok (\<lambda>x. int (count_list (take ?n ?t) (Some x))) {} (fork_files st) os" "cur (fork_files st) = cur st"
    by (simp_all add: fork_files_def)
  have d: "x = None" if x: "x \<in> set (drop ?n ?t)" for x
  proof -
    from x obtain m where m: "m < length (drop ?n ?t)" "x = drop ?n ?t ! m" by (metis in_set_conv_nth)
    then show ?thesis using t(1) t(5) [of "?n + m"] t(4) by (simp add: cur_def)
  qed
  have "count_list (drop ?n ?t) (Some x) = 0" for x using d by (auto simp: count_list_0_iff)
  then have "count_list (take ?n ?t) (Some x) = count_list ?t (Some x)" for x
    using count_list_append [of "take ?n ?t" "drop ?n ?t" "Some x"] by simp
  then have "refs_ok (\<lambda>_. 0) (fork_files st) (cur st # os)" using fd_okD(6) [OF f(1)] f(2) by (simp add: refs_ok_def refs_def)
  then show ?thesis using f r fd_okD(3) [OF i] unfolding fd_ok_def by auto
qed

lemma exec_file_ok:
  assumes i: "fd_inv st os" and h: "fops_ok cl io" and n: "n < NOFILE"
  shows "\<exists>st'. exec_file cl n st = Inr st' \<and> fd_inv st' os"
proof (cases "tst (u_pofile (uu st) ! n) UF_EXCLOSE")
  case True
  show ?thesis
  proof (cases "ofile st n")
    case None
    have "fd_inv (set_ofile n None st) os" using None n by (intro fd_ok_ofile [OF i]) (auto simp: bump_def)
    then show ?thesis using True None by (auto simp: exec_file_def closef_def intro: fd_assign_ok(3))
  next
    case (Some fp)
    from closef_ok [OF i h, of fp] open_fd [OF i n Some] obtain e s where
      s: "closef cl (Some fp) st = Inr (e, s)" "fd_ok (\<lambda>x. - bump (Some fp) x) {} s os" "cur s = cur st" by auto
    have "fd_inv (set_ofile n None s) os" using Some s(3) by (intro drop_ofile [OF s(2) n]) (simp add: ofile_cur)
    then show ?thesis using True Some s(1) by (auto simp: exec_file_def intro: fd_assign_ok(3))
  qed
next
  case False
  then show ?thesis using i by (simp add: exec_file_def)
qed

lemma rfold_keeps:
  assumes "P s" and "\<And>i s. i \<in> set xs \<Longrightarrow> P s \<Longrightarrow> \<exists>s'. f i s = Inr s' \<and> P s'"
  shows "\<exists>s'. rfold f xs s = Inr s' \<and> P s'"
  using assms
proof (induction xs arbitrary: s)
  case (Cons i xs)
  from Cons.prems(2) [of i s] Cons.prems(1) obtain t where "f i s = Inr t" "P t" by auto
  with Cons.IH [of t] Cons.prems(2) show ?case by simp
qed simp

lemma exec_files_ok:
  assumes i: "fd_inv st os" and h: "fops_ok cl io"
  shows "fd_goes os (exec_files cl st)"
proof -
  have "\<exists>s. rfold (exec_file cl) [0..<nat (u_lastfile (uu st) + 1)] st = Inr s \<and> fd_inv s os"
    using tab_okD(3) [OF fd_okD(3) [OF i]] by (intro rfold_keeps [of "\<lambda>s. fd_inv s os"] i exec_file_ok [OF _ h]) (auto simp: cur_def)
  then show ?thesis by (auto simp: exec_files_def intro!: fd_goesI fd_assign_ok(4))
qed

lemma exit_file_ok:
  assumes i: "fd_inv st os" and h: "fops_ok cl io" and n: "n < NOFILE"
  shows "\<exists>st'. exit_file cl n st = Inr st' \<and> fd_inv st' os \<and> fst (cur st') = (fst (cur st))[n := None] \<and> snd (snd (cur st')) = snd (snd (cur st))"
proof (cases "ofile st n")
  case None
  have "fd_inv (set_ofile n None st) os" using None n by (intro fd_ok_ofile [OF i]) (auto simp: bump_def)
  then show ?thesis using None by (auto simp: exit_file_def closef_def intro: fd_assign_ok(3))
next
  case (Some fp)
  have "fd_ok (\<lambda>x. bump (Some fp) x) {} (set_ofile n None st) os" using Some n by (intro fd_ok_ofile [OF i]) (auto simp: bump_def)
  then have j: "fd_ok (\<lambda>x. bump (Some fp) x) {} (set_pofile n 0 (set_ofile n None st)) os" by (rule fd_assign_ok(3))
  from closef_ok [OF j h, of fp] open_fd [OF i n Some] obtain e s where
    "closef cl (Some fp) (set_pofile n 0 (set_ofile n None st)) = Inr (e, s)" "fd_inv s os" "cur s = cur (set_pofile n 0 (set_ofile n None st))" by auto
  then show ?thesis using Some by (simp add: exit_file_def)
qed

lemma rfold_append: "rfold f (xs @ ys) s = rbind (rfold f xs s) (rfold f ys)"
  by (induction xs arbitrary: s) (auto simp: rbind_def split: sum.splits)

lemma exit_files_ok:
  assumes i: "fd_inv st os" and h: "fops_ok cl io"
  shows "\<exists>st'. exit_files cl st = Inr st' \<and> fd_inv st' os \<and> (\<forall>k < NOFILE. fst (cur st') ! k = None)"
proof -
  note t = tab_okD [OF fd_okD(3) [OF i]]
  have go: "\<exists>s. rfold (exit_file cl) [0..<n] st = Inr s \<and> fd_inv s os \<and> snd (snd (cur s)) = snd (snd (cur st)) \<and> (\<forall>k < n. fst (cur s) ! k = None)"
    if "n \<le> NOFILE" for n
    using that
  proof (induction n)
    case 0
    then show ?case using i by simp
  next
    case (Suc n)
    then obtain s where s: "rfold (exit_file cl) [0..<n] st = Inr s" "fd_inv s os" "snd (snd (cur s)) = snd (snd (cur st))" "\<forall>k < n. fst (cur s) ! k = None" by auto
    from exit_file_ok [OF s(2) h, of n] Suc.prems obtain s' where s': "exit_file cl n s = Inr s'" "fd_inv s' os" "fst (cur s') = (fst (cur s))[n := None]"
      "snd (snd (cur s')) = snd (snd (cur s))" by auto
    have "fst (cur s') ! k = None" if "k < Suc n" for k
      using that s(4) s'(3) tab_okD(1) [OF fd_okD(3) [OF s(2)]] Suc.prems by (cases "k = n") auto
    then show ?case using s s' by (simp add: rfold_append)
  qed
  have "nat (u_lastfile (uu st) + 1) \<le> NOFILE" using t(3) by (simp add: cur_def)
  from go [OF this] obtain s where s: "exit_files cl st = Inr s" "fd_inv s os" "snd (snd (cur s)) = snd (snd (cur st))" "\<forall>k < nat (u_lastfile (uu st) + 1). fst (cur s) ! k = None"
    unfolding exit_files_def by blast
  have "fst (cur s) ! k = None" if "k < NOFILE" for k
    using s(4) tab_okD(5) [OF fd_okD(3) [OF s(2)] that] s(3) by (cases "k < nat (u_lastfile (uu st) + 1)") (auto simp: cur_def)
  then show ?thesis using s by blast
qed

subsection \<open>A system of processes\<close>

text \<open>The processor is given to another process: its descriptor table is the one of the u. area now.\<close>

definition load :: "dtab \<Rightarrow> 'a kst_scheme \<Rightarrow> 'a kst_scheme" where
  "load t st = updu (\<lambda>u. u\<lparr>u_ofile := fst t, u_pofile := fst (snd t), u_lastfile := snd (snd t)\<rparr>) st"

lemma load_ok:
  assumes i: "fd_inv st os" and t: "t \<in> set os" and l: "length os' < NPROC" "\<forall>t \<in> set os'. tab_ok t"
    and r: "\<And>fp. refs fp (t # os') = refs fp (cur st # os)"
  shows "fd_inv (load t st) os'"
proof -
  have c: "cur (load t st) = t" by (simp add: cur_def load_def)
  have "refs_ok (\<lambda>_. 0) (load t st) os'" using fd_okD(6) [OF i] r unfolding refs_ok_def c by (simp add: load_def)
  moreover have "locks_ok (load t st)" using fd_okD(9) [OF i] unfolding locks_ok_def by (simp add: load_def)
  moreover have "procs_ok (load t st) = procs_ok st" by (rule procs_ok_env) (simp_all add: load_def)
  ultimately show ?thesis using i t l c unfolding fd_ok_def by (simp add: load_def)
qed

lemma switch_ok:
  assumes i: "fd_inv st os" and k: "k < length os"
  shows "fd_inv (load (os ! k) st) (os[k := cur st])"
proof (rule load_ok [OF i])
  have "\<forall>t \<in> set (cur st # os). tab_ok t" using fd_okD(3,4) [OF i] by simp
  then show "\<forall>t \<in> set (os[k := cur st]). tab_ok t" using set_update_subset_insert [of os k "cur st"] by auto
  show "refs fp (os ! k # os[k := cur st]) = refs fp (cur st # os)" for fp
  proof -
    let ?f = "\<lambda>t. count_list (fst t) (Some fp)"
    have "?f (os ! k) \<le> sum_list (map ?f os)" using k elem_le_sum_list [of k "map ?f os"] by simp
    then show ?thesis using k sum_list_update [of k "map ?f os" "?f (cur st)"] by (simp add: refs_def map_update)
  qed
qed (use k fd_okD(5) [OF i] in simp_all)

lemma leave_ok:
  assumes i: "fd_inv st os" and k: "k < length os" and n: "\<forall>j < NOFILE. fst (cur st) ! j = None"
  shows "fd_inv (load (os ! k) st) (take k os @ drop (Suc k) os)"
proof (rule load_ok [OF i])
  have "count_list (fst (cur st)) (Some fp) = 0" for fp
    using n tab_okD(1) [OF fd_okD(3) [OF i]] by (auto simp: count_list_0_iff in_set_conv_nth)
  then show "refs fp (os ! k # take k os @ drop (Suc k) os) = refs fp (cur st # os)" for fp
    using id_take_nth_drop [OF k] by (simp add: refs_def) (metis (no_types, lifting) add.left_commute list.simps(9) map_append sum_list.Cons sum_list_append)
  show "\<forall>t \<in> set (take k os @ drop (Suc k) os). tab_ok t" using fd_okD(4) [OF i] by (auto dest: in_set_takeD in_set_dropD)
qed (use k fd_okD(5) [OF i] in simp_all)

text \<open>
  What \<open>vn_open\<close> finds: an inode, an error, or the file descriptor device, whose open routine asks for
  descriptor \<open>minor(dev)\<close>.
\<close>

datatype vnres = Vn_found nat | Vn_error int | Vn_fd int

datatype fcall = Dup | Dup2 | Fcntl | Close | Flock | Open u32 vnres | Pipe nat | Exec

definition open_do :: "'a fdst_scheme fo_close \<Rightarrow> u32 \<Rightarrow> vnres \<Rightarrow> 'a fdst_scheme \<Rightarrow> 'a fdst_scheme lk res" where
  "open_do cl mode v st =
     (case copen_begin mode st of
        (None, st) \<Rightarrow> Inr (Lk_ret (u_error (uu st)) st)
      | (Some fp, st) \<Rightarrow>
          let j = nat (u_rval (uu st))
          in case v of
               Vn_found ip \<Rightarrow> copen_end cl fp j mode 0 ip st
             | Vn_error e \<Rightarrow> copen_end cl fp j mode e 0 st
             | Vn_fd dev \<Rightarrow> (case fdopen dev st of (e, st) \<Rightarrow> copen_end cl fp j mode e 0 st))"

text \<open>The inode that a pipe is given is one that no file refers to.\<close>

fun fcall_do :: "'a fdst_scheme fo_close \<Rightarrow> 'a fdst_scheme fo_ioctl \<Rightarrow> fcall \<Rightarrow> 'a fdst_scheme \<Rightarrow> 'a fdst_scheme res" where
  "fcall_do cl io Dup st = dup cl st"
| "fcall_do cl io Dup2 st = dup2 cl st"
| "fcall_do cl io Fcntl st = fcntl io st"
| "fcall_do cl io Close st = close cl st"
| "fcall_do cl io Flock st = rbind (flock st) (\<lambda>r. Inr (lk_st r))"
| "fcall_do cl io (Open mode v) st = rbind (open_do cl mode v st) (\<lambda>r. Inr (lk_st r))"
| "fcall_do cl io (Pipe ip) st =
     (if \<forall>fp < NFILE. f_of st f_count fp \<noteq> 0 \<longrightarrow> f_of st f_data fp \<noteq> Some ip then Inr (snd (pipe_files ip st)) else Inr st)"
| "fcall_do cl io Exec st = exec_files cl st"

text \<open>
  A step of the system: the running process makes a system call with arguments \<open>a\<close>, forks (if there is
  a process slot), exits in favour of another process, or is preempted by another process.
\<close>

datatype fop = Call "nat \<Rightarrow> u32" fcall | Fork | Exit nat | Switch nat

fun fop_do :: "'a fdst_scheme fo_close \<Rightarrow> 'a fdst_scheme fo_ioctl \<Rightarrow> fop \<Rightarrow> 'a fdst_scheme \<times> dtab list \<Rightarrow> ('a fdst_scheme \<times> dtab list) res" where
  "fop_do cl io (Call a c) (st, os) = rbind (fcall_do cl io c (updu (\<lambda>u. u\<lparr>u_arg := a\<rparr>) st)) (\<lambda>st. Inr (st, os))"
| "fop_do cl io Fork (st, os) = Inr (if Suc (length os) < NPROC then (fork_files st, cur st # os) else (st, os))"
| "fop_do cl io (Exit k) (st, os) =
     (if k < length os then rbind (exit_files cl st) (\<lambda>st. Inr (load (os ! k) st, take k os @ drop (Suc k) os)) else Inr (st, os))"
| "fop_do cl io (Switch k) (st, os) = Inr (if k < length os then (load (os ! k) st, os[k := cur st]) else (st, os))"

primrec fops_do :: "'a fdst_scheme fo_close \<Rightarrow> 'a fdst_scheme fo_ioctl \<Rightarrow> fop list \<Rightarrow> 'a fdst_scheme \<times> dtab list \<Rightarrow> ('a fdst_scheme \<times> dtab list) res" where
  "fops_do cl io [] s = Inr s"
| "fops_do cl io (x # xs) s = rbind (fop_do cl io x s) (fops_do cl io xs)"

lemma open_do_ok:
  assumes i: "fd_inv st os" and h: "fops_ok cl io"
  shows "\<exists>r. open_do cl mode v st = Inr r \<and> fd_inv (lk_st r) os"
proof -
  obtain q s where u: "copen_begin mode st = (q, s)" by (cases "copen_begin mode st")
  note b = copen_begin_ok [OF i u]
  show ?thesis
  proof (cases q)
    case None
    then show ?thesis using u b(1) by (simp add: open_do_def)
  next
    case (Some fp)
    note f = b(2) [OF Some]
    have t: "f_of s f_type fp = DTYPE_INODE" using u Some by (auto simp: copen_begin_def split: option.splits prod.splits)
    have "fresh {} fp (nat (u_rval (uu s))) (updu (\<lambda>u. u\<lparr>u_dupfd := dev mod 256\<rparr>) s) os" for dev by (rule fresh_updu [OF f]) simp
    note fd = copen_end_ok [OF this h]
    show ?thesis using u Some copen_end_ok [OF f h t] fd t by (cases v) (auto simp: open_do_def fdopen_def Let_def)
  qed
qed

lemma fcall_ok:
  assumes "fd_inv st os" and "fops_ok cl io"
  shows "fd_goes os (fcall_do cl io c st)"
proof (cases c)
  case Flock
  then show ?thesis using flock_ok [OF assms(1)] by (auto simp: fd_goes_def)
next
  case (Open mode v)
  then show ?thesis using open_do_ok [OF assms, of mode v] by (auto simp: fd_goes_def)
next
  case (Pipe ip)
  then show ?thesis using pipe_files_ok [OF assms(1), of ip] assms(1) by (auto simp: fd_goes_def)
qed (simp_all add: dup_ok [OF assms] dup2_ok [OF assms] fcntl_ok [OF assms] close_ok [OF assms] exec_files_ok [OF assms])

lemma fop_ok:
  assumes i: "fd_inv st os" and h: "fops_ok cl io"
  shows "\<exists>st' os'. fop_do cl io x (st, os) = Inr (st', os') \<and> fd_inv st' os'"
proof (cases x)
  case (Call a c)
  have "fd_inv (updu (\<lambda>u. u\<lparr>u_arg := a\<rparr>) st) os" by (rule fd_ok_updu [OF i]) simp
  from fcall_ok [OF this h, of c] show ?thesis using Call by (auto simp: fd_goes_def)
next
  case Fork
  then show ?thesis using i fork_files_ok [OF i] by simp
next
  case (Exit k)
  then show ?thesis using i exit_files_ok [OF i h] leave_ok [of _ os k] by auto
next
  case (Switch k)
  then show ?thesis using i switch_ok [OF i, of k] by simp
qed

lemma fops_run:
  assumes "fops_ok cl io" and "fd_inv st os"
  shows "\<exists>st' os'. fops_do cl io xs (st, os) = Inr (st', os') \<and> fd_inv st' os'"
  using assms(2)
proof (induction xs arbitrary: st os)
  case (Cons x xs)
  from fop_ok [OF Cons.prems assms(1), of x] obtain s o1 where "fop_do cl io x (st, os) = Inr (s, o1)" "fd_inv s o1" by blast
  with Cons.IH [of s o1] show ?case by simp
qed simp

subsection \<open>Properties\<close>

text \<open>The invariant in terms of the files.\<close>

lemma fd_inv_exact:
  assumes i: "fd_inv st os"
  shows "fp < NFILE \<Longrightarrow> unat (f_of st f_count fp) = refs fp (cur st # os)"
    and "t \<in> set (cur st # os) \<Longrightarrow> Some fp \<in> set (fst t) \<Longrightarrow> fp < NFILE \<and> f_of st f_count fp \<noteq> 0"
    and "fp < NFILE \<Longrightarrow> gp < NFILE \<Longrightarrow> tst (f_of st f_flag fp) FEXLOCK \<Longrightarrow> f_of st f_data gp = f_of st f_data fp \<Longrightarrow> gp \<noteq> fp
      \<Longrightarrow> \<not> tst (f_of st f_flag gp) (FSHLOCK OR FEXLOCK)"
proof -
  show e: "unat (f_of st f_count fp) = refs fp (cur st # os)" if "fp < NFILE" for fp
    using fd_okD(6) [OF i] that by (simp add: refs_ok_def unat_eq_nat_uint)
  show "fp < NFILE \<and> f_of st f_count fp \<noteq> 0" if t: "t \<in> set (cur st # os)" "Some fp \<in> set (fst t)"
  proof -
    have n: "fp < NFILE" using tab_okD(6) [OF _ t(2)] fd_okD(3,4) [OF i] t(1) by auto
    have c: "count_list (fst t) (Some fp) \<noteq> 0" using t(2) by (simp add: count_list_0_iff)
    obtain k where k: "k < length (cur st # os)" "(cur st # os) ! k = t" using t(1) by (metis in_set_conv_nth)
    have "count_list (fst t) (Some fp) \<le> refs fp (cur st # os)"
      unfolding refs_def using k elem_le_sum_list [of k "map (\<lambda>t. count_list (fst t) (Some fp)) (cur st # os)"] by (simp del: list.map)
    then show ?thesis using c e [OF n] n by auto
  qed
  assume a: "fp < NFILE" "gp < NFILE" "tst (f_of st f_flag fp) FEXLOCK" "f_of st f_data gp = f_of st f_data fp" "gp \<noteq> fp"
  note l = locks_okD [OF fd_okD(9) [OF i]]
  obtain ip where ip: "f_of st f_data fp = Some ip" using l(4) [OF a(1)] a(3) tst_or_mask [of _ FSHLOCK FEXLOCK] by auto
  then have "fp \<in> holders FEXLOCK (files st) ip" using a by (simp add: holders_def)
  from l(3) [OF this] have "gp \<notin> holders FEXLOCK (files st) ip" "gp \<notin> holders FSHLOCK (files st) ip" using a(5) by auto
  then show "\<not> tst (f_of st f_flag gp) (FSHLOCK OR FEXLOCK)" using a(2,4) ip unfolding holders_def tst_or_mask by simp
qed

text \<open>A system with one process and no open files, and file operations that do nothing.\<close>

definition file0 :: fileent where
  "file0 = \<lparr>f_flag = 0, f_type = 0, f_count = 0, f_msgcount = 0, f_data = None, f_offset = 0\<rparr>"

definition fd_example :: fdst where
  "fd_example = kst.extend (kst0\<lparr>uu := user0\<lparr>u_lastfile := -1\<rparr>\<rparr>)
     (fdst.fields (\<lambda>_. file0) 0 (\<lambda>_. inode0) (\<lambda>i. 0x80010000 + 120 * of_nat i) 0 None)"

lemma fd_example_inv: "fd_inv fd_example []"
proof -
  have s: "files fd_example = (\<lambda>_. file0)" "inodes fd_example = (\<lambda>_. inode0)" "lastf fd_example = 0" "procs fd_example = procs kst0"
    "qs fd_example = qs kst0" "slpque fd_example = slpque kst0" "pidhash fd_example = pidhash kst0" "cur fd_example = (replicate 30 None, replicate 30 0, -1)"
    by (simp_all add: fd_example_def kst.defs fdst.defs cur_def user0_def)
  have "queues kst0 [] (\<lambda>_. [])" by (simp add: queues_def qlinks_def boot_defs)
  moreover have "hash_ok kst0 (\<lambda>_. [])" by (simp add: hash_ok_def boot_defs)
  ultimately have "procs_ok fd_example" using procs_ok_env [of fd_example kst0] s by (auto simp: procs_ok_def)
  moreover have "holders k (\<lambda>_. file0) = (\<lambda>_. {})" for k by (auto simp: holders_def file0_def)
  then have "locks_ok fd_example" by (auto simp: locks_ok_def tallied_def s inode0_def file0_def)
  moreover have "refs_ok (\<lambda>_. 0) fd_example []" by (simp add: refs_ok_def refs_def s file0_def count_list_0_iff)
  moreover have "tab_ok (replicate 30 None, replicate 30 0, -1)" by (auto simp: tab_ok_def)
  ultimately show ?thesis unfolding fd_ok_def s by (simp add: file0_def)
qed

lemma fops_example: "fops_ok (\<lambda>ty fp st. Inr (0, st)) (\<lambda>ty fp com v st. Inr (0, v, st))"
  by (simp add: fops_ok_def quiet_def)



text \<open>C35: Opening \<open>/dev/fd/N\<close> for a descriptor \<open>N\<close> that is not open reports success: \<open>copen\<close> assigns to \<open>error\<close> the
  value of the comparison \<open>dupfdopen(...) == 0\<close> instead of the error, so that \<open>open\<close> returns without an
  error the number of a descriptor that is not open.\<close>

theorem open_closed_fd:
  assumes "fd_inv st os" and "copen_begin mode st = (Some fp, s)" and "dev mod 256 \<ge> int NOFILE \<or> ofile s (nat (dev mod 256)) = None"
  shows "\<exists>s'. open_do cl mode (Vn_fd dev) st = Inr (Lk_ret 0 s') \<and> u_rval (uu s') = u_rval (uu s) \<and> ofile s' (nat (u_rval (uu s'))) = None"
proof -
  have f: "fresh {} fp (nat (u_rval (uu s))) s os" by (rule copen_begin_ok(2) [OF assms(1,2)]) simp
  define j where "j = nat (u_rval (uu s))"
  define t where "t = updf fp (\<lambda>r. r\<lparr>f_count := 0\<rparr>) (updu (\<lambda>u. u\<lparr>u_dupfd := dev mod 256\<rparr>) s)"
  have "dupfdopen j (nat (dev mod 256)) (mode + 1) ENODEV t = (EBADF, t)"
    using assms(3) by (auto simp: dupfdopen_def t_def ofile_def)
  then have "open_do cl mode (Vn_fd dev) st = Inr (Lk_ret 0 (set_ofile j None t))"
    using assms(2) by (simp add: open_do_def fdopen_def copen_end_def copen_failed_def j_def t_def Let_def)
  moreover have "ofile (set_ofile j None t) j = None" using f tab_okD(1) [OF fd_okD(3), of "\<lambda>_. 0" "{fp}" s os]
    by (simp add: fresh_def j_def t_def ofile_def set_ofile_def cur_def)
  moreover have "u_rval (uu (set_ofile j None t)) = u_rval (uu s)" by (simp add: t_def set_ofile_def)
  ultimately show ?thesis by (simp add: j_def)
qed

lemma fd_example_open: "\<exists>s. copen_begin 0 fd_example = (Some 0, s) \<and> ofile s 5 = None"
proof -
  have u: "[0..<NOFILE] = 0 # [1..<NOFILE]" "[0..<NFILE] @ [0..<0] = 0 # [1..<NFILE]" by (simp_all add: upt_conv_Cons)
  have e: "ofile fd_example j = None" if "j < NOFILE" for j using that by (simp add: fd_example_def kst.defs ofile_def user0_def)
  have "ufalloc 0 fd_example = (Some 0, raise_lastfile 0 (set_pofile 0 0 (set_rval 0 fd_example)))" unfolding ufalloc_def u(1) using e [of 0] by simp
  then show ?thesis using e [of 5] u(2)
    by (simp add: copen_begin_def falloc_def fd_example_def kst.defs fdst.defs file0_def ofile_def fd_assign_defs updf_def updu_def)
qed

theorem open_closed_fd_witness:
  "\<exists>s s'. copen_begin 0 fd_example = (Some 0, s)
     \<and> open_do (\<lambda>ty fp st. Inr (0, st)) 0 (Vn_fd 0x1805) fd_example = Inr (Lk_ret 0 s') \<and> ofile s' (nat (u_rval (uu s'))) = None"
proof -
  obtain s where s: "copen_begin 0 fd_example = (Some 0, s)" "ofile s 5 = None" using fd_example_open by blast
  have "ofile s (nat (0x1805 mod 256)) = None" using s(2) by simp
  then show ?thesis using s(1) open_closed_fd [OF fd_example_inv s(1), of "0x1805" "\<lambda>ty fp st. Inr (0, st)"] by blast
qed

end
