(* ===== verification/Spec2Isabelle.thy ===== *)
theory Spec2Isabelle
  imports Rmap3 Procq Callout Runq Resource Ktime Sigframe Clistrun Filerun
begin

text \<open>
  A verification library for the RetroBSD kernel: a 2.11BSD kernel for the PIC32, a MIPS processor
  without address translation, with 10 process slots (\<open>NPROC\<close>), 30 signals and swapping of whole
  processes. Paths below are those of the kernel sources \<open>sys/kernel\<close>, \<open>sys/include\<close> and \<open>sys/pic32\<close>.

  \<^bold>\<open>The parts and how they work together.\<close> The scheduler keeps the processes that can run on the run
  queue and those that wait for an event on hashed sleep queues (\<open>kern_synch.c\<close>). Signals
  (\<open>kern_sig.c\<close>, \<open>kern_sig2.c\<close>) change the state of processes through it: posting a signal can wake,
  stop or resume a process, and the process takes the signal when it next leaves the kernel
  (\<open>issignal\<close>, \<open>postsig\<close>, and \<open>sendsig\<close> of \<open>signal.c\<close>). The clock interrupt (\<open>kern_clock.c\<close>) drives
  everything that depends on time: the callout queue of delayed function calls, the interval timers
  and processor time limits, which post signals, the time of day, and once a second the ageing of
  priorities (\<open>schedcpu\<close>) and the load averages (\<open>vm_sched.c\<close>). A timed sleep (\<open>tsleep\<close>) puts a process on
  a sleep queue and an entry in the callout queue. Beside these stand the calls that read and set the
  credentials, limits, nice values, times and timers of a process (\<open>kern_prot.c\<close>, \<open>kern_prot2.c\<close>,
  \<open>kern_resource.c\<close>, \<open>kern_time.c\<close>), the character lists of the terminals (\<open>tty_subr.c\<close>), the allocator
  of swap space (\<open>subr_rmap.c\<close>) and the memory and string routines that all of it is written with
  (\<open>machdep.c\<close>).

  \<^bold>\<open>How the code is modelled.\<close> Theory \<open>Prelude\<close> has the results of kernel code: \<open>'a res\<close> is a value or a
  \<open>halt\<close>, which is \<open>Panic\<close> (the code calls \<open>panic\<close>), \<open>Fault\<close> (it uses a pointer outside its table) or
  \<open>Loop\<close> (a loop used up its fuel). It also has linked lists through tables (\<open>chain\<close>), loops over them
  (\<open>walk\<close>), the narrowing of C integers and the locale \<open>simulation\<close>. Theory \<open>Kstate\<close> has the state: one
  record with the process table, the u. area of the current process, the queues, the callouts, the
  clock variables and user memory; theories that need more fields extend it (\<open>Clist\<close>, \<open>Sigframe\<close>).
  Pointers are indices or \<open>None\<close>; flag words, masks and addresses are machine words; signed counters
  are integers cut to their width where C stores them. A system call reads \<open>u_arg\<close> and reports in
  \<open>u_error\<close> and \<open>u_rval\<close>, as in the code. Code that calls \<open>swtch\<close> is cut there: its result says where
  it gave up the processor, and a second definition is what it does when it runs again. One
  processor and raised interrupt levels make each of these pieces one step.

  \<^bold>\<open>Fuel.\<close> Loops over a list of processes, queue entries or blocks have as fuel one more than the size of
  the table, so \<open>Loop\<close> means that the list has a cycle; \<open>wakeup\<close>, which can restart, has the square of
  it. The lemmas show for consistent lists that \<open>Loop\<close> does not occur. \<open>issignal\<close> has one step per
  signal, \<open>softclock\<close> one per callout entry; that this is enough is part of what is proved.

  \<^bold>\<open>Theories, code, and what the lemmas show.\<close>

  \<^item> \<open>Rmap\<close>, \<open>Rmap3\<close>: \<open>malloc\<close>, \<open>mfree\<close> and \<open>malloc3\<close> of \<open>subr_rmap.c\<close>, slot by slot. The array stays sorted,
    separated and terminated; \<open>malloc\<close> is first fit; \<open>malloc3\<close> places all areas or none; in no sequence of
    calls are overlapping ranges handed out (through the locale \<open>unit_pool\<close>, interpreted on these
    functions). With the limit that \<open>machdep.c\<close> sets, \<open>mfree\<close> can write past the array.
  \<^item> \<open>Procq\<close>: \<open>pfind\<close>, \<open>inferior\<close> and \<open>pqinit\<close> of \<open>kern_proc.c\<close>.
  \<^item> \<open>Callout\<close>: \<open>timeout\<close>, \<open>untimeout\<close>, \<open>coutinit\<close> and the parts of \<open>hardclock\<close> and \<open>softclock\<close> that age and
    take entries. The list of relative times implements a queue of functions with their ticks to go
    (locale \<open>timer_queue\<close>, interpreted on these functions), and a function is called on its tick.
  \<^item> \<open>Sched\<close>, \<open>Runq\<close>: \<open>setrq\<close>, \<open>remrq\<close>, \<open>unsleep\<close>, \<open>wakeup\<close>, \<open>setrun\<close>, \<open>endtsleep\<close>, \<open>setpri\<close>, \<open>updatepri\<close> and the
    choice of \<open>swtch\<close>. The queues agree with the states of the processes (\<open>queues\<close>) and every operation
    keeps that; a wakeup reaches all sleepers of its channel and no other process.
  \<^item> \<open>Tsleep\<close>: \<open>tsleep\<close> and \<open>sleep\<close>: a sleep ends by a wakeup or by its timeout and leaves nothing behind.
  \<^item> \<open>Sig\<close>, \<open>Kill\<close>: \<open>psignal\<close>, \<open>gsignal\<close>, \<open>cansignal\<close>, \<open>kill\<close>, \<open>killpg\<close>, \<open>stop\<close>, and the permission rule. Any
    sequence of signals, wakeups and timeouts keeps the queues; signals reach only permitted
    processes; a kill signal makes its target run.
  \<^item> \<open>Issig\<close>, \<open>Sigvec\<close>, \<open>Sigframe\<close>: the choice of a signal, the calls that set masks and actions, and
    the signal frame on the user's stack with the return from it. The kill and stop signals can never
    be blocked, caught or ignored; delivery followed by return restores the interrupted program; the
    frame is stored without a sufficient check of the stack pointer.
  \<^item> \<open>Meter\<close>, \<open>Clock\<close>, \<open>Clocksafe\<close>: \<open>vmmeter\<close>, \<open>vmtotal\<close>, \<open>loadav\<close>; \<open>hardclock\<close>, \<open>softclock\<close>, \<open>gatherstats\<close>,
    \<open>schedcpu\<close>. Any number of clock interrupts in any processor state is handled, keeps queues,
    callouts and signals consistent (\<open>clock_inv\<close>), and advances the time of day by one tick each.
  \<^item> \<open>Prot\<close>, \<open>Resource\<close>, \<open>Ktime\<close>: the system calls on ids, groups and file permissions, on nice values and
    limits, and on times and timers. No sequence of calls without privilege gains ids, raises limits
    or lowers nice values; what is set is read back; several arithmetic slips are shown as such.
  \<^item> \<open>Memlib\<close>: \<open>bcopy\<close>, \<open>bzero\<close>, \<open>bcmp\<close>, \<open>copystr\<close>, \<open>strlen\<close>, \<open>strncmp\<close>, \<open>ffs\<close>, \<open>insque\<close>, \<open>remque\<close>, \<open>copyin\<close>,
    \<open>copyout\<close> on byte memory. The word loops do what byte loops would do; the address checks of the user
    copies hold for moderate lengths and are shown to fail for long ranges.
  \<^item> \<open>Clist\<close>, \<open>Clistq\<close>, \<open>Clistpool\<close>, \<open>Clistrun\<close>: all of \<open>tty_subr.c\<close>, and \<open>cinit\<close>. Any number of character lists
    that share the pool behave as independent queues of bytes (an interpretation of \<open>simulation\<close>).
  \<^item> \<open>Fsdata\<close>: the structures of the file system that \<open>access\<close> reads.

  \<^bold>\<open>Not modelled.\<close>

  \<^item> The file system (\<open>ufs_*.c\<close>, \<open>vfs_vnops.c\<close>, \<open>sys_inode.c\<close>, \<open>sys_pipe.c\<close>, \<open>sys_generic.c\<close>) beyond the structures
    and \<open>access\<close>, and \<open>kern_exec.c\<close> and \<open>kern_mman.c\<close>: their operations read and write the disk through the
    buffer cache and sleep in the middle of an update.
  \<^item> Swapping (\<open>vm_swap.c\<close>, \<open>vm_swp.c\<close>, \<open>sched\<close> of \<open>vm_sched.c\<close>) beyond the swap map: disk transfers.
  \<^item> The context switch (\<open>setjmp\<close>, \<open>longjmp\<close>, \<open>startup.S\<close>), exceptions (\<open>exception.c\<close>) and interrupt levels:
    machine code and processor registers.
  \<^item> The terminal line discipline and pseudo terminals (\<open>tty.c\<close>, \<open>tty_pty.c\<close>, \<open>tty_tty.c\<close>) above the character
    lists, and all device drivers of \<open>sys/pic32\<close>: they call through the device tables into code that
    drives device registers.
  \<^item> Messages and logging (\<open>subr_prf.c\<close>, \<open>subr_log.c\<close>), \<open>kern_sysctl.c\<close> except \<open>fill_from_u\<close>, tracing
    (\<open>sys_process.c\<close>), and the tables \<open>init_sysent.c\<close>, \<open>syscalls.c\<close>, \<open>kern_glob.c\<close>.
  \<^item> User programs, libraries and build tools (\<open>src\<close>, \<open>lib\<close>, \<open>tools\<close>), which are not part of the kernel.
\<close>

end
